(* ===== verification/Prelude.thy ===== *)
theory Prelude
  imports Main "HOL-Library.Product_Lexorder"
begin

text \<open>
  What every component of the model shares: the types of identifiers and moments, the error body
  of the API (\<open>backend/app/errors.py\<close>), the two shapes of SQL statement the handlers are built
  from, and the rule collections the proofs use.
\<close>

section \<open>Types\<close>

text \<open>
  A UUID is a natural number: the code compares UUIDs for equality and sorts by them, nothing
  else. A \<open>datetime\<close> in UTC (and a Postgres \<open>timestamptz\<close>) is its number of microseconds since
  1970-01-01, a \<open>date\<close> its number of days since then, a \<open>timedelta\<close> a number of microseconds.
\<close>

type_synonym uuid = nat
type_synonym instant = int
type_synonym day = int
type_synonym 'a interval = "'a \<times> 'a"

text \<open>
  An address as \<open>ipaddress\<close> parses it, by its number. A text that does not parse is \<open>None\<close> where the
  code reads an \<open>ip option\<close>.
\<close>

datatype ip = V4 nat | V6 nat

abbreviation minute_us :: int where "minute_us \<equiv> 60000000"
abbreviation hour_us :: int where "hour_us \<equiv> 3600000000"
abbreviation day_us :: int where "day_us \<equiv> 86400000000"

section \<open>Errors\<close>

text \<open>
  Every refusal of the API is an \<open>ApiError\<close>: a status, a stable code and, for one code each, the
  weekday (\<open>outside_opening_hours\<close>) or the number of appointments in the way
  (\<open>overlaps_bookings\<close>) with their ids. An exception no handler catches is answered 500; the model
  names it by the constraint that raised it.
\<close>

datatype api_error =
    ApiError (status_code: nat) (code: string)
  | OutsideOpeningHours (err_weekday: nat)
  | OverlapsBookings (err_bookings: "uuid list") (err_total: nat)
  | Uncaught (raised: string)

type_synonym 'a result = "api_error + 'a"

section \<open>SQL statements over a table\<close>

text \<open>
  A table is the list of its rows in insertion order. \<open>UPDATE t SET f WHERE p\<close> is
  \<open>update_where p f t\<close>; its \<open>RETURNING\<close> is \<open>returning p f t\<close>, the rows as they are afterwards.
\<close>

definition update_where :: "('a \<Rightarrow> bool) \<Rightarrow> ('a \<Rightarrow> 'a) \<Rightarrow> 'a list \<Rightarrow> 'a list" where
  "update_where p f t = map (\<lambda>r. if p r then f r else r) t"

definition returning :: "('a \<Rightarrow> bool) \<Rightarrow> ('a \<Rightarrow> 'a) \<Rightarrow> 'a list \<Rightarrow> 'a list" where
  "returning p f t = map f (filter p t)"

fun first_row :: "'a list \<Rightarrow> 'a option" where
  "first_row [] = None"
| "first_row (r # _) = Some r"

section \<open>Rule collections and generic lemmas\<close>

named_theorems sql_simps \<open>what an UPDATE leaves alone and what it returns\<close>
named_theorems keeps \<open>operations that keep an invariant\<close>

lemma length_update_where [simp, sql_simps]: "length (update_where p f t) = length t"
  by (simp add: update_where_def)

lemma update_where_Nil [simp]: "update_where p f [] = []"
  by (simp add: update_where_def)

lemma update_where_Cons [simp]:
  "update_where p f (r # t) = (if p r then f r else r) # update_where p f t"
  by (simp add: update_where_def)

lemma set_update_where [simp]:
  "set (update_where p f t) = (\<lambda>x. if p x then f x else x) ` set t"
  by (auto simp: update_where_def)

lemma update_where_Nil_iff [simp]: "update_where p f t = [] \<longleftrightarrow> t = []"
  by (simp add: update_where_def)

lemma map_update_where_same:
  "(\<And>r. p r \<Longrightarrow> g (f r) = g r) \<Longrightarrow> map g (update_where p f t) = map g t"
  by (induction t) auto

lemma update_where_none: "\<forall>r \<in> set t. \<not> p r \<Longrightarrow> update_where p f t = t"
  by (induction t) auto

lemma returning_Nil_iff [sql_simps]: "returning p f t = [] \<longleftrightarrow> (\<forall>r \<in> set t. \<not> p r)"
  by (simp add: returning_def filter_empty_conv)

lemma in_returning [sql_simps]: "x \<in> set (returning p f t) \<longleftrightarrow> (\<exists>r \<in> set t. p r \<and> x = f r)"
  by (auto simp: returning_def)

lemma first_row_None [simp]: "first_row t = None \<longleftrightarrow> t = []"
  by (cases t) auto

lemma first_row_in: "first_row t = Some r \<Longrightarrow> r \<in> set t"
  by (cases t) auto

lemma first_row_filterD: "first_row (filter p t) = Some r \<Longrightarrow> r \<in> set t \<and> p r"
  using first_row_in [of "filter p t" r] by simp

lemma sorted_wrt_concat_map:
  assumes "sorted_wrt Q xs" and "\<And>x. x \<in> set xs \<Longrightarrow> sorted_wrt R (f x)"
    and "\<And>x y a b. Q x y \<Longrightarrow> x \<in> set xs \<Longrightarrow> y \<in> set xs \<Longrightarrow> a \<in> set (f x) \<Longrightarrow> b \<in> set (f y) \<Longrightarrow> R a b"
  shows "sorted_wrt R (concat (map f xs))"
  using assms
proof (induction xs)
  case Nil
  then show ?case by simp
next
  case (Cons x xs)
  have "sorted_wrt R (concat (map f xs))"
    by (rule Cons.IH) (use Cons.prems in auto)
  moreover have "R a b" if "a \<in> set (f x)" "b \<in> set (concat (map f xs))" for a b
    using that Cons.prems by auto
  ultimately show ?case
    using Cons.prems(2) by (simp add: sorted_wrt_append)
qed

end
