(* ===== verification/Clock.thy ===== *)
theory Clock
  imports Prelude
begin

text \<open>
  Wall clocks: Python's \<open>datetime.time\<close> and \<open>zoneinfo\<close>, as far as \<open>backend/app/schedule.py\<close> uses
  them, and \<open>to_utc\<close>, the one conversion from a business's local time to an instant. Shows that
  \<open>to_utc\<close> always returns, is monotone in the wall clock, picks the first of two readings, and maps
  a skipped reading to the jump.
\<close>

section \<open>Times of day\<close>

datatype time = Time (hour: nat) (minute: nat)

text \<open>Python compares \<open>time\<close> objects by hour, then minute.\<close>

instantiation time :: linorder
begin

definition less_eq_time :: "time \<Rightarrow> time \<Rightarrow> bool" where
  "less_eq_time a b \<longleftrightarrow> hour a < hour b \<or> hour a = hour b \<and> minute a \<le> minute b"

definition less_time :: "time \<Rightarrow> time \<Rightarrow> bool" where
  "less_time a b \<longleftrightarrow> hour a < hour b \<or> hour a = hour b \<and> minute a < minute b"

instance
proof
  fix x y z :: time
  show "x < y \<longleftrightarrow> x \<le> y \<and> \<not> y \<le> x"
    by (auto simp: less_time_def less_eq_time_def)
  show "x \<le> x"
    by (simp add: less_eq_time_def)
  show "x \<le> y \<Longrightarrow> y \<le> z \<Longrightarrow> x \<le> z"
    by (auto simp: less_eq_time_def)
  show "x \<le> y \<Longrightarrow> y \<le> x \<Longrightarrow> x = y"
    by (cases x; cases y) (auto simp: less_eq_time_def)
  show "x \<le> y \<or> y \<le> x"
    by (auto simp: less_eq_time_def)
qed

end

text \<open>The constructor's range check, and minutes after midnight.\<close>

definition valid_time :: "time \<Rightarrow> bool" where
  "valid_time t \<longleftrightarrow> hour t < 24 \<and> minute t < 60"

definition mins :: "time \<Rightarrow> int" where
  "mins t = int (hour t) * 60 + int (minute t)"

lemma mins_mono:
  assumes "valid_time a" "valid_time b"
  shows "mins a \<le> mins b \<longleftrightarrow> a \<le> b" and "mins a < mins b \<longleftrightarrow> a < b"
  using assms by (auto simp: valid_time_def mins_def less_eq_time_def less_time_def)

lemma mins_range: "valid_time t \<Longrightarrow> 0 \<le> mins t \<and> mins t < 1440"
  by (auto simp: valid_time_def mins_def)

section \<open>Time zones\<close>

text \<open>
  A \<open>ZoneInfo\<close> is an offset before the first transition and the list of its transitions, each the
  instant it happens and the offset from then on. \<open>utcoff\<close> is the offset at an instant
  (\<open>astimezone(tz)\<close>); \<open>utcoff_wall\<close> the offset of a wall clock reading with \<open>fold=0\<close>
  (\<open>replace(tzinfo=tz)\<close>), for which \<open>zoneinfo\<close> puts each transition at its instant plus the larger
  of the two offsets: inside a gap, and in the first pass of a repeated hour, the old offset.
\<close>

record zone =
  base_offset :: int
  transitions :: "(instant \<times> int) list"

fun off_utc :: "int \<Rightarrow> (instant \<times> int) list \<Rightarrow> instant \<Rightarrow> int" where
  "off_utc o1 [] u = o1"
| "off_utc o1 ((t, o2) # ts) u = (if u < t then o1 else off_utc o2 ts u)"

fun off_wall :: "int \<Rightarrow> (instant \<times> int) list \<Rightarrow> int \<Rightarrow> int" where
  "off_wall o1 [] w = o1"
| "off_wall o1 ((t, o2) # ts) w = (if w < t + max o1 o2 then o1 else off_wall o2 ts w)"

definition utcoff :: "zone \<Rightarrow> instant \<Rightarrow> int" where
  "utcoff z u = off_utc (base_offset z) (transitions z) u"

definition utcoff_wall :: "zone \<Rightarrow> int \<Rightarrow> int" where
  "utcoff_wall z w = off_wall (base_offset z) (transitions z) w"

text \<open>\<open>u.astimezone(tz)\<close> read as a wall clock, and \<open>wall.replace(tzinfo=tz).astimezone(UTC)\<close>.\<close>

definition utc_to_wall :: "zone \<Rightarrow> instant \<Rightarrow> int" where
  "utc_to_wall z u = u + utcoff z u"

definition wall_to_utc :: "zone \<Rightarrow> int \<Rightarrow> instant" where
  "wall_to_utc z w = w - utcoff_wall z w"

text \<open>\<open>u.astimezone(ZoneInfo(zone)).date()\<close>.\<close>

definition local_date :: "zone \<Rightarrow> instant \<Rightarrow> day" where
  "local_date z u = utc_to_wall z u div day_us"

definition round_trips :: "zone \<Rightarrow> int \<Rightarrow> bool" where
  "round_trips z w \<longleftrightarrow> utc_to_wall z (wall_to_utc z w) = w"

text \<open>
  The minute walk of \<open>to_utc\<close> stops for every zone: past the last transition both offsets are the
  last one. \<open>walk_horizon\<close> is a reading from which that is so.
\<close>

fun last_offset :: "int \<Rightarrow> (instant \<times> int) list \<Rightarrow> int" where
  "last_offset o1 [] = o1"
| "last_offset o1 ((t, o2) # ts) = last_offset o2 ts"

fun walk_horizon :: "int \<Rightarrow> (instant \<times> int) list \<Rightarrow> int" where
  "walk_horizon o1 [] = 0"
| "walk_horizon o1 ((t, o2) # ts) =
     max (t + max (max o1 o2) (last_offset o2 ts)) (walk_horizon o2 ts)"

lemma off_wall_walk: "walk_horizon o1 ts \<le> w \<Longrightarrow> off_wall o1 ts w = last_offset o1 ts"
  by (induction o1 ts w rule: off_wall.induct) auto

lemma off_utc_walk:
  "walk_horizon o1 ts \<le> w \<Longrightarrow> off_utc o1 ts (w - last_offset o1 ts) = last_offset o1 ts"
  by (induction o1 ts w rule: off_wall.induct) auto

lemma round_trips_horizon:
  "walk_horizon (base_offset z) (transitions z) \<le> w \<Longrightarrow> round_trips z w"
  by (simp add: round_trips_def utc_to_wall_def wall_to_utc_def utcoff_def utcoff_wall_def
      off_wall_walk off_utc_walk)

function settle_wall :: "zone \<Rightarrow> int \<Rightarrow> int" where
  "settle_wall z w =
     (if utc_to_wall z (wall_to_utc z w) \<noteq> w then settle_wall z (w + minute_us) else w)"
  by pat_completeness auto
termination
proof (relation "measure (\<lambda>(z, w). nat (walk_horizon (base_offset z) (transitions z) - w))", goal_cases)
  case (2 z w)
  then have "w < walk_horizon (base_offset z) (transitions z)"
    using round_trips_horizon [of z w] by (force simp: round_trips_def)
  then show ?case by simp
qed simp

declare settle_wall.simps [simp del]

definition wall :: "day \<Rightarrow> time \<Rightarrow> int" where
  "wall d at = d * day_us + mins at * minute_us"

definition to_utc :: "day \<Rightarrow> time \<Rightarrow> zone \<Rightarrow> instant" where
  "to_utc d at z = wall_to_utc z (settle_wall z (wall d at))"

text \<open>\<open>day.isoweekday()\<close>: 1 is Monday; 1970-01-01 was a Thursday.\<close>

definition isoweekday :: "day \<Rightarrow> nat" where
  "isoweekday d = nat ((d + 3) mod 7) + 1"

lemma isoweekday_range: "1 \<le> isoweekday d \<and> isoweekday d \<le> 7"
  by (simp add: isoweekday_def)

section \<open>Zones as they are\<close>

text \<open>
  What the theorems ask of a zone: two transitions in a row are at least as far apart as the sizes
  of their jumps together. (Every zone of tzdata keeps them days apart, and jumps are hours.)
\<close>

fun spaced :: "int \<Rightarrow> (instant \<times> int) list \<Rightarrow> bool" where
  "spaced o1 [] = True"
| "spaced o1 ((t, o2) # ts) =
     ((case ts of [] \<Rightarrow> True | (t', o3) # _ \<Rightarrow> t + \<bar>o2 - o1\<bar> + \<bar>o3 - o2\<bar> \<le> t') \<and> spaced o2 ts)"

definition zone_ok :: "zone \<Rightarrow> bool" where
  "zone_ok z \<longleftrightarrow> spaced (base_offset z) (transitions z)"

text \<open>The first transition of \<open>ts\<close> comes, jump included, no earlier than \<open>s\<close>.\<close>

fun starts_after :: "instant \<Rightarrow> int \<Rightarrow> (instant \<times> int) list \<Rightarrow> bool" where
  "starts_after s o1 [] = True"
| "starts_after s o1 ((t, o2) # ts) = (s + \<bar>o2 - o1\<bar> \<le> t)"

lemma spaced_Cons:
  "spaced o1 ((t, o2) # ts) \<Longrightarrow> spaced o2 ts \<and> starts_after (t + \<bar>o2 - o1\<bar>) o2 ts"
  by (cases ts) auto

lemma starts_after_mono: "starts_after s o1 ts \<Longrightarrow> s' \<le> s \<Longrightarrow> starts_after s' o1 ts"
  by (cases ts) auto

lemma wall_after:
  "spaced o1 ts \<Longrightarrow> starts_after s o1 ts \<Longrightarrow> s \<le> w - o1 \<Longrightarrow> s \<le> w - off_wall o1 ts w"
proof (induction o1 ts w arbitrary: s rule: off_wall.induct)
  case (2 o1 t o2 ts w)
  show ?case
  proof (cases "w < t + max o1 o2")
    case False
    have "spaced o2 ts" "starts_after t o2 ts"
      using spaced_Cons [OF "2.prems"(1)] starts_after_mono [of "t + \<bar>o2 - o1\<bar>" o2 ts t] by auto
    then have "t \<le> w - off_wall o2 ts w"
      using "2.IH" [OF False, of t] False by simp
    then show ?thesis
      using "2.prems"(2) False by simp
  qed (use "2.prems" in simp)
qed simp

lemma utc_after:
  "spaced o1 ts \<Longrightarrow> starts_after s o1 ts \<Longrightarrow> s \<le> u \<Longrightarrow> s + o1 \<le> u + off_utc o1 ts u"
proof (induction o1 ts u arbitrary: s rule: off_utc.induct)
  case (2 o1 t o2 ts u)
  show ?case
  proof (cases "u < t")
    case False
    have "spaced o2 ts" "starts_after t o2 ts"
      using spaced_Cons [OF "2.prems"(1)] starts_after_mono [of "t + \<bar>o2 - o1\<bar>" o2 ts t] by auto
    then have "t + o2 \<le> u + off_utc o2 ts u"
      using "2.IH" [OF False, of t] False by simp
    then show ?thesis
      using "2.prems"(2) False by simp
  qed (use "2.prems" in simp)
qed simp

lemma off_utc_before: "starts_after s o1 ts \<Longrightarrow> u < s \<Longrightarrow> off_utc o1 ts u = o1"
  by (cases ts) auto

definition shows_back :: "int \<Rightarrow> (instant \<times> int) list \<Rightarrow> int \<Rightarrow> bool" where
  "shows_back o1 ts w \<longleftrightarrow>
     w - off_wall o1 ts w + off_utc o1 ts (w - off_wall o1 ts w) = w"

lemma round_trips_shows_back:
  "round_trips z w \<longleftrightarrow> shows_back (base_offset z) (transitions z) w"
  by (simp add: round_trips_def shows_back_def utc_to_wall_def wall_to_utc_def utcoff_def
      utcoff_wall_def)

text \<open>A reading before the first jump's end that an instant shows, shows an instant before it.\<close>

lemma shows_back_first:
  assumes sp: "spaced o1 ((t, o2) # ts)" and w: "w < t + max o1 o2"
    and sb: "shows_back o1 ((t, o2) # ts) w"
  shows "w - o1 < t"
proof (rule ccontr)
  assume ge: "\<not> w - o1 < t"
  with w have lt: "o1 < o2" by simp
  have "off_utc o2 ts (w - o1) = o2"
    using off_utc_before [of "t + \<bar>o2 - o1\<bar>" o2 ts "w - o1"] spaced_Cons [OF sp] w lt by simp
  then show False
    using sb w ge lt by (simp add: shows_back_def)
qed

lemma shows_back_rest:
  assumes sp: "spaced o1 ((t, o2) # ts)" and w: "t + max o1 o2 \<le> w"
  shows "t \<le> w - off_wall o2 ts w"
    and "shows_back o1 ((t, o2) # ts) w \<longleftrightarrow> shows_back o2 ts w"
proof -
  have "starts_after t o2 ts"
    using spaced_Cons [OF sp] starts_after_mono [of "t + \<bar>o2 - o1\<bar>" o2 ts t] by auto
  then show *: "t \<le> w - off_wall o2 ts w"
    using wall_after [of o2 ts t w] spaced_Cons [OF sp] w by simp
  show "shows_back o1 ((t, o2) # ts) w \<longleftrightarrow> shows_back o2 ts w"
    using * w by (simp add: shows_back_def)
qed

lemma off_wall_mono:
  "spaced o1 ts \<Longrightarrow> w1 \<le> w2 \<Longrightarrow> shows_back o1 ts w1 \<Longrightarrow> shows_back o1 ts w2 \<Longrightarrow>
   w1 - off_wall o1 ts w1 \<le> w2 - off_wall o1 ts w2"
proof (induction o1 ts w1 rule: off_wall.induct)
  case (2 o1 t o2 ts w1)
  note sp = "2.prems"(1)
  consider "w2 < t + max o1 o2" | "w1 < t + max o1 o2" "t + max o1 o2 \<le> w2"
    | "t + max o1 o2 \<le> w1"
    by linarith
  then show ?case
  proof cases
    case 1
    then show ?thesis using "2.prems"(2) by simp
  next
    case 2
    have "w1 - o1 < t"
      using shows_back_first [OF sp] 2 "2.prems"(3) by blast
    moreover have "t \<le> w2 - off_wall o2 ts w2"
      using shows_back_rest(1) [OF sp] 2 by blast
    ultimately show ?thesis
      using 2 by simp
  next
    case 3
    then have "w1 - off_wall o2 ts w1 \<le> w2 - off_wall o2 ts w2"
      using "2.IH" "2.prems" spaced_Cons [OF sp] shows_back_rest(2) [OF sp] by simp
    then show ?thesis
      using 3 "2.prems"(2) by simp
  qed
qed simp

section \<open>The minute walk\<close>

lemma settle_wall_stops: "round_trips z w \<Longrightarrow> settle_wall z w = w"
  by (simp add: settle_wall.simps [of z w] round_trips_def)

lemma settle_wall_steps: "\<not> round_trips z w \<Longrightarrow> settle_wall z w = settle_wall z (w + minute_us)"
  by (simp add: settle_wall.simps [of z w] round_trips_def)

lemma settle_wall_spec:
  "round_trips z (settle_wall z w) \<and> w \<le> settle_wall z w \<and> minute_us dvd settle_wall z w - w \<and>
   (\<forall>x. w \<le> x \<and> x < settle_wall z w \<and> minute_us dvd x - w \<longrightarrow> \<not> round_trips z x)"
proof (induction z w rule: settle_wall.induct)
  case (1 z w)
  show ?case
  proof (cases "round_trips z w")
    case True
    then show ?thesis by (auto simp: settle_wall_stops)
  next
    case False
    let ?v = "settle_wall z (w + minute_us)"
    have IH: "round_trips z ?v" "w + minute_us \<le> ?v" "minute_us dvd ?v - (w + minute_us)"
      "\<And>x. w + minute_us \<le> x \<Longrightarrow> x < ?v \<Longrightarrow> minute_us dvd x - (w + minute_us) \<Longrightarrow> \<not> round_trips z x"
      using "1.IH" False by (auto simp: round_trips_def)
    have "minute_us dvd ?v - w"
      using dvd_add [OF IH(3) dvd_refl] by simp
    moreover have "\<not> round_trips z x" if x: "w \<le> x" "x < ?v" "minute_us dvd x - w" for x
    proof (cases "x = w")
      case True
      then show ?thesis using False by simp
    next
      case ne: False
      with x have "minute_us \<le> x - w"
        by (intro zdvd_imp_le) auto
      moreover have "minute_us dvd x - (w + minute_us)"
        using dvd_diff [OF x(3) dvd_refl] by (simp add: algebra_simps)
      ultimately show ?thesis
        using IH(4) x by auto
    qed
    ultimately show ?thesis
      using IH(1,2) settle_wall_steps [OF False] by auto
  qed
qed

lemmas settle_wall_shows = settle_wall_spec [THEN conjunct1]
lemmas settle_wall_ge = settle_wall_spec [THEN conjunct2, THEN conjunct1]
lemmas settle_wall_aligned = settle_wall_spec [THEN conjunct2, THEN conjunct2, THEN conjunct1]
lemmas settle_wall_least =
  settle_wall_spec [THEN conjunct2, THEN conjunct2, THEN conjunct2, rule_format]

lemma settle_wall_mono:
  assumes "w1 \<le> w2" and "minute_us dvd w2 - w1"
  shows "settle_wall z w1 \<le> settle_wall z w2"
proof (rule ccontr)
  assume less: "\<not> settle_wall z w1 \<le> settle_wall z w2"
  have "minute_us dvd settle_wall z w2 - w1"
    using dvd_add [OF settle_wall_aligned [of z w2] assms(2)] by simp
  moreover have "w1 \<le> settle_wall z w2"
    using assms(1) settle_wall_ge [of w2 z] by simp
  ultimately have "\<not> round_trips z (settle_wall z w2)"
    using settle_wall_least [of w1 "settle_wall z w2" z] less by simp
  then show False
    using settle_wall_shows by blast
qed

lemma wall_aligned: "minute_us dvd wall d at - wall d' at'"
proof -
  have "wall d at - wall d' at' = ((d - d') * 1440 + (mins at - mins at')) * minute_us"
    by (simp add: wall_def algebra_simps)
  then show ?thesis by (metis dvd_triv_right)
qed

lemma wall_to_utc_mono:
  assumes "zone_ok z" "w1 \<le> w2" "round_trips z w1" "round_trips z w2"
  shows "wall_to_utc z w1 \<le> wall_to_utc z w2"
  using assms off_wall_mono [of "base_offset z" "transitions z" w1 w2]
  by (simp add: zone_ok_def round_trips_shows_back wall_to_utc_def utcoff_wall_def)

lemma to_utc_mono:
  assumes "zone_ok z" and "wall d1 t1 \<le> wall d2 t2"
  shows "to_utc d1 t1 z \<le> to_utc d2 t2 z"
  unfolding to_utc_def using assms
  by (intro wall_to_utc_mono settle_wall_mono wall_aligned settle_wall_shows)

section \<open>A reading shown twice, and one never shown\<close>

lemma off_wall_first_reading:
  "spaced o1 ts \<Longrightarrow> u + off_utc o1 ts u = w \<Longrightarrow>
   w - off_wall o1 ts w \<le> u \<and> shows_back o1 ts w"
proof (induction o1 ts u rule: off_utc.induct)
  case (1 o1 u)
  then show ?case by (simp add: shows_back_def)
next
  case (2 o1 t o2 ts u)
  note sp = "2.prems"(1)
  consider "u < t" | "t \<le> u" "t + max o1 o2 \<le> w" | "t \<le> u" "w < t + max o1 o2"
    by linarith
  then show ?case
  proof cases
    case 1
    then have "w < t + max o1 o2" using "2.prems"(2) by simp
    then show ?thesis using 1 "2.prems"(2) by (auto simp: shows_back_def)
  next
    case 2
    then show ?thesis
      using "2.IH" "2.prems" spaced_Cons [OF sp] shows_back_rest(2) [OF sp] by simp
  next
    case 3
    have "starts_after t o2 ts"
      using spaced_Cons [OF sp] starts_after_mono [of "t + \<bar>o2 - o1\<bar>" o2 ts t] by auto
    then have "t + o2 \<le> w"
      using utc_after [of o2 ts t u] spaced_Cons [OF sp] 3 "2.prems"(2) by simp
    then have "w < t + o1"
      using 3 by auto
    then show ?thesis
      using 3 by (auto simp: shows_back_def)
  qed
qed

lemma wall_to_utc_first:
  assumes "zone_ok z" and "utc_to_wall z u = w"
  shows "wall_to_utc z w \<le> u" and "round_trips z w"
  using off_wall_first_reading [of "base_offset z" "transitions z" u w] assms
  by (simp_all add: zone_ok_def round_trips_shows_back wall_to_utc_def utc_to_wall_def
      utcoff_def utcoff_wall_def)

text \<open>The jumps of a zone: instant, old and new offset.\<close>

fun jumps :: "int \<Rightarrow> (instant \<times> int) list \<Rightarrow> (instant \<times> int \<times> int) list" where
  "jumps o1 [] = []"
| "jumps o1 ((t, o2) # ts) = (t, o1, o2) # jumps o2 ts"

lemma jump_rest:
  "spaced o1 ts \<Longrightarrow> starts_after s o1 ts \<Longrightarrow> (t, a, b) \<in> set (jumps o1 ts) \<Longrightarrow>
   s + o1 \<le> t + min a b \<and> s \<le> t"
proof (induction o1 ts arbitrary: s rule: jumps.induct)
  case (2 o1 t' o2 ts)
  have sp: "spaced o2 ts" "starts_after t' o2 ts"
    using spaced_Cons [OF "2.prems"(1)] starts_after_mono [of "t' + \<bar>o2 - o1\<bar>" o2 ts t'] by auto
  show ?case
  proof (cases "(t, a, b) = (t', o1, o2)")
    case False
    then have "(t, a, b) \<in> set (jumps o2 ts)"
      using "2.prems"(3) by auto
    then have "t' + o2 \<le> t + min a b \<and> t' \<le> t"
      by (rule "2.IH" [OF sp])
    then show ?thesis using "2.prems"(2) by auto
  qed (use "2.prems"(2) in auto)
qed simp

lemma in_gap:
  "spaced o1 ts \<Longrightarrow> (t, a, b) \<in> set (jumps o1 ts) \<Longrightarrow> a < b \<Longrightarrow>
   (t + a \<le> w \<longrightarrow> w < t + b \<longrightarrow> \<not> shows_back o1 ts w) \<and> off_wall o1 ts (t + b) = b \<and>
   shows_back o1 ts (t + b)"
proof (induction o1 ts rule: jumps.induct)
  case (2 o1 t' o2 ts)
  note sp = "2.prems"(1)
  show ?case
  proof (cases "(t, a, b) = (t', o1, o2)")
    case True
    have "starts_after (t' + \<bar>o2 - o1\<bar>) o2 ts"
      using spaced_Cons [OF sp] by simp
    then have "off_wall o2 ts (t' + o2) = o2" "off_utc o2 ts t' = o2"
      using True "2.prems"(3) by (cases ts; auto)+
    then show ?thesis
      using True "2.prems"(3) shows_back_first [OF sp, of w] by (auto simp: shows_back_def)
  next
    case False
    then have mem: "(t, a, b) \<in> set (jumps o2 ts)"
      using "2.prems"(2) by auto
    have "t' + \<bar>o2 - o1\<bar> + o2 \<le> t + a"
      using jump_rest [OF _ _ mem] spaced_Cons [OF sp] "2.prems"(3) by fastforce
    then have ge: "t' + max o1 o2 \<le> t + a"
      by simp
    then show ?thesis
      using "2.IH" [OF _ mem] spaced_Cons [OF sp] "2.prems"(3)
        shows_back_rest(2) [OF sp, of w] shows_back_rest(2) [OF sp, of "t + b"] by auto
  qed
qed simp

lemma settle_wall_gap:
  assumes ok: "zone_ok z" and jump: "(t, a, b) \<in> set (jumps (base_offset z) (transitions z))"
    and gap: "t + a \<le> w" "w < t + b" and aligned: "minute_us dvd t + b - w"
  shows "wall_to_utc z (settle_wall z w) = t"
proof -
  have ab: "a < b" using gap by simp
  note facts = in_gap [OF ok [unfolded zone_ok_def] jump ab]
  have "settle_wall z w \<le> t + b"
    using settle_wall_mono [of w "t + b" z] settle_wall_stops [of z "t + b"] gap aligned facts
    by (auto simp: round_trips_shows_back)
  moreover have "\<not> settle_wall z w < t + b"
    using facts [of "settle_wall z w"] settle_wall_shows [of z w] settle_wall_ge [of w z] gap
    by (auto simp: round_trips_shows_back)
  ultimately have "settle_wall z w = t + b" by simp
  then show ?thesis
    using facts by (simp add: wall_to_utc_def utcoff_wall_def)
qed

section \<open>The interface of a local clock\<close>

text \<open>
  What the availability engine asks of the conversion: it never runs backwards. Then shifts that are
  apart on the wall clock, on one day or on two, are apart as instants.
\<close>

locale local_clock =
  fixes good :: "'z \<Rightarrow> bool"
    and conv :: "'z \<Rightarrow> day \<Rightarrow> time \<Rightarrow> instant"
  assumes conv_mono: "good z \<Longrightarrow> wall d1 t1 \<le> wall d2 t2 \<Longrightarrow> conv z d1 t1 \<le> conv z d2 t2"
begin

lemma same_day:
  "good z \<Longrightarrow> valid_time t1 \<Longrightarrow> valid_time t2 \<Longrightarrow> t1 \<le> t2 \<Longrightarrow> conv z d t1 \<le> conv z d t2"
  by (rule conv_mono) (simp_all add: wall_def mins_mono [symmetric])

lemma later_day:
  assumes "good z" "valid_time t1" "valid_time t2" "d1 < d2"
  shows "conv z d1 t1 \<le> conv z d2 t2"
proof (rule conv_mono [OF assms(1)])
  have "d1 * 1440 + 1440 \<le> d2 * 1440" using assms(4) by simp
  then have "d1 * 1440 + mins t1 \<le> d2 * 1440 + mins t2"
    using mins_range [OF assms(2)] mins_range [OF assms(3)] by linarith
  then show "wall d1 t1 \<le> wall d2 t2"
    unfolding wall_def by linarith
qed

end

interpretation utc_clock: local_clock zone_ok "\<lambda>z d t. to_utc d t z"
  by unfold_locales (rule to_utc_mono)

section \<open>Two zones\<close>

text \<open>UTC itself, for the examples.\<close>

definition sample_zone :: zone where
  "sample_zone = \<lparr>base_offset = 0, transitions = []\<rparr>"

text \<open>A zone with one jump forward (02:00 to 03:00 on the second day) and one back a week later.\<close>

definition jumping_zone :: zone where
  "jumping_zone = \<lparr>base_offset = 0,
     transitions = [(day_us + 2 * hour_us, hour_us), (8 * day_us + 2 * hour_us, 0)]\<rparr>"

section \<open>What to_utc promises\<close>

text \<open>A reading the clock shows is converted to the first instant that shows it.\<close>

lemma to_utc_first_reading:
  assumes "zone_ok z" and "utc_to_wall z u = wall d at"
  shows "utc_to_wall z (to_utc d at z) = wall d at \<and> to_utc d at z \<le> u"
  using wall_to_utc_first [OF assms] by (simp add: to_utc_def settle_wall_stops round_trips_def)

text \<open>A reading that a jump of the clock skips is converted to the instant of the jump.\<close>

lemma to_utc_in_gap:
  assumes "zone_ok z" and "(t, a, b) \<in> set (jumps (base_offset z) (transitions z))"
    and "t + a \<le> wall d at" and "wall d at < t + b" and "minute_us dvd t + b - wall d at"
  shows "to_utc d at z = t"
  using settle_wall_gap [OF assms] by (simp add: to_utc_def)


end
