(* ===== verification/Intervals.thy ===== *)
theory Intervals
  imports Prelude "HOL-Library.Multiset"
begin

text \<open>
  Half-open intervals over any linear order: wall clock shifts and UTC blocks alike. Models
  \<open>merged\<close>, \<open>clip\<close> and \<open>overlaps\<close> of \<open>backend/app/availability.py\<close>, \<open>overlapping\<close>'s test on rows,
  \<open>day_shifts\<close>'s joining loop and \<open>within\<close> of \<open>backend/app/schedule.py\<close>, and Python's
  \<open>bisect_right\<close>. Shows that each computes what its name says: the loops neither lose nor invent a
  moment, keep lists sorted and apart, and the binary search answers the overlap question.
\<close>

section \<open>What a list of intervals covers\<close>

definition covers :: "('a::linorder) interval list \<Rightarrow> 'a \<Rightarrow> bool" where
  "covers ivs x \<longleftrightarrow> (\<exists>(s, e) \<in> set ivs. s \<le> x \<and> x < e)"

definition proper :: "('a::linorder) interval list \<Rightarrow> bool" where
  "proper ivs \<longleftrightarrow> (\<forall>(s, e) \<in> set ivs. s < e)"

text \<open>Sorted, disjoint and not even touching.\<close>

definition separated :: "('a::linorder) interval list \<Rightarrow> bool" where
  "separated ivs \<longleftrightarrow> proper ivs \<and> sorted_wrt (\<lambda>a b. snd a < fst b) ivs"

text \<open>Sorted and disjoint; touching is allowed.\<close>

definition in_order :: "('a::linorder) interval list \<Rightarrow> bool" where
  "in_order ivs \<longleftrightarrow> proper ivs \<and> sorted_wrt (\<lambda>a b. snd a \<le> fst b) ivs"

definition meets :: "('a::linorder) interval \<Rightarrow> 'a interval \<Rightarrow> bool" where
  "meets a b \<longleftrightarrow> fst a < snd b \<and> fst b < snd a"

lemma covers_Nil [simp]: "\<not> covers [] x"
  by (simp add: covers_def)

lemma covers_Cons [simp]: "covers ((s, e) # ivs) x \<longleftrightarrow> s \<le> x \<and> x < e \<or> covers ivs x"
  by (auto simp: covers_def)

lemma covers_append [simp]: "covers (as @ bs) x \<longleftrightarrow> covers as x \<or> covers bs x"
  by (auto simp: covers_def)

lemma covers_set: "set as = set bs \<Longrightarrow> covers as = covers bs"
  by (simp add: covers_def fun_eq_iff)

lemma proper_Nil [simp]: "proper []"
  by (simp add: proper_def)

lemma proper_Cons [simp]: "proper ((s, e) # ivs) \<longleftrightarrow> s < e \<and> proper ivs"
  by (auto simp: proper_def)

lemma proper_append [simp]: "proper (as @ bs) \<longleftrightarrow> proper as \<and> proper bs"
  by (auto simp: proper_def)

lemma proper_set: "set as = set bs \<Longrightarrow> proper as = proper bs"
  by (simp add: proper_def)

lemma properD: "proper ivs \<Longrightarrow> iv \<in> set ivs \<Longrightarrow> fst iv < snd iv"
  by (auto simp: proper_def)

lemma separated_in_order: "separated ivs \<Longrightarrow> in_order ivs"
  by (auto simp: separated_def in_order_def intro: sorted_wrt_mono_rel [rotated])

section \<open>merged\<close>

text \<open>
  The loop over \<open>sorted(intervals)\<close>; \<open>out\<close> is kept reversed, so \<open>out[-1]\<close> is its head.
\<close>

fun merge_loop :: "('a::linorder) interval list \<Rightarrow> 'a interval list \<Rightarrow> 'a interval list" where
  "merge_loop out [] = rev out"
| "merge_loop [] ((s, e) # r) = merge_loop [(s, e)] r"
| "merge_loop ((s0, e0) # out) ((s, e) # r) =
     (if s \<le> e0 then merge_loop ((s0, max e0 e) # out) r
      else merge_loop ((s, e) # (s0, e0) # out) r)"

definition merged :: "('a::linorder) interval list \<Rightarrow> 'a interval list" where
  "merged intervals = merge_loop [] (sort intervals)"

definition below :: "('a::linorder) interval list \<Rightarrow> 'a interval list \<Rightarrow> bool" where
  "below out ivs \<longleftrightarrow> (\<forall>a \<in> set out. \<forall>b \<in> set ivs. fst a \<le> fst b)"

lemma sorted_pair_ConsD: "sorted ((s, e) # r) \<Longrightarrow> sorted r \<and> (\<forall>b \<in> set r. s \<le> fst b)"
  by (auto simp: less_eq_prod_def)

lemma below_simps [simp]:
  "below [] r" "below out []"
  "below ((s, e) # out) r \<longleftrightarrow> (\<forall>b \<in> set r. s \<le> fst b) \<and> below out r"
  "below out ((s, e) # r) \<longleftrightarrow> (\<forall>a \<in> set out. fst a \<le> s) \<and> below out r"
  by (auto simp: below_def)

lemma covers_merge_loop:
  "sorted ivs \<Longrightarrow> below out ivs \<Longrightarrow>
   covers (merge_loop out ivs) x \<longleftrightarrow> covers (rev out) x \<or> covers ivs x"
proof (induction out ivs rule: merge_loop.induct)
  case (3 s0 e0 out s e r)
  note sr = sorted_pair_ConsD [OF "3.prems"(1)]
  show ?case
  proof (cases "s \<le> e0")
    case True
    then have "covers (merge_loop ((s0, e0) # out) ((s, e) # r)) x
        \<longleftrightarrow> covers (rev ((s0, max e0 e) # out)) x \<or> covers r x"
      using "3.IH"(1) sr "3.prems"(2) by simp
    moreover have "s0 \<le> s" using "3.prems"(2) by simp
    ultimately show ?thesis
      using True by (auto simp: less_max_iff_disj)
  next
    case False
    then show ?thesis
      using "3.IH"(2) sr "3.prems"(2) by auto
  qed
qed (use sorted_pair_ConsD in auto)

lemma separated_rev_Cons:
  "separated (rev ((s, e) # out)) \<longleftrightarrow> separated (rev out) \<and> s < e \<and> (\<forall>a \<in> set out. snd a < s)"
  by (auto simp: separated_def sorted_wrt_append)

lemma separated_merge_loop:
  "proper ivs \<Longrightarrow> sorted ivs \<Longrightarrow> below out ivs \<Longrightarrow> separated (rev out) \<Longrightarrow>
   separated (merge_loop out ivs)"
proof (induction out ivs rule: merge_loop.induct)
  case (2 s e r)
  then show ?case
    using sorted_pair_ConsD [OF "2.prems"(2)] by (simp add: separated_def)
next
  case (3 s0 e0 out s e r)
  note sr = sorted_pair_ConsD [OF "3.prems"(2)]
  have out: "separated (rev out)" "s0 < e0" "\<forall>a \<in> set out. snd a < s0"
    using "3.prems"(4) by (simp_all add: separated_rev_Cons del: rev.simps)
  show ?case
  proof (cases "s \<le> e0")
    case True
    have "separated (rev ((s0, max e0 e) # out))"
      using out by (simp add: separated_rev_Cons less_max_iff_disj del: rev.simps)
    then show ?thesis
      using "3.IH"(1) [OF True] sr True "3.prems" by simp
  next
    case False
    moreover have "snd a < s" if "a \<in> set out" for a
      using that out(2,3) False by (meson less_trans not_le)
    ultimately have "separated (rev ((s, e) # (s0, e0) # out))"
      using out "3.prems"(1) by (simp add: separated_rev_Cons del: rev.simps)
    then show ?thesis
      using "3.IH"(2) [OF False] sr False "3.prems" by simp
  qed
qed simp

lemma covers_merged: "covers (merged ivs) x \<longleftrightarrow> covers ivs x"
  by (simp add: merged_def covers_merge_loop covers_set [of "sort ivs" ivs])

lemma separated_merged: "proper ivs \<Longrightarrow> separated (merged ivs)"
  by (simp add: merged_def separated_merge_loop proper_set [of "sort ivs" ivs] separated_def
      [of "[]"])

section \<open>bisect_right and overlaps\<close>

text \<open>CPython's loop, \<open>lo\<close> and \<open>hi\<close> as there.\<close>

function bisect_loop :: "('b \<Rightarrow> 'a::linorder) \<Rightarrow> 'b list \<Rightarrow> 'a \<Rightarrow> nat \<Rightarrow> nat \<Rightarrow> nat" where
  "bisect_loop key a x lo hi =
     (if lo < hi then
        let mid = (lo + hi) div 2 in
          if x < key (a ! mid) then bisect_loop key a x lo mid
          else bisect_loop key a x (mid + 1) hi
      else lo)"
  by pat_completeness auto
termination
  by (relation "measure (\<lambda>(key, a, x, lo, hi). hi - lo)") auto

declare bisect_loop.simps [simp del]

definition bisect_right :: "('b \<Rightarrow> 'a::linorder) \<Rightarrow> 'b list \<Rightarrow> 'a \<Rightarrow> nat" where
  "bisect_right key a x = bisect_loop key a x 0 (length a)"

definition overlaps :: "('a::linorder) interval list \<Rightarrow> 'a \<Rightarrow> 'a \<Rightarrow> bool" where
  "overlaps blocks start end =
     (let i = bisect_right snd blocks start
      in i < length blocks \<and> fst (blocks ! i) < end)"

lemma bisect_loop_spec:
  "sorted (map key a) \<Longrightarrow> hi \<le> length a \<Longrightarrow> lo \<le> hi \<Longrightarrow>
   (\<forall>i < lo. key (a ! i) \<le> x) \<Longrightarrow> (\<forall>i. hi \<le> i \<and> i < length a \<longrightarrow> x < key (a ! i)) \<Longrightarrow>
   bisect_loop key a x lo hi \<le> length a \<and>
   (\<forall>i < bisect_loop key a x lo hi. key (a ! i) \<le> x) \<and>
   (\<forall>i. bisect_loop key a x lo hi \<le> i \<and> i < length a \<longrightarrow> x < key (a ! i))"
proof (induction key a x lo hi rule: bisect_loop.induct)
  case (1 key a x lo hi)
  let ?mid = "(lo + hi) div 2"
  show ?case
  proof (cases "lo < hi")
    case True
    then have mid: "lo \<le> ?mid" "?mid < hi" "?mid < length a"
      using "1.prems"(2) by auto
    have le: "key (a ! i) \<le> key (a ! j)" if "i \<le> j" "j < length a" for i j
      using sorted_nth_mono [OF "1.prems"(1), of i j] that by simp
    show ?thesis
    proof (cases "x < key (a ! ?mid)")
      case less: True
      then have eq: "bisect_loop key a x lo hi = bisect_loop key a x lo ?mid"
        using True by (subst bisect_loop.simps) simp
      have "\<forall>i. ?mid \<le> i \<and> i < length a \<longrightarrow> x < key (a ! i)"
        using le less by (meson less_le_trans)
      then show ?thesis
        unfolding eq using "1.prems" mid by (intro "1.IH"(1) [OF True refl less]) auto
    next
      case ge: False
      then have eq: "bisect_loop key a x lo hi = bisect_loop key a x (?mid + 1) hi"
        using True by (subst bisect_loop.simps) simp
      have "key (a ! i) \<le> x" if "i < ?mid + 1" for i
        by (rule order_trans [OF le leI [OF ge]]) (use that mid(3) in auto)
      then have "\<forall>i < ?mid + 1. key (a ! i) \<le> x"
        by blast
      then show ?thesis
        unfolding eq using "1.prems" mid by (intro "1.IH"(2) [OF True refl ge]) auto
    qed
  next
    case False
    then have "bisect_loop key a x lo hi = lo"
      by (subst bisect_loop.simps) simp
    then show ?thesis
      using "1.prems" False by auto
  qed
qed

lemma bisect_right_spec:
  assumes "sorted (map key a)"
  shows "bisect_right key a x \<le> length a"
    and "\<And>i. i < bisect_right key a x \<Longrightarrow> key (a ! i) \<le> x"
    and "\<And>i. bisect_right key a x \<le> i \<Longrightarrow> i < length a \<Longrightarrow> x < key (a ! i)"
proof -
  let ?r = "bisect_right key a x"
  have "?r \<le> length a \<and> (\<forall>i < ?r. key (a ! i) \<le> x) \<and> (\<forall>i. ?r \<le> i \<and> i < length a \<longrightarrow> x < key (a ! i))"
    unfolding bisect_right_def by (rule bisect_loop_spec) (use assms in auto)
  then show "?r \<le> length a" "\<And>i. i < ?r \<Longrightarrow> key (a ! i) \<le> x"
    "\<And>i. ?r \<le> i \<Longrightarrow> i < length a \<Longrightarrow> x < key (a ! i)"
    by auto
qed

lemma in_order_nth:
  assumes "in_order bs" "i < j" "j < length bs"
  shows "fst (bs ! i) < fst (bs ! j)" and "snd (bs ! i) < snd (bs ! j)"
proof -
  have "snd (bs ! i) \<le> fst (bs ! j)"
    using assms sorted_wrt_nth_less [of "\<lambda>a b. snd a \<le> fst b" bs i j] by (simp add: in_order_def)
  moreover have "fst (bs ! i) < snd (bs ! i)" "fst (bs ! j) < snd (bs ! j)"
    using assms properD [of bs "bs ! i"] properD [of bs "bs ! j"] by (simp_all add: in_order_def)
  ultimately show "fst (bs ! i) < fst (bs ! j)" "snd (bs ! i) < snd (bs ! j)"
    by auto
qed

lemma in_order_sorted_ends: "in_order bs \<Longrightarrow> sorted (map snd bs)"
  by (auto simp: sorted_iff_nth_mono_less less_imp_le dest: in_order_nth(2))

lemma overlaps_in_order:
  assumes bs: "in_order bs"
  shows "overlaps bs s e \<longleftrightarrow> (\<exists>b \<in> set bs. fst b < e \<and> s < snd b)"
proof -
  let ?i = "bisect_right snd bs s"
  note spec = bisect_right_spec [OF in_order_sorted_ends [OF bs], where x = s]
  show ?thesis
  proof
    assume "overlaps bs s e"
    then show "\<exists>b \<in> set bs. fst b < e \<and> s < snd b"
      using spec(3) [of ?i] by (auto simp: overlaps_def Let_def)
  next
    assume "\<exists>b \<in> set bs. fst b < e \<and> s < snd b"
    then obtain j where j: "j < length bs" "fst (bs ! j) < e" "s < snd (bs ! j)"
      by (auto simp: in_set_conv_nth)
    then have "?i \<le> j"
      using spec(2) [of j] by (meson leD leI)
    then have "fst (bs ! ?i) \<le> fst (bs ! j)"
      using in_order_nth(1) [OF bs, of ?i j] j(1) by (cases "?i = j") auto
    then show "overlaps bs s e"
      using j \<open>?i \<le> j\<close> by (simp add: overlaps_def Let_def)
  qed
qed

text \<open>An interval meets a block exactly when it shares a moment with it.\<close>

lemma meets_covers:
  assumes "proper ivs"
  shows "(\<exists>b \<in> set ivs. fst b < e \<and> s < snd b) \<and> s < e \<longleftrightarrow>
         (\<exists>x. s \<le> x \<and> x < e \<and> covers ivs x)"
proof
  assume "(\<exists>b \<in> set ivs. fst b < e \<and> s < snd b) \<and> s < e"
  then obtain a b where ab: "(a, b) \<in> set ivs" "a < e" "s < b" and se: "s < e" by auto
  have "a < b" using properD [OF assms ab(1)] by simp
  then have "covers ivs (max a s)"
    using ab by (auto simp: covers_def max_def)
  then show "\<exists>x. s \<le> x \<and> x < e \<and> covers ivs x"
    using ab se by (intro exI [of _ "max a s"]) simp
next
  assume "\<exists>x. s \<le> x \<and> x < e \<and> covers ivs x"
  then show "(\<exists>b \<in> set ivs. fst b < e \<and> s < snd b) \<and> s < e"
    by (force simp: covers_def)
qed

lemma overlaps_merged:
  assumes "proper ivs" "s < e"
  shows "overlaps (merged ivs) s e \<longleftrightarrow> (\<exists>b \<in> set ivs. fst b < e \<and> s < snd b)"
proof -
  have m: "separated (merged ivs)"
    using assms(1) by (rule separated_merged)
  then have "overlaps (merged ivs) s e \<longleftrightarrow> (\<exists>x. s \<le> x \<and> x < e \<and> covers (merged ivs) x)"
    using meets_covers [of "merged ivs" e s] assms(2)
    by (simp add: overlaps_in_order separated_in_order) (simp add: separated_def)
  also have "\<dots> \<longleftrightarrow> (\<exists>b \<in> set ivs. fst b < e \<and> s < snd b)"
    using meets_covers [OF assms(1), of e s] assms(2) by (simp add: covers_merged)
  finally show ?thesis .
qed

section \<open>clip and within\<close>

definition clip ::
  "('a::linorder) interval list \<Rightarrow> 'a interval list \<Rightarrow> 'a interval list" where
  "clip shifts envelope =
     [(max start opens, min end closes).
        (start, end) \<leftarrow> shifts, (opens, closes) \<leftarrow> envelope, max start opens < min end closes]"

definition within :: "('a::linorder) interval \<Rightarrow> 'a interval list \<Rightarrow> bool" where
  "within shift envelope = list_ex (\<lambda>(opens, closes). opens \<le> fst shift \<and> snd shift \<le> closes) envelope"

lemma in_clip:
  "(a, b) \<in> set (clip ss es) \<longleftrightarrow>
   (\<exists>(s, e) \<in> set ss. \<exists>(opens, closes) \<in> set es. a = max s opens \<and> b = min e closes \<and> a < b)"
  by (auto simp: clip_def split: if_splits) force+

lemma covers_clip: "covers (clip ss es) x \<longleftrightarrow> covers ss x \<and> covers es x"
proof
  assume "covers (clip ss es) x"
  then show "covers ss x \<and> covers es x"
    by (fastforce simp: covers_def in_clip split: prod.splits)
next
  assume "covers ss x \<and> covers es x"
  then obtain s e opens closes where
    "(s, e) \<in> set ss" "(opens, closes) \<in> set es" "s \<le> x" "x < e" "opens \<le> x" "x < closes"
    by (auto simp: covers_def)
  moreover from this have "max s opens < min e closes" "max s opens \<le> x" "x < min e closes"
    by auto
  ultimately show "covers (clip ss es) x"
    unfolding covers_def in_clip by (intro bexI [of _ "(max s opens, min e closes)"]) (auto simp: in_clip)
qed

lemma separated_clip:
  assumes ss: "separated ss" and es: "separated es"
  shows "separated (clip ss es)"
proof -
  let ?cut = "\<lambda>(s, e) (opens, closes).
    if max s opens < min e closes then [(max s opens, min e closes)] else []"
  have clip: "clip ss es = concat (map (\<lambda>sh. concat (map (?cut sh) es)) ss)"
    by (simp add: clip_def case_prod_unfold)
  have "sorted_wrt (\<lambda>a b. snd a < fst b) (concat (map (?cut sh) es))" for sh
    using es by (intro sorted_wrt_concat_map [where Q = "\<lambda>a b. snd a < fst b"])
      (auto simp: separated_def less_max_iff_disj min_less_iff_disj split: prod.splits if_splits)
  note inner = this
  have "sorted_wrt (\<lambda>a b. snd a < fst b) (clip ss es)"
    unfolding clip
  proof (rule sorted_wrt_concat_map [OF _ inner])
    show "sorted_wrt (\<lambda>a b. snd a < fst b) ss"
      using ss by (simp add: separated_def)
  qed (auto simp: less_max_iff_disj min_less_iff_disj split: prod.splits if_splits)
  moreover have "proper (clip ss es)"
    by (auto simp: proper_def in_clip)
  ultimately show ?thesis
    by (simp add: separated_def)
qed

text \<open>A proper interval inside separated ones is inside one of them.\<close>

lemma withinE:
  assumes "within (s, e) env"
  obtains opens closes where "(opens, closes) \<in> set env" "opens \<le> s" "e \<le> closes"
  using assms by (auto simp: within_def list_ex_iff)

lemma within_covers:
  assumes "within (s, e) env" "s \<le> x" "x < e"
  shows "covers env x"
proof -
  obtain opens closes where env: "(opens, closes) \<in> set env" "opens \<le> s" "e \<le> closes"
    using assms(1) by (rule withinE)
  then have "opens \<le> x" "x < closes"
    using assms(2,3) by auto
  with env(1) show ?thesis
    by (auto simp: covers_def)
qed

section \<open>Joining touching intervals\<close>

text \<open>The loop of \<open>day_shifts\<close>; \<open>joined\<close> is kept reversed.\<close>

fun join_loop :: "('a::linorder) interval list \<Rightarrow> 'a interval list \<Rightarrow> 'a interval list" where
  "join_loop joined [] = rev joined"
| "join_loop [] ((s, e) # r) = join_loop [(s, e)] r"
| "join_loop ((s0, e0) # joined) ((s, e) # r) =
     (if s = e0 then join_loop ((s0, e) # joined) r
      else join_loop ((s, e) # (s0, e0) # joined) r)"

definition ended_by :: "('a::linorder) interval list \<Rightarrow> 'a interval list \<Rightarrow> bool" where
  "ended_by out ivs \<longleftrightarrow> (\<forall>a \<in> set out. \<forall>b \<in> set ivs. snd a \<le> fst b)"

lemma ended_by_simps [simp]:
  "ended_by [] r" "ended_by out []"
  "ended_by ((s, e) # out) r \<longleftrightarrow> (\<forall>b \<in> set r. e \<le> fst b) \<and> ended_by out r"
  "ended_by out ((s, e) # r) \<longleftrightarrow> (\<forall>a \<in> set out. snd a \<le> s) \<and> ended_by out r"
  by (auto simp: ended_by_def)

lemma in_order_Cons [simp]:
  "in_order ((s, e) # r) \<longleftrightarrow> s < e \<and> in_order r \<and> (\<forall>b \<in> set r. e \<le> fst b)"
  by (auto simp: in_order_def)

lemma join_loop_spec:
  "in_order ivs \<Longrightarrow> ended_by out ivs \<Longrightarrow> separated (rev out) \<Longrightarrow>
   separated (join_loop out ivs) \<and>
   (\<forall>x. covers (join_loop out ivs) x \<longleftrightarrow> covers (rev out) x \<or> covers ivs x)"
proof (induction out ivs rule: join_loop.induct)
  case (2 s e r)
  then show ?case by (auto simp: separated_def)
next
  case (3 s0 e0 out s e r)
  have out: "separated (rev out)" "s0 < e0" "\<forall>a \<in> set out. snd a < s0"
    using "3.prems"(3) by (simp_all add: separated_rev_Cons del: rev.simps)
  have le: "e0 \<le> s" "s < e" using "3.prems" by auto
  show ?case
  proof (cases "s = e0")
    case True
    have "separated (rev ((s0, e) # out))"
      using out le by (auto simp add: separated_rev_Cons simp del: rev.simps)
    moreover have "ended_by ((s0, e) # out) r"
      using "3.prems" by simp
    ultimately have IH: "separated (join_loop ((s0, e) # out) r)"
      "\<And>x. covers (join_loop ((s0, e) # out) r) x \<longleftrightarrow> covers (rev ((s0, e) # out)) x \<or> covers r x"
      using "3.IH"(1) [OF True] "3.prems"(1) by auto
    have "covers (rev ((s0, e) # out)) x \<longleftrightarrow> covers (rev ((s0, e0) # out)) x \<or> s \<le> x \<and> x < e" for x
      using True out(2) le by auto
    then show ?thesis
      using IH True by auto
  next
    case False
    have "snd a < s" if "a \<in> set out" for a
      using that out(2,3) le by (meson less_trans order_less_le_trans)
    then have "separated (rev ((s, e) # (s0, e0) # out))"
      using out le False by (auto simp add: separated_rev_Cons simp del: rev.simps)
    then show ?thesis
      using "3.IH"(2) [OF False] "3.prems" False by auto
  qed
qed simp

section \<open>The interface availability asks\<close>

text \<open>
  An index of blocks answers, for \<open>[s, e)\<close>, whether any block meets it. The availability engine
  builds two of them per worker and uses nothing else about them.
\<close>

locale block_index =
  fixes build :: "('a::linorder) interval list \<Rightarrow> 'i"
    and hits :: "'i \<Rightarrow> 'a \<Rightarrow> 'a \<Rightarrow> bool"
  assumes hits_build:
    "proper ivs \<Longrightarrow> s < e \<Longrightarrow> hits (build ivs) s e \<longleftrightarrow> (\<exists>b \<in> set ivs. fst b < e \<and> s < snd b)"
begin

lemma free_iff:
  "proper ivs \<Longrightarrow> s < e \<Longrightarrow> \<not> hits (build ivs) s e \<longleftrightarrow> (\<forall>b \<in> set ivs. \<not> meets b (s, e))"
  by (auto simp: hits_build meets_def)

lemma hits_append:
  "proper (as @ bs) \<Longrightarrow> s < e \<Longrightarrow>
   hits (build (as @ bs)) s e \<longleftrightarrow> hits (build as) s e \<or> hits (build bs) s e"
  by (auto simp: hits_build)

lemma hits_mono:
  "proper bs \<Longrightarrow> set as \<subseteq> set bs \<Longrightarrow> s < e \<Longrightarrow> hits (build as) s e \<Longrightarrow> hits (build bs) s e"
  by (subst (asm) hits_build) (auto simp: hits_build proper_def subset_iff)

end

interpretation merged_index: block_index merged overlaps
  by unfold_locales (rule overlaps_merged)

section \<open>The binary search against its specification\<close>

text \<open>
  The binary search over merged blocks answers, for any blocks in any order, whether one
  of them meets the interval.
\<close>

lemma overlaps_finds_every_block:
  assumes "proper ivs" and "s < e"
  shows "overlaps (merged ivs) s e = list_ex (\<lambda>b. fst b < e \<and> s < snd b) ivs"
  using overlaps_merged [OF assms] by (simp add: list_ex_iff)

end
