(* ===== verification/Tables.thy ===== *)
theory Tables
  imports Clock Intervals
begin

text \<open>
  The database as one business's requests see it. Row-level security (\<open>backend/app/db.py\<close>,
  \<open>tenant_context\<close>) shows a transaction the rows of one business only, so a state holds one
  business's rows; \<open>jobs\<close> and \<open>rate_limits\<close> are global and are held as far as that business's keys
  go. \<open>now\<close> is the transaction's clock. A handler takes the state and returns an error or the new
  state with its answer: an error rolls the transaction back, so the state it started from stands.
\<close>

section \<open>Rows\<close>

text \<open>A shift: ISO weekday, start and end (\<open>schedule.Row\<close>).\<close>

type_synonym row = "nat \<times> time \<times> time"

datatype role = Owner | Worker | Removed

record membership =
  m_id :: uuid
  m_user :: uuid
  m_role :: role
  m_display_name :: "string option"
  m_removed_at :: "instant option"

record service =
  s_id :: uuid
  s_name :: string
  s_price_minor :: int
  s_currency :: string
  s_duration_minutes :: int
  s_buffer_minutes :: "int option"
  s_archived_at :: "instant option"

text \<open>Time off is one of two kinds (\<open>ck_time_off_kind\<close>): two instants, or whole local days.\<close>

datatype block = Instants instant instant | Days day day
datatype block_source = Manual | Google

record time_off =
  t_id :: uuid
  t_member :: uuid
  t_block :: block
  t_reason :: "string option"
  t_source :: block_source

datatype source = Booking_page | Merchant | Marketplace | Import

record client =
  c_id :: uuid
  c_name :: string
  c_email :: "string option"
  c_phone :: "string option"
  c_locale :: "string option"
  c_user :: "uuid option"
  c_client_note :: "string option"
  c_internal_note :: "string option"
  c_erased_at :: "instant option"

text \<open>\<open>consents\<close>, the append-only log of marketing consent.\<close>

datatype purpose = Marketing_email | Sms | Whatsapp

record consent =
  n_id :: uuid
  n_client :: uuid
  n_purpose :: purpose
  n_granted :: bool
  n_text_shown :: string
  n_policy_version :: string
  n_source :: source

text \<open>The nine values of \<open>ck_bookings_status\<close>.\<close>

datatype status = Awaiting_payment | Pending | Confirmed | Completed | Declined | Expired
  | Cancelled_by_merchant | Cancelled_by_client | No_show

record booking =
  b_id :: uuid
  b_client :: uuid
  b_worker :: uuid
  b_service :: uuid
  b_starts_at :: instant
  b_ends_at :: instant
  b_status :: status
  b_expires_at :: "instant option"
  b_source :: source
  b_service_name :: string
  b_price_minor :: int
  b_price_currency :: string
  b_duration_minutes :: int
  b_policy_text :: "string option"
  b_auto_confirm :: bool
  b_worker_name :: "string option"
  b_free_hours :: int
  b_cutoff_hours :: int
  b_original_starts_at :: "instant option"
  b_earliest_starts_at :: "instant option"
  b_max_reschedules :: int
  b_reschedule_count :: int
  b_client_name :: "string option"
  b_client_phone :: "string option"
  b_client_message :: "string option"
  b_decline_message :: "string option"
  b_checkout :: bool
  b_booked_as :: "uuid option"

text \<open>
  \<open>booking_events\<close>: the event is a booking's new status or one of a fixed set of names; \<open>details\<close> are
  the JSON objects the writers build, \<open>args\<close> the columns \<open>INSERT_EVENT\<close> takes besides.
\<close>

datatype event_kind = Created | Became status | Rescheduled | Consent_confirmed
  | Payment_checked | Payment_paid | Refunded | Refund_failed

datatype erasure_reason = Client_erased | Account_erased | Erasure_reapplied

datatype details = Moved instant instant | Refund_pct int | Amount int string
  | Failed_refund int "string option" | Erasure erasure_reason "instant option"

record event_args =
  ea_ip :: "ip option"
  ea_user_agent :: "string option"
  ea_policy_version :: "string option"
  ea_consents :: "(purpose \<times> bool) list option"
  ea_actor :: "uuid option"
  ea_details :: "details option"

definition no_args :: event_args where
  "no_args = \<lparr>ea_ip = None, ea_user_agent = None, ea_policy_version = None, ea_consents = None,
     ea_actor = None, ea_details = None\<rparr>"

record event =
  e_id :: uuid
  e_booking :: uuid
  e_kind :: event_kind
  e_args :: event_args

text \<open>
  \<open>audit_events\<close>: the target is written \<open>user:<id>\<close>, \<open>booking:<id>\<close>, \<open>client:<id>\<close> or
  \<open>payment_account:<id>\<close>.
\<close>

datatype audit_target = User uuid | Booking uuid | Client uuid | Payment_account string

record audit_entry =
  a_action :: string
  a_actor :: uuid
  a_target :: "audit_target option"

section \<open>Settings\<close>

text \<open>
  \<open>BusinessSettings\<close> (\<open>backend/app/business_settings.py\<close>), the keys the modelled code reads. The
  saved timezone name is the zone it denotes. \<open>settings_ok\<close> is what pydantic enforces.
\<close>

record settings =
  timezone :: zone
  auto_confirm :: bool
  workers_edit_own_hours :: bool
  workers_answer_requests :: bool
  buffer_pct :: int
  slot_step_minutes :: int
  min_notice_minutes :: int
  booking_horizon_days :: int
  max_pending_per_email :: int
  pending_ttl_hours :: int
  cancellation_policy_text :: string
  free_cancellation_hours :: int
  reschedule_cutoff_hours :: int
  max_reschedules :: int
  published :: bool
  payment_check :: bool

definition settings_ok :: "settings \<Rightarrow> bool" where
  "settings_ok g \<longleftrightarrow>
     0 \<le> buffer_pct g \<and> buffer_pct g \<le> 100 \<and>
     slot_step_minutes g \<in> {5, 10, 15, 20, 30, 60} \<and>
     0 \<le> min_notice_minutes g \<and> min_notice_minutes g \<le> 10080 \<and>
     1 \<le> booking_horizon_days g \<and> booking_horizon_days g \<le> 365 \<and>
     1 \<le> max_pending_per_email g \<and> max_pending_per_email g \<le> 50 \<and>
     1 \<le> pending_ttl_hours g \<and> pending_ttl_hours g \<le> 168 \<and>
     length (cancellation_policy_text g) \<le> 2000 \<and>
     0 \<le> free_cancellation_hours g \<and> free_cancellation_hours g \<le> 720 \<and>
     0 \<le> reschedule_cutoff_hours g \<and> reschedule_cutoff_hours g \<le> 720 \<and>
     0 \<le> max_reschedules g \<and> max_reschedules g \<le> 10"

section \<open>Jobs\<close>

text \<open>
  A job's kind and dedupe key. The code writes the key as text with colons between its parts, none
  of which holds one; here the parts are kept apart.
\<close>

datatype job_kind = Email_booking | Email_booking_flood | Payment_settle | Stripe_event

datatype suffix = No_suffix | Reschedule_no int | Move_no int | Moved_at instant | Of_event uuid

text \<open>Why a settle job was queued: the rest of its key after the booking.\<close>

datatype settle_reason = Placed | Late_payment uuid | Check_landed | Hourly status int | Erased_client

datatype dedupe_key =
    Email_key uuid string suffix "uuid option"
  | Reminder_key uuid instant
  | Flood_key instant uuid
  | Settle_key uuid settle_reason
  | Stripe_key string

text \<open>What a job's payload says besides the ids its key holds.\<close>

datatype extra = Starts_at instant | Previous_starts_at instant | Member_changed | Late
  | Failed_event uuid | Event_type string | Object_id "string option"

record job =
  j_id :: uuid
  j_kind :: job_kind
  j_key :: dedupe_key
  j_payload :: "extra list"
  j_due_at :: instant
  j_next_attempt_at :: instant
  j_attempts :: nat
  j_completed_at :: "instant option"
  j_skipped :: bool
  j_error :: bool

section \<open>Payments\<close>

datatype payment_kind = Check | Pay
datatype payment_status = Open | Checked | Paid | Canceled
datatype fee_mode = Business_pays | Business_pays_plus_fee | Platform_pays

text \<open>\<open>payment_accounts\<close> (migrations 0043 and 0062): one row per business.\<close>

record pay_account =
  pa_account :: string
  pa_enabled :: bool
  pa_fee_mode :: fee_mode
  pa_fee_bp :: int
  pa_fee_fixed :: int
  pa_currency :: string

record payment =
  p_id :: uuid
  p_booking :: uuid
  p_kind :: payment_kind
  p_intent :: string
  p_amount_minor :: int
  p_currency :: string
  p_status :: payment_status
  p_fee_mode :: fee_mode
  p_application_fee :: int
  p_stripe_fee :: "int option"
  p_refunded_minor :: int
  p_refund_id :: "string option"
  p_refund_failed_at :: "instant option"
  p_settled_at :: "instant option"

section \<open>The state\<close>

datatype limit_key = Mail_tenant uuid | Mail_tenant_public uuid

record db =
  tenant :: uuid
  now :: instant
  next_id :: uuid
  memberships :: "membership list"
  service_workers :: "(uuid \<times> uuid) list"
  working_hours :: "(uuid \<times> row) list"
  opening_hours :: "row list"
  time_offs :: "time_off list"
  booking_holds :: "(uuid \<times> instant) list"
  services :: "service list"
  settings_of :: settings
  clients :: "client list"
  consents :: "consent list"
  tenant_country :: string
  tenant_currency :: string
  payment_account :: "pay_account option"
  links :: "(string \<times> uuid) list"
  bookings :: "booking list"
  events :: "event list"
  payments :: "payment list"
  jobs :: "job list"
  limits :: "limit_key \<rightharpoonup> (instant \<times> int)"
  audit :: "audit_entry list"
  sessions :: "uuid list"

text \<open>
  \<open>links\<close> (\<open>booking_links\<close>) keeps a token's hash and its booking per row,
  \<open>booking_holds\<close> (a table no longer written) keeps a worker and a creation time per row.
  The signed-in member a request acts for (\<open>auth.SignedIn\<close>): the user, and the role their session
  carries.
\<close>

record signed_in =
  user_id :: uuid
  role_of :: role

text \<open>\<open>auth.record\<close>: one row of the audit log.\<close>

definition record_audit :: "db \<Rightarrow> string \<Rightarrow> uuid \<Rightarrow> audit_target option \<Rightarrow> db" where
  "record_audit d action actor target =
     d\<lparr>audit := audit d @ [\<lparr>a_action = action, a_actor = actor, a_target = target\<rparr>]\<rparr>"

text \<open>\<open>expires_at > now()\<close>; a comparison with NULL is not true.\<close>

definition unexpired :: "db \<Rightarrow> booking \<Rightarrow> bool" where
  "unexpired d b = (case b_expires_at b of None \<Rightarrow> False | Some x \<Rightarrow> now d < x)"

definition lapsed :: "db \<Rightarrow> booking \<Rightarrow> bool" where
  "lapsed d b = (case b_expires_at b of None \<Rightarrow> False | Some x \<Rightarrow> x \<le> now d)"

text \<open>\<open>INSERT\<close> of one event, under the next id (\<open>uuidv7()\<close> is ordered in time).\<close>

definition insert_event :: "db \<Rightarrow> uuid \<Rightarrow> event_kind \<Rightarrow> event_args \<Rightarrow> db" where
  "insert_event d b k args =
     d\<lparr>events := events d @ [\<lparr>e_id = next_id d, e_booking = b, e_kind = k, e_args = args\<rparr>],
       next_id := Suc (next_id d)\<rparr>"

lemma insert_event_fields [simp]:
  "bookings (insert_event d b k args) = bookings d"
  "now (insert_event d b k args) = now d"
  "clients (insert_event d b k args) = clients d"
  "memberships (insert_event d b k args) = memberships d"
  "settings_of (insert_event d b k args) = settings_of d"
  "services (insert_event d b k args) = services d"
  "payments (insert_event d b k args) = payments d"
  "jobs (insert_event d b k args) = jobs d"
  "audit (insert_event d b k args) = audit d"
  "time_offs (insert_event d b k args) = time_offs d"
  "limits (insert_event d b k args) = limits d"
  "working_hours (insert_event d b k args) = working_hours d"
  "opening_hours (insert_event d b k args) = opening_hours d"
  "service_workers (insert_event d b k args) = service_workers d"
  "links (insert_event d b k args) = links d" "consents (insert_event d b k args) = consents d"
  "events (insert_event d b k args) =
     events d @ [\<lparr>e_id = next_id d, e_booking = b, e_kind = k, e_args = args\<rparr>]"
  "next_id (insert_event d b k args) = Suc (next_id d)"
  by (simp_all add: insert_event_def)

end
