(* ===== verification/Gateway.thy ===== *)
theory Gateway
  imports Tables
begin

text \<open>
  \<open>backend/app/stripe_gateway.py\<close> as its callers see it: what each call answers, and the failures it
  turns Stripe's errors into. Stripe itself is a parameter, a record of functions over a state of its
  own, so nothing is known of its answers but what a theorem assumes. A handler that calls Stripe
  runs over a pair of Stripe's state and the database; its transactions commit one by one, so an
  error leaves what was committed before it.
\<close>

section \<open>Answers\<close>

datatype failure = Card | Invalid | Unavailable

datatype intent_type = Payment_intent | Setup_intent

record intent =
  in_id :: string
  in_client_secret :: string
  in_type :: intent_type

record intent_state =
  is_id :: string
  is_type :: intent_type
  is_status :: string
  is_amount :: "int option"
  is_currency :: "string option"
  is_amount_refunded :: int
  is_failed :: bool
  is_client_secret :: string
  is_stripe_fee :: "int option"
  is_charged_at :: "instant option"

record refund_state =
  rf_id :: string
  rf_status :: string
  rf_payment_intent :: "string option"
  rf_amount :: int

record stripe_account =
  sa_id :: string
  sa_charges_enabled :: bool

record stripe_event =
  sv_id :: string
  sv_type :: string
  sv_account :: "string option"
  sv_object_id :: "string option"

text \<open>
  The idempotency keys the code makes: \<open>pi:<booking>:<n>:<kind>\<close>, \<open>refund:<payment>\<close> and
  \<open>account:<business>:<currency>\<close>.
\<close>

datatype idempotency_key = Intent_key uuid nat payment_kind | Refund_key uuid | Account_key uuid string

type_synonym ('s, 'a) call = "'s \<Rightarrow> 's \<times> (failure + 'a)"

record 's gateway =
  create_account :: "idempotency_key \<Rightarrow> string \<Rightarrow> string \<Rightarrow> bool \<Rightarrow> ('s, stripe_account) call"
  retrieve_account :: "string \<Rightarrow> ('s, stripe_account) call"
  onboarding_link :: "string \<Rightarrow> string \<Rightarrow> ('s, string) call"
  login_link :: "string \<Rightarrow> ('s, string) call"
  register_domain :: "string \<Rightarrow> string \<Rightarrow> ('s, unit) call"
  create_check :: "string \<Rightarrow> uuid \<Rightarrow> int \<Rightarrow> string \<Rightarrow> idempotency_key \<Rightarrow> ('s, intent) call"
  create_payment :: "string \<Rightarrow> uuid \<Rightarrow> int \<Rightarrow> string \<Rightarrow> int \<Rightarrow> idempotency_key \<Rightarrow> ('s, intent) call"
  refund_intent :: "string \<Rightarrow> string \<Rightarrow> int \<Rightarrow> bool option \<Rightarrow> idempotency_key \<Rightarrow> ('s, string) call"
  retrieve_refund :: "string \<Rightarrow> string \<Rightarrow> ('s, refund_state) call"
  retrieve_intent :: "string \<Rightarrow> string \<Rightarrow> ('s, intent_state) call"
  cancel_intent :: "string \<Rightarrow> string \<Rightarrow> ('s, string) call"

section \<open>Programs over Stripe and the database\<close>

text \<open>
  A handler is a tree of its transactions and its calls, in the order it makes them: each goes on as
  what it read or was answered says. Between two of them other requests commit and Stripe moves on.
\<close>

type_synonym 's world = "'s \<times> db"

datatype ('s, 'a) program =
    Return "'a result"
  | Transaction "db \<Rightarrow> db" "db \<Rightarrow> ('s, 'a) program"
  | Call "'s \<Rightarrow> 's" "'s \<Rightarrow> ('s, 'a) program"

text \<open>A run that nothing interrupts.\<close>

primrec perform :: "('s, 'a) program \<Rightarrow> 's world \<Rightarrow> 's world \<times> 'a result" where
  "perform (Return r) = (\<lambda>w. (w, r))"
| "perform (Transaction f k) = (\<lambda>w. perform (k (snd w)) (fst w, f (snd w)))"
| "perform (Call c k) = (\<lambda>w. perform (k (fst w)) (c (fst w), snd w))"

text \<open>Python's \<open>try\<close>: what a program ends with, an error included, is gone on from.\<close>

primrec attempt :: "('s, 'a) program \<Rightarrow> ('a result \<Rightarrow> ('s, 'b) program) \<Rightarrow> ('s, 'b) program" where
  "attempt (Return r) q = q r"
| "attempt (Transaction f k) q = Transaction f (\<lambda>d. attempt (k d) q)"
| "attempt (Call c k) q = Call c (\<lambda>s. attempt (k s) q)"

definition FAILED :: api_error where "FAILED = Uncaught ''stripe_gateway.Failed''"
definition RuntimeError :: api_error where "RuntimeError = Uncaught ''RuntimeError''"

text \<open>One transaction: an error rolls it back. \<open>read_db\<close> is one that only reads.\<close>

definition transaction :: "(db \<Rightarrow> (db \<times> 'a) result) \<Rightarrow> ('s, 'a) program" where
  "transaction f = Transaction (\<lambda>d. case f d of Inl _ \<Rightarrow> d | Inr (d', _) \<Rightarrow> d')
     (\<lambda>d. Return (map_sum id snd (f d)))"

definition give :: "'a \<Rightarrow> ('s, 'a) program" where "give a = Return (Inr a)"
definition fail :: "api_error \<Rightarrow> ('s, 'a) program" where "fail e = Return (Inl e)"

definition and_then :: "('s, 'a) program \<Rightarrow> ('a \<Rightarrow> ('s, 'b) program) \<Rightarrow> ('s, 'b) program" where
  "and_then p q = attempt p (\<lambda>r. case r of Inl e \<Rightarrow> fail e | Inr a \<Rightarrow> q a)"

definition read_db :: "(db \<Rightarrow> ('s, 'a) program) \<Rightarrow> ('s, 'a) program" where
  "read_db q = Transaction id q"

text \<open>A call to Stripe, its failure handled by \<open>k\<close>; and one whose failure is raised.\<close>

definition asking :: "('s, 'a) call \<Rightarrow> (failure + 'a \<Rightarrow> ('s, 'b) program) \<Rightarrow> ('s, 'b) program" where
  "asking call k = Call (\<lambda>s. fst (call s)) (\<lambda>s. k (snd (call s)))"

definition ask :: "('s, 'a) call \<Rightarrow> ('a \<Rightarrow> ('s, 'b) program) \<Rightarrow> ('s, 'b) program" where
  "ask call k = asking call (\<lambda>r. case r of Inl _ \<Rightarrow> fail FAILED | Inr a \<Rightarrow> k a)"

text \<open>\<open>except Failed: raise _unavailable()\<close> around a block.\<close>

definition or_unavailable :: "('s, 'a) program \<Rightarrow> ('s, 'a) program" where
  "or_unavailable p = attempt p (\<lambda>r. case r of
     Inl e \<Rightarrow> fail (if e = FAILED then ApiError 503 ''payments_unavailable'' else e)
   | Inr a \<Rightarrow> give a)"

text \<open>\<open>try: ... except Exception\<close>: what a block raises is dropped.\<close>

definition best_effort :: "('s, unit) program \<Rightarrow> ('s, unit) program" where
  "best_effort p = attempt p (\<lambda>_. give ())"

section \<open>Runs\<close>

lemma perform_attempt: "perform (attempt p q) w = (case perform p w of (w', r) \<Rightarrow> perform (q r) w')"
  by (induction p arbitrary: w) simp_all

lemma perform_give [simp]: "perform (give a) w = (w, Inr a)"
  by (simp add: give_def)

lemma perform_fail [simp]: "perform (fail e) w = (w, Inl e)"
  by (simp add: fail_def)

lemma perform_then:
  "perform (and_then p q) w = (case perform p w of (w', Inl e) \<Rightarrow> (w', Inl e) | (w', Inr a) \<Rightarrow> perform (q a) w')"
  by (simp add: and_then_def perform_attempt split: prod.split sum.split)

lemma perform_read [simp]: "perform (read_db q) w = perform (q (snd w)) w"
  by (simp add: read_db_def)

lemma perform_asking: "perform (asking call k) w = (case call (fst w) of (s, r) \<Rightarrow> perform (k r) (s, snd w))"
  by (simp add: asking_def split: prod.split)

lemma perform_ask:
  "perform (ask call k) w = (case call (fst w) of
     (s, Inl _) \<Rightarrow> ((s, snd w), Inl FAILED) | (s, Inr a) \<Rightarrow> perform (k a) (s, snd w))"
  by (simp add: ask_def perform_asking split: prod.split sum.split)

lemma perform_transaction:
  "perform (transaction f) w = (case f (snd w) of Inl e \<Rightarrow> (w, Inl e) | Inr (d, a) \<Rightarrow> ((fst w, d), Inr a))"
  by (simp add: transaction_def prod_eq_iff split: sum.split)

lemmas performs = perform_attempt perform_then perform_asking perform_ask perform_transaction

end
