(* ===== verification/Samples.thy ===== *)
theory Samples
  imports Gateway
begin

text \<open>
  One small business, at which the theorems are instantiated: an owner and a worker who share one
  service, a shift on Thursdays (1970-01-01 was one), and two bookings that morning.
\<close>

definition sample_settings :: settings where
  "sample_settings = \<lparr>timezone = sample_zone, auto_confirm = False, workers_edit_own_hours = True,
     workers_answer_requests = False, buffer_pct = 0, slot_step_minutes = 60,
     min_notice_minutes = 60, booking_horizon_days = 30, max_pending_per_email = 3,
     pending_ttl_hours = 24, cancellation_policy_text = ''Free until a day before.'',
     free_cancellation_hours = 24, reschedule_cutoff_hours = 12, max_reschedules = 2,
     published = True, payment_check = False\<rparr>"

definition sample_service :: service where
  "sample_service = \<lparr>s_id = 7, s_name = ''Cut'', s_price_minor = 2500, s_currency = ''EUR'',
     s_duration_minutes = 60, s_buffer_minutes = None, s_archived_at = None\<rparr>"

definition sample_booking :: "uuid \<Rightarrow> instant \<Rightarrow> status \<Rightarrow> booking" where
  "sample_booking i starts st = \<lparr>b_id = i, b_client = 5, b_worker = 1, b_service = 7,
     b_starts_at = starts, b_ends_at = starts + hour_us, b_status = st,
     b_expires_at = (if st = Pending then Some (2 * hour_us) else None), b_source = Booking_page,
     b_service_name = ''Cut'', b_price_minor = 2500, b_price_currency = ''EUR'',
     b_duration_minutes = 60, b_policy_text = None, b_auto_confirm = False,
     b_worker_name = Some ''Ann'', b_free_hours = 24, b_cutoff_hours = 12,
     b_original_starts_at = Some starts, b_earliest_starts_at = Some starts,
     b_max_reschedules = 2, b_reschedule_count = 0, b_client_name = Some ''Cleo'',
     b_client_phone = None, b_client_message = None, b_decline_message = None,
     b_checkout = False, b_booked_as = None\<rparr>"

definition sample_client :: client where
  "sample_client = \<lparr>c_id = 5, c_name = ''Cleo'', c_email = Some ''cleo@example.com'', c_phone = None,
     c_locale = None, c_user = Some 40, c_client_note = None, c_internal_note = None,
     c_erased_at = None\<rparr>"

definition sample_owner :: signed_in where "sample_owner = \<lparr>user_id = 11, role_of = Owner\<rparr>"
definition sample_worker :: signed_in where "sample_worker = \<lparr>user_id = 12, role_of = Worker\<rparr>"

definition sample :: db where
  "sample = \<lparr>tenant = 100, now = 0, next_id = 50,
     memberships =
       [\<lparr>m_id = 1, m_user = 11, m_role = Owner, m_display_name = Some ''Ann'', m_removed_at = None\<rparr>,
        \<lparr>m_id = 2, m_user = 12, m_role = Worker, m_display_name = None, m_removed_at = None\<rparr>],
     service_workers = [(7, 1), (7, 2)],
     working_hours = [(1, (4, Time 9 0, Time 13 0))],
     opening_hours = [(4, Time 8 0, Time 12 0)],
     time_offs = [\<lparr>t_id = 9, t_member = 1, t_block = Instants (11 * hour_us) (12 * hour_us),
       t_reason = Some ''Dentist'', t_source = Manual\<rparr>],
     booking_holds = [], services = [sample_service], settings_of = sample_settings,
     clients = [sample_client], consents = [], tenant_country = ''NL'', tenant_currency = ''EUR'', payment_account = None,
     links = [(''digest'', 20), (''other'', 21)],
     bookings = [sample_booking 20 (9 * hour_us) Confirmed,
       sample_booking 21 (14 * hour_us) Pending],
     events = [], payments = [], jobs = [], limits = Map.empty, audit = [], sessions = []\<rparr>"

text \<open>
  The same business taking payments: booking 20 paid as it was placed, booking 22 waiting for its own.
\<close>

definition sample_payment :: "uuid \<Rightarrow> uuid \<Rightarrow> string \<Rightarrow> payment_status \<Rightarrow> payment" where
  "sample_payment i booking intent_id st = \<lparr>p_id = i, p_booking = booking, p_kind = Pay, p_intent = intent_id,
     p_amount_minor = 2500, p_currency = ''EUR'', p_status = st, p_fee_mode = Business_pays,
     p_application_fee = 0, p_stripe_fee = (if st = Paid then Some 80 else None), p_refunded_minor = 0,
     p_refund_id = None, p_refund_failed_at = None, p_settled_at = None\<rparr>"

definition sample_waiting :: booking where
  "sample_waiting = (sample_booking 22 (9 * hour_us) Awaiting_payment)\<lparr>b_worker := 2,
     b_expires_at := Some hour_us, b_checkout := True\<rparr>"

definition sample_shop :: db where
  "sample_shop = sample\<lparr>payment_account := Some \<lparr>pa_account = ''acct_1'', pa_enabled = True,
       pa_fee_mode = Business_pays, pa_fee_bp = 0, pa_fee_fixed = 0, pa_currency = ''EUR''\<rparr>,
     bookings := bookings sample @ [sample_waiting],
     payments := [sample_payment 30 20 ''pi_1'' Paid, sample_payment 31 22 ''pi_2'' Open]\<rparr>"

text \<open>A Stripe that keeps its intents by id, takes no new ones, and refunds what is left at once.\<close>

definition sample_intent :: "string \<Rightarrow> string \<Rightarrow> intent_state" where
  "sample_intent i st = \<lparr>is_id = i, is_type = Payment_intent, is_status = st, is_amount = Some 2500,
     is_currency = Some ''eur'', is_amount_refunded = 0, is_failed = False, is_client_secret = ''secret'',
     is_stripe_fee = Some 80, is_charged_at = Some 0\<rparr>"

type_synonym intents = "string \<Rightarrow> intent_state option"

definition known :: "string \<Rightarrow> (intent_state \<Rightarrow> intents \<times> (failure + 'a)) \<Rightarrow> (intents, 'a) call" where
  "known i f s = (case s i of None \<Rightarrow> (s, Inl Invalid) | Some st \<Rightarrow> f st)"

definition sample_stripe :: "intents gateway" where
  "sample_stripe = \<lparr>
     create_account = (\<lambda>_ _ _ _ s. (s, Inl Unavailable)),
     retrieve_account = (\<lambda>a s. (s, Inr \<lparr>sa_id = a, sa_charges_enabled = True\<rparr>)),
     onboarding_link = (\<lambda>_ _ s. (s, Inl Unavailable)), login_link = (\<lambda>_ s. (s, Inl Unavailable)),
     register_domain = (\<lambda>_ _ s. (s, Inl Unavailable)),
     create_check = (\<lambda>_ _ _ _ _ s. (s, Inl Unavailable)),
     create_payment = (\<lambda>_ _ _ _ _ _ s. (s, Inl Unavailable)),
     refund_intent = (\<lambda>_ i n _ _ s. known i (\<lambda>st.
       if 2500 < is_amount_refunded st + n then (s, Inl Invalid)
       else (s(i \<mapsto> st\<lparr>is_amount_refunded := is_amount_refunded st + n\<rparr>), Inr (''re_'' @ i))) s),
     retrieve_refund = (\<lambda>_ r s. (s, Inr \<lparr>rf_id = r, rf_status = ''succeeded'',
       rf_payment_intent = Some (drop 3 r), rf_amount = 2500\<rparr>)),
     retrieve_intent = (\<lambda>_ i s. known i (\<lambda>st. (s, Inr st)) s),
     cancel_intent = (\<lambda>_ i s. known i (\<lambda>st.
       if is_status st = ''requires_payment_method''
       then (s(i \<mapsto> st\<lparr>is_status := ''canceled''\<rparr>), Inr ''canceled'') else (s, Inr (is_status st))) s)\<rparr>"

definition sample_intents :: intents where
  "sample_intents = [''pi_1'' \<mapsto> sample_intent ''pi_1'' ''succeeded'',
     ''pi_2'' \<mapsto> sample_intent ''pi_2'' ''succeeded'']"

end
