(* ===== verification/Members.thy ===== *)
theory Members
  imports Samples
begin

text \<open>
  \<open>backend/app/members.py\<close>: who may act on whom, and the handlers that list members, change a role,
  end a membership and set a display name, with the database's \<open>keep_an_owner\<close> trigger. Shows that a
  business always keeps an owner, and that the caller's own lock makes the trigger's refusal
  unreachable from these handlers.
\<close>

section \<open>Who may act\<close>

definition is_owner :: "signed_in \<Rightarrow> bool" where
  "is_owner current \<longleftrightarrow> role_of current = Owner"

definition may_manage :: "signed_in \<Rightarrow> uuid \<Rightarrow> bool" where
  "may_manage current user \<longleftrightarrow> is_owner current \<or> user = user_id current"

text \<open>\<open>MEMBERS\<close> (joined to \<open>users\<close>, whose row every membership has).\<close>

definition live_members :: "db \<Rightarrow> membership list" where
  "live_members d = filter (\<lambda>m. m_role m \<noteq> Removed) (memberships d)"

definition list_members :: "db \<Rightarrow> signed_in \<Rightarrow> membership list result" where
  "list_members d current =
     (if role_of current \<noteq> Owner then Inl (ApiError 403 ''owner_only'')
      else Inr (sort_key m_id (live_members d)))"

definition member_user :: "db \<Rightarrow> uuid \<Rightarrow> uuid result" where
  "member_user d m =
     (case first_row (filter (\<lambda>r. m_id r = m \<and> m_role r \<noteq> Removed) (memberships d)) of
        None \<Rightarrow> Inl (ApiError 404 ''not_found'')
      | Some r \<Rightarrow> Inr (m_user r))"

text \<open>The member to change, and the caller's own membership, read in one locking statement.\<close>

definition target :: "db \<Rightarrow> signed_in \<Rightarrow> uuid \<Rightarrow> membership result" where
  "target d current m =
     (let rows = sort_key m_id
        (filter (\<lambda>r. m_id r = m \<or> m_user r = user_id current) (live_members d))
      in case first_row (filter (\<lambda>r. m_user r = user_id current) rows) of
           None \<Rightarrow> Inl (ApiError 401 ''unauthenticated'')
         | Some me \<Rightarrow>
             if m_role me \<noteq> Owner then Inl (ApiError 403 ''owner_only'')
             else (case first_row (filter (\<lambda>r. m_id r = m) rows) of
                     None \<Rightarrow> Inl (ApiError 404 ''not_found'')
                   | Some found \<Rightarrow>
                       if m_user found = user_id current then Inl (ApiError 403 ''own_membership'')
                       else Inr found))"

section \<open>The trigger\<close>

text \<open>
  \<open>keep_an_owner\<close> (migration 0014) fires after an update of a row that was an owner's, and refuses a
  business that has members but no owner. \<open>guarded\<close> turns that refusal into 409 \<open>last_owner\<close>.
\<close>

definition has_owner :: "db \<Rightarrow> bool" where
  "has_owner d \<longleftrightarrow> (\<exists>r \<in> set (memberships d). m_role r = Owner)"

definition guarded ::
  "db \<Rightarrow> (membership \<Rightarrow> membership) \<Rightarrow> uuid \<Rightarrow> db result" where
  "guarded d change m =
     (let d' = d\<lparr>memberships := update_where (\<lambda>r. m_id r = m) change (memberships d)\<rparr>;
          fires = list_ex (\<lambda>r. m_id r = m \<and> m_role r = Owner) (memberships d)
      in if fires \<and> \<not> has_owner d' \<and> memberships d' \<noteq> []
         then Inl (ApiError 409 ''last_owner'') else Inr d')"

section \<open>Handlers\<close>

definition end_sessions :: "db \<Rightarrow> uuid \<Rightarrow> db" where
  "end_sessions d user = d\<lparr>sessions := filter (\<lambda>u. u \<noteq> user) (sessions d)\<rparr>"

definition change_role ::
  "db \<Rightarrow> signed_in \<Rightarrow> uuid \<Rightarrow> role \<Rightarrow> (db \<times> membership) result" where
  "change_role d current m new =
     (if role_of current \<noteq> Owner then Inl (ApiError 403 ''owner_only'')
      else case target d current m of
        Inl e \<Rightarrow> Inl e
      | Inr member \<Rightarrow>
          if m_role member = new then Inr (d, member)
          else (case guarded (end_sessions d (m_user member)) (\<lambda>r. r\<lparr>m_role := new\<rparr>) m of
                  Inl e \<Rightarrow> Inl e
                | Inr d' \<Rightarrow>
                    Inr (record_audit d' ''member_role_changed'' (user_id current)
                           (Some (User (m_user member))),
                         member\<lparr>m_role := new\<rparr>)))"

text \<open>\<open>UPCOMING\<close>: a confirmed appointment or a live hold that is not over yet.\<close>

definition upcoming :: "db \<Rightarrow> uuid \<Rightarrow> bool" where
  "upcoming d m = list_ex (\<lambda>b. b_worker b = m \<and> now d < b_ends_at b \<and>
     (b_status b = Confirmed \<or> b_status b \<in> {Pending, Awaiting_payment} \<and> unexpired d b))
     (bookings d)"

definition remove :: "db \<Rightarrow> signed_in \<Rightarrow> uuid \<Rightarrow> db result" where
  "remove d current m =
     (if role_of current \<noteq> Owner then Inl (ApiError 403 ''owner_only'')
      else case target d current m of
        Inl e \<Rightarrow> Inl e
      | Inr member \<Rightarrow>
          if upcoming d m then Inl (ApiError 409 ''has_upcoming_bookings'')
          else
            (let d1 = end_sessions d (m_user member);
                 d2 = d1\<lparr>service_workers := filter (\<lambda>sw. snd sw \<noteq> m) (service_workers d1),
                         working_hours := filter (\<lambda>w. fst w \<noteq> m) (working_hours d1),
                         time_offs := filter (\<lambda>t. t_member t \<noteq> m) (time_offs d1),
                         booking_holds := filter (\<lambda>h. fst h \<noteq> m) (booking_holds d1)\<rparr>
             in case guarded d2 (\<lambda>r. r\<lparr>m_role := Removed, m_removed_at := Some (now d)\<rparr>) m of
                  Inl e \<Rightarrow> Inl e
                | Inr d3 \<Rightarrow> Inr (record_audit d3 ''member_removed'' (user_id current)
                                   (Some (User (m_user member))))))"

definition set_display_name ::
  "db \<Rightarrow> signed_in \<Rightarrow> uuid \<Rightarrow> string option \<Rightarrow> (db \<times> string option) result" where
  "set_display_name d current m name =
     (case member_user d m of
        Inl e \<Rightarrow> Inl e
      | Inr user \<Rightarrow>
          if \<not> may_manage current user then Inl (ApiError 403 ''owner_only'')
          else
            (let p = (\<lambda>r. m_id r = m \<and> m_display_name r \<noteq> name);
                 f = (\<lambda>r. r\<lparr>m_display_name := name\<rparr>);
                 d' = d\<lparr>memberships := update_where p f (memberships d)\<rparr>
             in case first_row (returning p f (memberships d)) of
                  None \<Rightarrow> Inr (d', name)
                | Some _ \<Rightarrow>
                    Inr (record_audit d' ''member_display_name_changed'' (user_id current)
                           (Some (User user)), name)))"

section \<open>A business keeps an owner\<close>

text \<open>A membership's user and its id name one row (their unique constraints).\<close>

definition members_unique :: "db \<Rightarrow> bool" where
  "members_unique d \<longleftrightarrow> distinct (map m_id (memberships d)) \<and> distinct (map m_user (memberships d))"

lemma targetD:
  assumes "target d current m = Inr found"
  shows "found \<in> set (memberships d)" "m_id found = m" "m_role found \<noteq> Removed"
    and "\<exists>me \<in> set (memberships d). m_user me = user_id current \<and> m_role me = Owner"
    and "m_user found \<noteq> user_id current"
  using assms
  by (auto simp: target_def Let_def live_members_def split: option.splits if_splits
      dest!: first_row_filterD)

lemma guarded_ok:
  assumes "guarded d change m = Inr d'"
  shows "d' = d\<lparr>memberships := update_where (\<lambda>r. m_id r = m) change (memberships d)\<rparr>"
  using assms by (auto simp: guarded_def Let_def split: if_splits)

lemma guarded_has_owner: "guarded d change m = Inr d' \<Longrightarrow> has_owner d \<Longrightarrow> has_owner d'"
  by (fastforce simp: guarded_def Let_def has_owner_def list_ex_iff split: if_splits)

lemma guarded_other_owner:
  assumes "me \<in> set (memberships d)" "m_role me = Owner" "m_id me \<noteq> m"
  shows "guarded d change m =
           Inr (d\<lparr>memberships := update_where (\<lambda>r. m_id r = m) change (memberships d)\<rparr>)"
proof -
  have "me \<in> set (update_where (\<lambda>r. m_id r = m) change (memberships d))"
    using assms by (force simp: image_iff)
  then show ?thesis
    using assms(2) by (auto simp: guarded_def Let_def has_owner_def)
qed

text \<open>Two rows of one member id are one row, so the caller's row is not the target's.\<close>

lemma target_other_owner:
  assumes "members_unique d" "target d current m = Inr found"
  obtains me where "me \<in> set (memberships d)" "m_role me = Owner" "m_id me \<noteq> m"
proof -
  obtain me where me: "me \<in> set (memberships d)" "m_user me = user_id current" "m_role me = Owner"
    using targetD(4) [OF assms(2)] by blast
  have "m_id me \<noteq> m_id found"
  proof
    assume "m_id me = m_id found"
    then have "me = found"
      using assms(1) me(1) targetD(1) [OF assms(2)]
      by (auto simp: members_unique_def distinct_map dest: inj_onD)
    then show False
      using me(2) targetD(5) [OF assms(2)] by simp
  qed
  with that me targetD(2) [OF assms(2)] show thesis by blast
qed

lemma memberships_record_audit [simp]: "memberships (record_audit d a u t) = memberships d"
  by (simp add: record_audit_def)

lemma memberships_end_sessions [simp]: "memberships (end_sessions d u) = memberships d"
  by (simp add: end_sessions_def)

lemma has_owner_cong: "memberships d = memberships d' \<Longrightarrow> has_owner d = has_owner d'"
  by (simp add: has_owner_def)

lemma change_role_has_owner:
  assumes "change_role d current m new = Inr (d', out)" "has_owner d"
  shows "has_owner d'"
proof -
  have "has_owner (end_sessions d u)" for u
    using assms(2) by (simp add: has_owner_def)
  then show ?thesis
    using assms
    by (auto simp: change_role_def split: if_splits sum.splits dest!: guarded_has_owner)
      (simp_all add: has_owner_def)
qed

lemma remove_has_owner:
  assumes "remove d current m = Inr d'" "has_owner d"
  shows "has_owner d'"
  using assms
  by (auto simp: remove_def Let_def split: if_splits sum.splits dest!: guarded_has_owner)
    (simp_all add: has_owner_def)

text \<open>
  C37: A business with an owner keeps one through every change of role and removal.
\<close>

theorem business_keeps_an_owner:
  assumes "has_owner d"
  shows "(change_role d current m new = Inr (d', out) \<longrightarrow> has_owner d') \<and>
    (remove d current m = Inr d'' \<longrightarrow> has_owner d'')"
  using change_role_has_owner remove_has_owner assms by blast

theorem business_keeps_an_owner_witness: "has_owner (projr (remove sample sample_owner 2))"
  using business_keeps_an_owner [of sample sample_owner 2 Worker _ _ "projr (remove sample sample_owner 2)"]
  by (auto simp: has_owner_def sample_def remove_def sample_owner_def target_def live_members_def upcoming_def
    sample_booking_def guarded_def end_sessions_def)

text \<open>
  C38: The trigger's refusal last_owner cannot reach a caller: the caller's own ownership,
  read under the lock, is the remaining owner.
\<close>

theorem last_owner_never_refused:
  assumes "members_unique d"
  shows "change_role d current m new \<noteq> Inl (ApiError 409 ''last_owner'') \<and>
    remove d current m \<noteq> Inl (ApiError 409 ''last_owner'')"
proof -
  have t: "target d current m = Inl e \<Longrightarrow> e \<noteq> ApiError 409 ''last_owner''" for e
    by (auto simp: target_def Let_def split: option.splits if_splits)
  have g: "\<exists>d''. guarded d' change m = Inr d''"
    if found: "target d current m = Inr found" and same: "memberships d' = memberships d"
    for found d' change
  proof -
    obtain me where "me \<in> set (memberships d)" "m_role me = Owner" "m_id me \<noteq> m"
      using target_other_owner [OF assms found] by blast
    then show ?thesis using guarded_other_owner same by metis
  qed
  show ?thesis
  proof
    show "change_role d current m new \<noteq> Inl (ApiError 409 ''last_owner'')"
    proof (cases "target d current m")
      case (Inl e)
      then show ?thesis using t by (simp add: change_role_def)
    next
      case (Inr found)
      then obtain d'' where "guarded (end_sessions d (m_user found)) (\<lambda>r. r\<lparr>m_role := new\<rparr>) m = Inr d''"
        using g by force
      with Inr show ?thesis by (simp add: change_role_def)
    qed
    show "remove d current m \<noteq> Inl (ApiError 409 ''last_owner'')"
    proof (cases "target d current m")
      case (Inl e)
      then show ?thesis using t by (simp add: remove_def)
    next
      case (Inr found)
      let ?d1 = "end_sessions d (m_user found)"
      obtain d'' where "guarded (?d1\<lparr>service_workers := filter (\<lambda>sw. snd sw \<noteq> m) (service_workers ?d1),
                         working_hours := filter (\<lambda>w. fst w \<noteq> m) (working_hours ?d1),
                         time_offs := filter (\<lambda>t. t_member t \<noteq> m) (time_offs ?d1),
                         booking_holds := filter (\<lambda>h. fst h \<noteq> m) (booking_holds ?d1)\<rparr>)
          (\<lambda>r. r\<lparr>m_role := Removed, m_removed_at := Some (now d)\<rparr>) m = Inr d''"
        using g [OF Inr] by force
      with Inr show ?thesis by (simp add: remove_def Let_def)
    qed
  qed
qed

theorem last_owner_never_refused_witness:
  "change_role sample sample_owner 1 Worker \<noteq> Inl (ApiError 409 ''last_owner'')"
  by (rule last_owner_never_refused [THEN conjunct1]) code_simp

end
