(* ===== verification/Schedule.thy ===== *)
theory Schedule
  imports Members
begin

text \<open>
  \<open>backend/app/schedule.py\<close>: a member's working week and the business's opening week, local wall
  clock. The pure functions on rows, and the four handlers that read and replace a week.
\<close>

section \<open>Shifts on the wire\<close>

record shift =
  weekday :: nat
  starts_at :: string
  ends_at :: string

text \<open>The pattern \<open>HH_MM\<close>, \<open>time.fromisoformat\<close> on a text that matches it, and \<open>%H:%M\<close>.\<close>

definition digit :: "char \<Rightarrow> bool" where
  "digit c \<longleftrightarrow> 48 \<le> (of_char c :: nat) \<and> (of_char c :: nat) \<le> 57"

definition digit_value :: "char \<Rightarrow> nat" where
  "digit_value c = of_char c - 48"

fun hh_mm :: "string \<Rightarrow> bool" where
  "hh_mm [a, b, c, d, e] =
     ((a \<in> {CHR ''0'', CHR ''1''} \<and> digit b \<or>
       a = CHR ''2'' \<and> digit b \<and> digit_value b \<le> 3) \<and>
      c = CHR '':'' \<and> digit d \<and> digit_value d \<le> 5 \<and> digit e)"
| "hh_mm _ = False"

fun fromisoformat :: "string \<Rightarrow> time" where
  "fromisoformat [a, b, c, d, e] =
     Time (10 * digit_value a + digit_value b) (10 * digit_value d + digit_value e)"
| "fromisoformat _ = Time 0 0"

definition two_digits :: "nat \<Rightarrow> string" where
  "two_digits n = [char_of (48 + n div 10), char_of (48 + n mod 10)]"

definition strftime_hm :: "time \<Rightarrow> string" where
  "strftime_hm t = two_digits (hour t) @ '':'' @ two_digits (minute t)"

definition shift_ok :: "shift \<Rightarrow> bool" where
  "shift_ok s \<longleftrightarrow> 1 \<le> weekday s \<and> weekday s \<le> 7 \<and> hh_mm (starts_at s) \<and> hh_mm (ends_at s)"

section \<open>Rows\<close>

definition overlapping :: "row list \<Rightarrow> bool" where
  "overlapping rows =
     (let ordered = sort rows
      in list_ex (\<lambda>((d, _, end), (next_d, next_start, _)). d = next_d \<and> next_start < end)
           (zip ordered (tl ordered)))"

definition day_shifts :: "row list \<Rightarrow> nat \<Rightarrow> time interval list" where
  "day_shifts rows wd = join_loop [] (map snd (sort (filter (\<lambda>r. fst r = wd) rows)))"

text \<open>A dict keyed by weekday; a weekday with no rows is absent.\<close>

definition by_weekday :: "row list \<Rightarrow> (nat \<times> time interval list) list" where
  "by_weekday rows = map (\<lambda>wd. (wd, day_shifts rows wd)) (remdups (map fst rows))"

text \<open>\<open>envelope(db)\<close>: empty, and so falsy, when the business never set its opening hours.\<close>

definition envelope :: "db \<Rightarrow> (nat \<times> time interval list) list" where
  "envelope d = by_weekday (opening_hours d)"

definition get_shifts :: "(nat \<times> time interval list) list \<Rightarrow> nat \<Rightarrow> time interval list" where
  "get_shifts env wd = (case map_of env wd of None \<Rightarrow> [] | Some shifts \<Rightarrow> shifts)"

definition to_shifts :: "row list \<Rightarrow> shift list" where
  "to_shifts rows =
     map (\<lambda>(d, s, e). \<lparr>weekday = d, starts_at = strftime_hm s, ends_at = strftime_hm e\<rparr>) rows"

text \<open>The rows a body names: \<open>sorted((s.weekday, fromisoformat(...), ...))\<close>.\<close>

definition rows_of :: "shift list \<Rightarrow> row list" where
  "rows_of shifts =
     sort (map (\<lambda>s. (weekday s, fromisoformat (starts_at s), fromisoformat (ends_at s))) shifts)"

definition hours_of :: "db \<Rightarrow> uuid \<Rightarrow> row list" where
  "hours_of d m = map snd (filter (\<lambda>w. fst w = m) (working_hours d))"

text \<open>
  The exclusion constraints \<open>ex_working_hours_overlap\<close> and \<open>ex_opening_hours_overlap\<close> (migrations
  0017 and 0025) on one member's, or the business's, rows: two of one weekday that share a moment.
\<close>

definition row_clash :: "row \<Rightarrow> row \<Rightarrow> bool" where
  "row_clash a b \<longleftrightarrow> fst a = fst b \<and> meets (snd a) (snd b)"

definition excluded :: "row list \<Rightarrow> bool" where
  "excluded rows \<longleftrightarrow> \<not> sorted_wrt (\<lambda>a b. \<not> row_clash a b) rows"

text \<open>\<open>ORDER BY weekday, starts_at\<close>: the exclusion constraint leaves no ties, so the row order.\<close>

definition week :: "db \<Rightarrow> uuid \<Rightarrow> shift list" where
  "week d m = to_shifts (sort (hours_of d m))"

definition opening_week :: "db \<Rightarrow> shift list" where
  "opening_week d = to_shifts (sort (opening_hours d))"

section \<open>Handlers\<close>

definition body_ok :: "shift list \<Rightarrow> bool" where
  "body_ok shifts \<longleftrightarrow> length shifts \<le> 50 \<and> list_all shift_ok shifts"

definition read_week :: "db \<Rightarrow> uuid \<Rightarrow> shift list result" where
  "read_week d m = (case member_user d m of Inl e \<Rightarrow> Inl e | Inr _ \<Rightarrow> Inr (week d m))"

text \<open>The first row outside the opening week, if the business set one (\<open>{}\<close> never refuses).\<close>

definition outside_opening :: "db \<Rightarrow> row list \<Rightarrow> row option" where
  "outside_opening d rows =
     (if envelope d \<noteq> []
      then first_row (filter (\<lambda>(wd, s, e). \<not> within (s, e) (get_shifts (envelope d) wd)) rows)
      else None)"

definition replace_week ::
  "db \<Rightarrow> signed_in \<Rightarrow> uuid \<Rightarrow> shift list \<Rightarrow> (db \<times> shift list) result" where
  "replace_week d current m shifts =
     (if \<not> body_ok shifts then Inl (ApiError 422 ''invalid_request'') else
      case member_user d m of
        Inl e \<Rightarrow> Inl e
      | Inr user \<Rightarrow>
          if role_of current \<noteq> Owner \<and>
             \<not> (user = user_id current \<and> workers_edit_own_hours (settings_of d))
          then Inl (ApiError 403 ''owner_only'')
          else
            let rows = rows_of shifts in
            if list_ex (\<lambda>(_, s, e). e \<le> s) rows then Inl (ApiError 422 ''end_not_after_start'')
            else if overlapping rows then Inl (ApiError 422 ''overlapping_hours'')
            else case outside_opening d rows of
              Some r \<Rightarrow> Inl (OutsideOpeningHours (fst r))
            | None \<Rightarrow>
                if excluded rows then Inl (ApiError 422 ''overlapping_hours'')
                else
                  let old = hours_of d m;
                      d1 = d\<lparr>working_hours :=
                        filter (\<lambda>w. fst w \<noteq> m) (working_hours d) @ map (Pair m) rows\<rparr>;
                      d2 = (if sort old \<noteq> rows
                        then record_audit d1 ''working_hours_changed'' (user_id current)
                               (Some (User user))
                        else d1)
                  in Inr (d2, week d2 m))"

definition read_opening_hours :: "db \<Rightarrow> shift list result" where
  "read_opening_hours d = Inr (opening_week d)"

definition replace_opening_hours ::
  "db \<Rightarrow> signed_in \<Rightarrow> shift list \<Rightarrow> (db \<times> shift list) result" where
  "replace_opening_hours d current shifts =
     (if role_of current \<noteq> Owner then Inl (ApiError 403 ''owner_only'')
      else if \<not> body_ok shifts then Inl (ApiError 422 ''invalid_request'')
      else
        let rows = rows_of shifts in
        if rows = [] then Inl (ApiError 422 ''opening_hours_required'')
        else if list_ex (\<lambda>(_, s, e). e \<le> s) rows then Inl (ApiError 422 ''end_not_after_start'')
        else if overlapping rows then Inl (ApiError 422 ''overlapping_hours'')
        else if excluded rows then Inl (ApiError 422 ''overlapping_hours'')
        else
          let old = opening_hours d;
              d1 = d\<lparr>opening_hours := rows\<rparr>;
              d2 = (if sort old \<noteq> rows
                then record_audit d1 ''opening_hours_changed'' (user_id current) None else d1)
          in Inr (d2, opening_week d2))"

section \<open>Times on the wire round-trip\<close>

lemma digit_of_char:
  "n < 10 \<Longrightarrow> digit (char_of (48 + n)) \<and> digit_value (char_of (48 + n)) = n"
  by (simp add: digit_def digit_value_def)

lemma char_of_digit: "digit c \<Longrightarrow> char_of (48 + digit_value c) = c \<and> digit_value c < 10"
  by (simp add: digit_def digit_value_def) linarith

lemma char_of_eq_literal:
  "char_of (48 :: nat) = CHR ''0''" "char_of (49 :: nat) = CHR ''1''" "char_of (50 :: nat) = CHR ''2''"
  by code_simp+

lemma digit_value_literal:
  "digit_value (CHR ''0'') = 0" "digit_value (CHR ''1'') = 1" "digit_value (CHR ''2'') = 2"
  "digit (CHR ''0'')" "digit (CHR ''1'')" "digit (CHR ''2'')"
  by code_simp+

lemma format_parses:
  assumes "valid_time t"
  shows "hh_mm (strftime_hm t) \<and> fromisoformat (strftime_hm t) = t"
proof -
  obtain h m where t: "t = Time h m" by (cases t)
  then have h: "h < 24" and m: "m < 60" using assms by (auto simp: valid_time_def)
  have d: "h div 10 < 10" "h mod 10 < 10" "m div 10 < 10" "m mod 10 < 10" "m div 10 \<le> 5"
    using h m by auto
  note dg = digit_of_char [OF d(1)] digit_of_char [OF d(2)] digit_of_char [OF d(3)]
    digit_of_char [OF d(4)]
  have "h div 10 = 0 \<or> h div 10 = 1 \<or> h div 10 = 2 \<and> h mod 10 \<le> 3"
    using h by presburger
  then consider "h div 10 = 0" | "h div 10 = 1" | "h div 10 = 2" "h mod 10 \<le> 3"
    by (elim disjE conjE)
  then have "hh_mm (strftime_hm t)"
    by cases (use t dg d(5) in \<open>simp_all add: strftime_hm_def two_digits_def char_of_eq_literal\<close>)
  then show ?thesis
    using t dg by (simp add: strftime_hm_def two_digits_def)
qed

lemma hh_mmE:
  assumes "hh_mm s"
  obtains a b c e where "s = [a, b, CHR '':'', c, e]" "digit a" "digit b" "digit c" "digit e"
    "10 * digit_value a + digit_value b < 24" "digit_value c \<le> 5"
proof -
  obtain a b x c e where s: "s = [a, b, x, c, e]"
    using assms by (cases s rule: hh_mm.cases) auto
  with assms have "x = CHR '':''" "digit b" "digit c" "digit e" "digit_value c \<le> 5"
    and a: "a = CHR ''0'' \<or> a = CHR ''1'' \<or> a = CHR ''2'' \<and> digit_value b \<le> 3"
    by auto
  moreover have "digit_value b < 10" using \<open>digit b\<close> char_of_digit by blast
  moreover have "digit a" "10 * digit_value a + digit_value b < 24"
    using a \<open>digit_value b < 10\<close> by (auto simp: digit_value_literal)
  ultimately show thesis using that s by blast
qed

lemma parse_formats:
  assumes "hh_mm s"
  shows "valid_time (fromisoformat s) \<and> strftime_hm (fromisoformat s) = s"
proof -
  obtain a b c e where s: "s = [a, b, CHR '':'', c, e]" and d: "digit a" "digit b" "digit c" "digit e"
    and lt: "10 * digit_value a + digit_value b < 24" "digit_value c \<le> 5"
    using assms by (rule hh_mmE)
  show ?thesis
    using lt char_of_digit [OF d(1)] char_of_digit [OF d(2)] char_of_digit [OF d(3)]
      char_of_digit [OF d(4)]
    by (simp add: s valid_time_def strftime_hm_def two_digits_def)
qed

section \<open>Overlaps of a week\<close>

lemma row_clash_sym: "row_clash a b = row_clash b a"
  by (auto simp: row_clash_def meets_def)

text \<open>For a symmetric relation, "no two related" does not depend on the order of the rows.\<close>

lemma sorted_wrt_mset:
  assumes "\<And>x y. R x y = R y x"
  shows "sorted_wrt R xs \<longleftrightarrow> (\<forall>x \<in># mset xs. \<forall>y \<in># mset xs - {#x#}. R x y)"
proof (induction xs)
  case Nil
  then show ?case by simp
next
  case (Cons a xs)
  have "(\<forall>x \<in># mset (a # xs). \<forall>y \<in># mset (a # xs) - {#x#}. R x y) \<longleftrightarrow>
    (\<forall>y \<in> set xs. R a y) \<and>
    (\<forall>x \<in> set xs. \<forall>y \<in># mset (a # xs) - {#x#}. R x y)"
    by auto
  also have "(\<forall>x \<in> set xs. \<forall>y \<in># mset (a # xs) - {#x#}. R x y) \<longleftrightarrow>
    (\<forall>x \<in> set xs. R x a \<and> (\<forall>y \<in># mset xs - {#x#}. R x y))"
  proof (intro ball_cong refl)
    fix x assume "x \<in> set xs"
    then obtain N where "mset xs = add_mset x N"
      by (metis multi_member_split set_mset_mset)
    then show "(\<forall>y \<in># mset (a # xs) - {#x#}. R x y) = (R x a \<and> (\<forall>y \<in># mset xs - {#x#}. R x y))"
      by (simp add: add_mset_commute [of a x])
  qed
  finally show ?case
    using assms Cons.IH by auto
qed

lemma excluded_sort: "excluded (sort rows) = excluded rows"
  unfolding excluded_def
  by (subst (1 2) sorted_wrt_mset) (simp_all add: row_clash_sym)

definition proper_rows :: "row list \<Rightarrow> bool" where
  "proper_rows rows \<longleftrightarrow> (\<forall>(_, s, e) \<in> set rows. s < e)"

text \<open>In a sorted list of proper rows, looking at neighbours is enough.\<close>

lemma neighbours_enough:
  "sorted rs \<Longrightarrow> proper_rows rs \<Longrightarrow>
   \<not> list_ex (\<lambda>((d, _, e), (d', s', _)). d = d' \<and> s' < e) (zip rs (tl rs)) \<Longrightarrow>
   sorted_wrt (\<lambda>a b. fst a = fst b \<longrightarrow> snd (snd a) \<le> fst (snd b)) rs"
proof (induction rs rule: induct_list012)
  case (3 x y rs)
  have IH: "sorted_wrt (\<lambda>a b. fst a = fst b \<longrightarrow> snd (snd a) \<le> fst (snd b)) (y # rs)"
    using "3.IH"(2) "3.prems" by (simp add: proper_rows_def)
  have xy: "fst x = fst y \<longrightarrow> snd (snd x) \<le> fst (snd y)"
    using "3.prems"(3) by (cases x; cases y) (auto simp: not_less)
  have "snd (snd x) \<le> fst (snd z)" if z: "z \<in> set rs" "fst x = fst z" for z
  proof -
    have "x \<le> y" "y \<le> z" using "3.prems"(1) z by auto
    then have "fst x \<le> fst y" "fst y \<le> fst z"
      by (auto simp: less_eq_prod_def)
    then have "fst x = fst y" using z(2) by simp
    moreover from this have "snd (snd y) \<le> fst (snd z)" using IH z by simp
    moreover have "fst (snd y) < snd (snd y)"
      using "3.prems"(2) by (auto simp: proper_rows_def)
    ultimately show ?thesis using xy by (meson less_imp_le order_trans)
  qed
  then show ?case using IH xy by auto
qed auto

lemma sorted_not_overlapping:
  assumes "proper_rows rows" "\<not> overlapping rows"
  shows "sorted_wrt (\<lambda>a b. fst a = fst b \<longrightarrow> snd (snd a) \<le> fst (snd b)) (sort rows)"
  by (rule neighbours_enough) (use assms in \<open>simp_all add: overlapping_def Let_def proper_rows_def\<close>)

lemma overlapping_excluded:
  assumes "proper_rows rows"
  shows "overlapping rows \<longleftrightarrow> excluded rows"
proof
  assume "excluded rows"
  then have "\<not> sorted_wrt (\<lambda>a b. \<not> row_clash a b) (sort rows)"
    by (simp add: excluded_sort excluded_def [of "sort rows", symmetric])
  moreover have "sorted_wrt (\<lambda>a b. \<not> row_clash a b) (sort rows)" if "\<not> overlapping rows"
    using sorted_not_overlapping [OF assms that]
    by (rule sorted_wrt_mono_rel [rotated]) (auto simp: row_clash_def meets_def)
  ultimately show "overlapping rows" by blast
next
  let ?rs = "sort rows"
  assume "overlapping rows"
  then obtain a b where ab: "(a, b) \<in> set (zip ?rs (tl ?rs))" "fst a = fst b"
    "fst (snd b) < snd (snd a)"
    by (auto simp: overlapping_def Let_def list_ex_iff)
  then obtain i where i: "Suc i < length ?rs" "a = ?rs ! i" "b = ?rs ! Suc i"
    by (auto simp: in_set_zip nth_tl less_diff_conv)
  note i = this(1) ab(2,3) [unfolded this(2,3)]
  then have "?rs ! i \<le> ?rs ! Suc i"
    by (intro sorted_nth_mono) auto
  then have "fst (snd (?rs ! i)) \<le> fst (snd (?rs ! Suc i))"
    using i(2) by (auto simp: less_eq_prod_def)
  moreover have "?rs ! Suc i \<in> set rows"
    using i(1) by (metis nth_mem set_sort)
  then have "fst (snd (?rs ! Suc i)) < snd (snd (?rs ! Suc i))"
    using assms by (auto simp: proper_rows_def)
  ultimately have "row_clash (?rs ! i) (?rs ! Suc i)"
    using i by (auto simp: row_clash_def meets_def)
  then have "excluded ?rs"
    using i(1) by (auto simp: excluded_def sorted_wrt_iff_nth_less)
  then show "excluded rows" by (simp add: excluded_sort)
qed

section \<open>One weekday's joined shifts\<close>

definition week_ok :: "row list \<Rightarrow> bool" where
  "week_ok rows \<longleftrightarrow> proper_rows rows \<and> \<not> excluded rows \<and>
     (\<forall>(_, s, e) \<in> set rows. valid_time s \<and> valid_time e)"

lemma week_ok_Nil [simp]: "week_ok []"
  by (simp add: week_ok_def proper_rows_def excluded_def)

lemma covers_map_snd:
  "covers (map snd (filter (\<lambda>r. fst r = wd) rows)) x \<longleftrightarrow> (\<exists>(d, s, e) \<in> set rows. d = wd \<and> s \<le> x \<and> x < e)"
  by (force simp: covers_def)

lemma day_shifts_spec:
  assumes "week_ok rows"
  shows "separated (day_shifts rows wd)"
    and "covers (day_shifts rows wd) x \<longleftrightarrow> (\<exists>(d, s, e) \<in> set rows. d = wd \<and> s \<le> x \<and> x < e)"
proof -
  let ?p = "\<lambda>r. fst r = wd" and ?l = "map snd (filter (\<lambda>r. fst r = wd) (sort rows))"
  have rows: "proper_rows rows" "\<not> overlapping rows"
    using assms overlapping_excluded by (auto simp: week_ok_def)
  have "sorted_wrt (\<lambda>a b. fst a = fst b \<longrightarrow> snd (snd a) \<le> fst (snd b)) (filter ?p (sort rows))"
    using sorted_not_overlapping [OF rows] by (rule sorted_wrt_filter)
  then have "sorted_wrt (\<lambda>a b. snd (snd a) \<le> fst (snd b)) (filter ?p (sort rows))"
    by (rule sorted_wrt_mono_rel [rotated]) auto
  then have "in_order ?l"
    using rows(1) by (force simp: in_order_def sorted_wrt_map proper_rows_def proper_def)
  then have spec: "separated (join_loop [] ?l) \<and> (\<forall>x. covers (join_loop [] ?l) x \<longleftrightarrow> covers ?l x)"
    using join_loop_spec [of ?l "[]"] by (simp add: separated_def)
  have eq: "day_shifts rows wd = join_loop [] ?l"
    by (simp add: day_shifts_def filter_sort)
  show "separated (day_shifts rows wd)"
    using spec by (simp add: eq)
  show "covers (day_shifts rows wd) x \<longleftrightarrow> (\<exists>(d, s, e) \<in> set rows. d = wd \<and> s \<le> x \<and> x < e)"
    using spec covers_map_snd [of wd "sort rows" x] by (simp add: eq)
qed

lemma join_loop_ends:
  "set (map fst (join_loop out ivs)) \<subseteq> set (map fst (out @ ivs)) \<and>
   set (map snd (join_loop out ivs)) \<subseteq> set (map snd (out @ ivs))"
proof (induction out ivs rule: join_loop.induct)
  case (3 s0 e0 joined s e r)
  then show ?case
    by (cases "s = e0") (simp_all, blast+)
qed auto

lemma day_shifts_valid:
  assumes "week_ok rows" "(s, e) \<in> set (day_shifts rows wd)"
  shows "valid_time s" "valid_time e" "s < e"
proof -
  let ?l = "map snd (sort (filter (\<lambda>r. fst r = wd) rows))"
  have "s \<in> set (map fst ?l)" "e \<in> set (map snd ?l)"
    using join_loop_ends [of "[]" ?l] assms(2) by (force simp: day_shifts_def)+
  then show "valid_time s" "valid_time e"
    using assms(1) by (auto simp: week_ok_def)
  show "s < e"
    using day_shifts_spec(1) [OF assms(1)] assms(2) by (auto simp: separated_def proper_def)
qed

section \<open>Replacing a week\<close>

lemma rows_of_valid:
  assumes "body_ok shifts"
  shows "\<forall>(_, s, e) \<in> set (rows_of shifts). valid_time s \<and> valid_time e"
  using assms parse_formats by (auto simp: body_ok_def rows_of_def list_all_iff shift_ok_def)

lemma rows_of_week_ok:
  assumes "body_ok shifts" "\<not> list_ex (\<lambda>(_, s, e). e \<le> s) (rows_of shifts)"
    "\<not> overlapping (rows_of shifts)"
  shows "week_ok (rows_of shifts)"
  using assms(2,3) rows_of_valid [OF assms(1)] overlapping_excluded [of "rows_of shifts"]
  by (fastforce simp: week_ok_def proper_rows_def list_ex_iff not_le)

lemma sorted_rows_of: "sort (rows_of shifts) = rows_of shifts"
  by (simp add: rows_of_def sort_key_id_if_sorted)

lemma hours_of_replaced:
  "hours_of (d\<lparr>working_hours := filter (\<lambda>w. fst w \<noteq> m) (working_hours d) @ map (Pair m) rows\<rparr>) m' =
   (if m' = m then rows else hours_of d m')"
proof (cases "m' = m")
  case False
  then have "filter (\<lambda>w. fst w = m') (map (Pair m) rows) = []"
    by (auto simp: filter_empty_conv)
  moreover have "filter (\<lambda>w. fst w = m') (filter (\<lambda>w. fst w \<noteq> m) hs) = filter (\<lambda>w. fst w = m') hs"
    for hs :: "(uuid \<times> row) list"
    using False by (induction hs) auto
  ultimately show ?thesis
    using False by (simp add: hours_of_def del: filter_filter)
qed (simp add: hours_of_def filter_map comp_def filter_empty_conv)

lemma hours_of_record_audit [simp]: "hours_of (record_audit d a u t) m = hours_of d m"
  by (simp add: hours_of_def record_audit_def)

lemma outside_opening_None:
  "outside_opening d rows = None \<longleftrightarrow> (opening_hours d \<noteq> [] \<longrightarrow>
     (\<forall>(wd, s, e) \<in> set rows. within (s, e) (get_shifts (envelope d) wd)))"
  by (auto simp: outside_opening_def filter_empty_conv envelope_def by_weekday_def)

lemma replace_weekD:
  assumes "replace_week d current m shifts = Inr (d', out)"
  shows "week_ok (rows_of shifts)"
    and "hours_of d' m' = (if m' = m then rows_of shifts else hours_of d m')"
    and "out = to_shifts (rows_of shifts)"
    and "outside_opening d (rows_of shifts) = None"
    and "opening_hours d' = opening_hours d"
    and "\<exists>user. member_user d m = Inr user \<and> (role_of current = Owner \<or>
           user = user_id current \<and> workers_edit_own_hours (settings_of d))"
proof -
  let ?rows = "rows_of shifts"
  let ?d1 = "d\<lparr>working_hours := filter (\<lambda>w. fst w \<noteq> m) (working_hours d) @ map (Pair m) ?rows\<rparr>"
  obtain user where user: "member_user d m = Inr user"
    using assms by (auto simp: replace_week_def split: if_splits sum.splits)
  have guards: "body_ok shifts" "role_of current = Owner \<or>
      user = user_id current \<and> workers_edit_own_hours (settings_of d)"
    "\<not> list_ex (\<lambda>(_, s, e). e \<le> s) ?rows" "\<not> overlapping ?rows" "outside_opening d ?rows = None"
    using assms user by (auto simp: replace_week_def Let_def split: if_splits option.splits)
  have d': "d' = ?d1 \<or> (\<exists>a u t. d' = record_audit ?d1 a u t)" and out: "out = week d' m"
    using assms user by (auto simp: replace_week_def Let_def split: if_splits option.splits)
  show hours: "hours_of d' m' = (if m' = m then ?rows else hours_of d m')" for m'
    using d' by (auto simp: hours_of_replaced)
  show "week_ok ?rows"
    using guards by (intro rows_of_week_ok) auto
  show "out = to_shifts ?rows"
    by (simp add: out week_def hours sorted_rows_of)
  show "opening_hours d' = opening_hours d"
    using d' by (auto simp: record_audit_def)
  show "outside_opening d ?rows = None"
    "\<exists>user. member_user d m = Inr user \<and> (role_of current = Owner \<or>
       user = user_id current \<and> workers_edit_own_hours (settings_of d))"
    using guards user by auto
qed

lemma replace_opening_hoursD:
  assumes "replace_opening_hours d current shifts = Inr (d', out)"
  shows "week_ok (rows_of shifts)" and "opening_hours d' = rows_of shifts"
    and "rows_of shifts \<noteq> []" and "out = to_shifts (rows_of shifts)"
    and "working_hours d' = working_hours d" and "role_of current = Owner"
proof -
  let ?rows = "rows_of shifts"
  have guards: "body_ok shifts" "role_of current = Owner" "?rows \<noteq> []"
    "\<not> list_ex (\<lambda>(_, s, e). e \<le> s) ?rows" "\<not> overlapping ?rows"
    using assms by (auto simp: replace_opening_hours_def Let_def split: if_splits)
  have d': "d' = d\<lparr>opening_hours := ?rows\<rparr> \<or>
      (\<exists>a u t. d' = record_audit (d\<lparr>opening_hours := ?rows\<rparr>) a u t)" and out: "out = opening_week d'"
    using assms by (auto simp: replace_opening_hours_def Let_def split: if_splits)
  show "week_ok ?rows" using guards by (intro rows_of_week_ok) auto
  show rows: "opening_hours d' = ?rows" using d' by (auto simp: record_audit_def)
  show "out = to_shifts ?rows" by (simp add: out opening_week_def rows sorted_rows_of)
  show "working_hours d' = working_hours d" using d' by (auto simp: record_audit_def)
  show "?rows \<noteq> []" "role_of current = Owner" using guards by auto
qed

lemma map_of_by_weekday:
  "map_of (by_weekday rows) wd = (if wd \<in> fst ` set rows then Some (day_shifts rows wd) else None)"
  by (auto simp: by_weekday_def map_of_map_restrict restrict_map_def)

lemma get_shifts_envelope:
  "get_shifts (envelope d) wd = (if wd \<in> fst ` set (opening_hours d) then day_shifts (opening_hours d) wd else [])"
  by (simp add: get_shifts_def envelope_def map_of_by_weekday)

lemma envelope_spec:
  assumes "week_ok (opening_hours d)"
  shows "separated (get_shifts (envelope d) wd)"
    and "covers (get_shifts (envelope d) wd) x \<longleftrightarrow>
           (\<exists>(w, s, e) \<in> set (opening_hours d). w = wd \<and> s \<le> x \<and> x < e)"
    and "(s, e) \<in> set (get_shifts (envelope d) wd) \<Longrightarrow> valid_time s \<and> valid_time e"
  using assms day_shifts_spec [of "opening_hours d" wd] day_shifts_valid [of "opening_hours d" s e wd]
  by (auto simp: get_shifts_envelope separated_def [of "[]"] split: if_splits)
    (metis fst_conv image_eqI)

section \<open>A week reads back\<close>

lemma shift_round_trip:
  "shift_ok s \<Longrightarrow> \<lparr>weekday = weekday s, starts_at = strftime_hm (fromisoformat (starts_at s)),
    ends_at = strftime_hm (fromisoformat (ends_at s))\<rparr> = s"
  using parse_formats by (simp add: shift_ok_def)

lemma mset_to_shifts_rows_of:
  assumes "body_ok shifts"
  shows "mset (to_shifts (rows_of shifts)) = mset shifts"
proof -
  have "map ((\<lambda>(d, s, e). \<lparr>weekday = d, starts_at = strftime_hm s, ends_at = strftime_hm e\<rparr>) \<circ>
      (\<lambda>s. (weekday s, fromisoformat (starts_at s), fromisoformat (ends_at s)))) shifts = shifts"
    using assms by (intro map_idI) (auto simp: body_ok_def list_all_iff comp_def shift_round_trip)
  then show ?thesis by (metis (no_types, lifting) map_map mset_map mset_sort to_shifts_def rows_of_def)
qed



text \<open>
  Comparing neighbours of the sorted rows refuses exactly the weeks the table's exclusion
  constraint would refuse.
\<close>

lemma neighbours_refuse_what_the_table_refuses:
  assumes "proper_rows rows"
  shows "overlapping rows = excluded rows"
  by (rule overlapping_excluded [OF assms])

end
