(* ===== verification/Availability.thy ===== *)
theory Availability
  imports Schedule
begin

text \<open>
  \<open>backend/app/availability.py\<close>: when a client can book a service. \<open>member_slots\<close> is the engine, one
  worker's bookable starts; around it are the reads it is fed from, \<open>offered\<close> for several workers and
  the two routes. Shows exactly which instants are offered, that none of them collides with a booking
  or with blocked time, that all lie in the worker's and the business's hours, and that they come in
  order.
\<close>

section \<open>The arithmetic\<close>

definition buffer_for :: "int \<Rightarrow> int option \<Rightarrow> int \<Rightarrow> int" where
  "buffer_for duration_minutes override pct =
     (case override of Some n \<Rightarrow> n | None \<Rightarrow> - ((- duration_minutes * pct) div 100))"

definition anchor :: "time \<Rightarrow> int \<Rightarrow> time option" where
  "anchor start step =
     (let minutes = - ((- mins start) div step) * step
      in if minutes < 24 * 60 then Some (Time (nat (minutes div 60)) (nat (minutes mod 60)))
         else None)"

definition window ::
  "instant \<Rightarrow> zone \<Rightarrow> day \<Rightarrow> day \<Rightarrow> int \<Rightarrow> int \<Rightarrow> day \<times> day \<times> instant" where
  "window clock zone first final notice horizon =
     (let today = local_date zone clock
      in (max first today, min final (today + horizon), clock + notice * minute_us))"

section \<open>One worker's slots\<close>

text \<open>
  The two loops over a shift. Both step by \<open>stride\<close>, which is positive: \<open>slot_step_minutes\<close> is one of
  5, 10, 15, 20, 30 and 60 (\<open>settings_ok\<close>). For a stride of 0 or less the code would not leave the
  loops; the models stop at once.
\<close>

function rewind :: "int \<Rightarrow> instant \<Rightarrow> instant \<Rightarrow> instant" where
  "rewind stride opens t =
     (if 0 < stride \<and> opens \<le> t - stride then rewind stride opens (t - stride) else t)"
  by pat_completeness auto
termination
  by (relation "measure (\<lambda>(stride, opens, t). nat (t - opens))") auto

function slots_from ::
  "(instant \<Rightarrow> bool) \<Rightarrow> int \<Rightarrow> int \<Rightarrow> instant \<Rightarrow> instant \<Rightarrow> instant list" where
  "slots_from ok stride len closes t =
     (if 0 < stride \<and> t + len \<le> closes
      then (if ok t then [t] else []) @ slots_from ok stride len closes (t + stride)
      else [])"
  by pat_completeness auto
termination
  by (relation "measure (\<lambda>(ok, stride, len, closes, t). nat (closes - len - t + 1))") auto

declare rewind.simps [simp del] slots_from.simps [simp del]

text \<open>One shift of one day; nothing past midnight, or inside a skipped hour.\<close>

definition shift_slots ::
  "(instant \<Rightarrow> bool) \<Rightarrow> zone \<Rightarrow> int \<Rightarrow> int \<Rightarrow> day \<Rightarrow> time interval \<Rightarrow> instant list" where
  "shift_slots ok zone step len d shift =
     (let opens = to_utc d (fst shift) zone;
          closes = to_utc d (snd shift) zone;
          stride = step * minute_us
      in case anchor (fst shift) step of
           None \<Rightarrow> []
         | Some at \<Rightarrow>
             if closes \<le> opens then []
             else slots_from ok stride len closes (rewind stride opens (to_utc d at zone)))"

text \<open>The shifts of one day: the worker's, cut to the opening hours if the business has any.\<close>

definition day_window ::
  "row list \<Rightarrow> (nat \<times> time interval list) list \<Rightarrow> day \<Rightarrow> time interval list" where
  "day_window rows opening d =
     (let shifts = day_shifts rows (isoweekday d)
      in if opening \<noteq> [] then clip shifts (get_shifts opening (isoweekday d)) else shifts)"

type_synonym booked = "instant \<times> instant \<times> int option"

definition blocked_by :: "int \<Rightarrow> instant interval list \<Rightarrow> booked list \<Rightarrow> instant interval list" where
  "blocked_by pct time_off booked = time_off @
     map (\<lambda>(s, e, ov). (s, e + buffer_for ((e - s) div minute_us) ov pct * minute_us)) booked"

definition member_slots ::
  "row list \<Rightarrow> instant interval list \<Rightarrow> booked list \<Rightarrow> (nat \<times> time interval list) list \<Rightarrow> zone \<Rightarrow>
   day \<Rightarrow> day \<Rightarrow> int \<Rightarrow> int \<Rightarrow> int \<Rightarrow> int \<Rightarrow> instant \<Rightarrow> instant list" where
  "member_slots rows time_off booked opening zone first final duration buffer pct step earliest =
     (let bookings = merged (map (\<lambda>(s, e, _). (s, e)) booked);
          blocked = merged (blocked_by pct time_off booked);
          len = duration * minute_us;
          tail = (duration + buffer) * minute_us;
          ok = (\<lambda>t. earliest \<le> t \<and> \<not> overlaps blocked t (t + len) \<and>
                     \<not> overlaps bookings t (t + tail))
      in concat (map (\<lambda>d. concat (map (shift_slots ok zone step len d)
                                       (day_window rows opening d)))
                     [first..final]))"

section \<open>The reads\<close>

definition OCCUPYING :: "status list" where
  "OCCUPYING = [Awaiting_payment, Pending, Confirmed, Completed]"

definition EXPIRING :: "status list" where
  "EXPIRING = [Awaiting_payment, Pending]"

type_synonym booked_row = "uuid \<times> instant \<times> instant \<times> int option"

text \<open>\<open>BOOKED\<close>; \<open>exclude\<close> leaves one booking out.\<close>

definition occupies :: "db \<Rightarrow> instant \<Rightarrow> instant \<Rightarrow> uuid option \<Rightarrow> booking \<Rightarrow> bool" where
  "occupies d start end exclude b \<longleftrightarrow>
     b_starts_at b < end \<and> start < b_ends_at b \<and> start - day_us < b_starts_at b \<and>
     b_status b \<in> set OCCUPYING \<and> (b_status b \<notin> set EXPIRING \<or> unexpired d b) \<and>
     exclude \<noteq> Some (b_id b)"

definition booked_rows ::
  "db \<Rightarrow> uuid list \<Rightarrow> instant \<Rightarrow> instant \<Rightarrow> uuid option \<Rightarrow> booked_row list" where
  "booked_rows d members start end exclude =
     [(b_worker b, b_starts_at b, b_ends_at b, s_buffer_minutes s).
        b \<leftarrow> bookings d, s \<leftarrow> services d, s_id s = b_service b,
        b_worker b \<in> set members \<and> occupies d start end exclude b]"

definition day_span :: "day \<Rightarrow> day \<Rightarrow> zone \<Rightarrow> instant interval" where
  "day_span first final zone = (to_utc first (Time 0 0) zone, to_utc (final + 1) (Time 0 0) zone)"

definition block_span :: "zone \<Rightarrow> block \<Rightarrow> instant interval" where
  "block_span zone b = (case b of Instants s e \<Rightarrow> (s, e) | Days f l \<Rightarrow> day_span f l zone)"

text \<open>\<open>TIME_OFF\<close>, one member's entry of the dict \<open>time_off\<close> builds.\<close>

definition time_off_rows ::
  "db \<Rightarrow> uuid \<Rightarrow> day \<Rightarrow> day \<Rightarrow> zone \<Rightarrow> instant \<Rightarrow> instant \<Rightarrow> instant interval list" where
  "time_off_rows d m first final zone start end =
     map (block_span zone \<circ> t_block) (filter (\<lambda>t. t_member t = m \<and>
       (case t_block t of
          Instants s e \<Rightarrow> s < end \<and> start < e \<and> start - 366 * day_us < s
        | Days f l \<Rightarrow> f \<le> final \<and> first \<le> l \<and> first - 366 < f)) (time_offs d))"

text \<open>\<open>CANDIDATES\<close>: the working hours per worker (a \<open>defaultdict(list)\<close>) and the names.\<close>

definition candidate_rows :: "db \<Rightarrow> uuid \<Rightarrow> uuid option \<Rightarrow> (uuid \<times> string option \<times> row) list" where
  "candidate_rows d service member =
     [(m, m_display_name r, w). (m, w) \<leftarrow> working_hours d, (svc, m') \<leftarrow> service_workers d,
        r \<leftarrow> memberships d,
        m' = m \<and> m_id r = m \<and> svc = service \<and> m_role r \<noteq> Removed \<and>
        (member = None \<or> member = Some m)]"

definition candidates ::
  "db \<Rightarrow> uuid \<Rightarrow> uuid option \<Rightarrow> (uuid \<times> row list) list \<times> (uuid \<times> string option) list" where
  "candidates d service member =
     (let rows = candidate_rows d service member; ids = remdups (map fst rows)
      in (map (\<lambda>m. (m, map (snd \<circ> snd) (filter (\<lambda>r. fst r = m) rows))) ids,
          map (\<lambda>r. (fst r, fst (snd r))) rows))"

definition dict_list :: "('k \<times> 'v list) list \<Rightarrow> 'k \<Rightarrow> 'v list" where
  "dict_list dict k = (case map_of dict k of None \<Rightarrow> [] | Some v \<Rightarrow> v)"

definition dict_name :: "(uuid \<times> string option) list \<Rightarrow> uuid \<Rightarrow> string option" where
  "dict_name dict k = (case map_of (rev dict) k of None \<Rightarrow> None | Some v \<Rightarrow> v)"

section \<open>What the arithmetic computes\<close>

lemma buffer_for_None:
  "duration * pct \<le> 100 * buffer_for duration None pct"
  "100 * (buffer_for duration None pct - 1) < duration * pct"
  by (simp_all add: buffer_for_def)

lemma buffer_for_nonneg:
  assumes "0 \<le> duration" "0 \<le> pct" "\<And>n. ov = Some n \<Longrightarrow> 0 \<le> n"
  shows "0 \<le> buffer_for duration ov pct"
proof (cases ov)
  case None
  have "0 \<le> 100 * buffer_for duration None pct"
    using buffer_for_None(1) [of duration pct] mult_nonneg_nonneg [OF assms(1,2)] by linarith
  with None show ?thesis by simp
qed (use assms(3) in \<open>simp add: buffer_for_def\<close>)

lemma round_up:
  fixes m step :: int
  assumes "0 < step"
  shows "m \<le> - (- m div step) * step" "- (- m div step) * step < m + step"
    "step dvd - (- m div step) * step"
proof -
  have "- (- m div step) * step = m + (- m) mod step"
    using minus_mod_eq_div_mult [of "- m" step] by (simp only: mult_minus_left)
  then show "m \<le> - (- m div step) * step" "- (- m div step) * step < m + step"
    using pos_mod_bound [OF assms, of "- m"] pos_mod_sign [OF assms, of "- m"] by linarith+
qed simp

lemma anchorD:
  assumes "anchor start step = Some at" "0 < step" "valid_time start"
  shows "valid_time at" "start \<le> at" "mins start \<le> mins at" "mins at < mins start + step"
    "step dvd mins at"
proof -
  let ?m = "- (- mins start div step) * step"
  have at: "at = Time (nat (?m div 60)) (nat (?m mod 60))" "?m < 24 * 60"
    using assms(1) by (auto simp: anchor_def Let_def split: if_splits)
  have "0 \<le> ?m"
    using round_up(1) [OF assms(2), of "mins start"] mins_range [OF assms(3)] by linarith
  then have m: "mins at = ?m" and v: "valid_time at"
    using at by (auto simp: mins_def valid_time_def)
  show "valid_time at" by (rule v)
  show "mins start \<le> mins at" "mins at < mins start + step" "step dvd mins at"
    unfolding m using round_up [OF assms(2)] by auto
  then show "start \<le> at"
    using mins_mono(1) [OF assms(3) v] by simp
qed

lemma rewind_spec:
  "0 < stride \<Longrightarrow> opens \<le> t \<Longrightarrow>
   opens \<le> rewind stride opens t \<and> rewind stride opens t < opens + stride \<and>
   stride dvd t - rewind stride opens t"
proof (induction stride opens t rule: rewind.induct)
  case (1 stride opens t)
  show ?case
  proof (cases "opens \<le> t - stride")
    case True
    then have "rewind stride opens t = rewind stride opens (t - stride)"
      using "1.prems" by (subst rewind.simps) simp
    moreover have "stride dvd t - stride - rewind stride opens (t - stride)"
      using "1.IH" "1.prems" True by simp
    then have "stride dvd t - rewind stride opens (t - stride)"
      using dvd_add [OF _ dvd_refl, of stride "t - stride - rewind stride opens (t - stride)"]
      by (simp add: algebra_simps)
    ultimately show ?thesis
      using "1.IH" "1.prems" True by simp
  next
    case False
    then have "rewind stride opens t = t"
      by (subst rewind.simps) simp
    then show ?thesis
      using "1.prems" False by simp
  qed
qed

lemma slots_from_spec:
  "0 < stride \<Longrightarrow> x \<in> set (slots_from ok stride len closes t) \<longleftrightarrow>
     t \<le> x \<and> stride dvd x - t \<and> x + len \<le> closes \<and> ok x"
proof (induction ok stride len closes t rule: slots_from.induct)
  case (1 ok stride len closes t)
  show ?case
  proof (cases "t + len \<le> closes")
    case True
    have "x \<in> set (slots_from ok stride len closes t) \<longleftrightarrow>
      x = t \<and> ok t \<or> t + stride \<le> x \<and> stride dvd x - (t + stride) \<and> x + len \<le> closes \<and> ok x"
      using "1.IH" "1.prems" True by (subst slots_from.simps) auto
    also have "\<dots> \<longleftrightarrow> t \<le> x \<and> stride dvd x - t \<and> x + len \<le> closes \<and> ok x"
    proof -
      have "stride dvd x - (t + stride) \<longleftrightarrow> stride dvd x - t"
        using dvd_add_left_iff [of stride stride "x - (t + stride)"] by (simp add: algebra_simps)
      moreover have "t + stride \<le> x" if "t \<le> x" "x \<noteq> t" "stride dvd x - t"
        using zdvd_imp_le [OF that(3)] that by simp
      ultimately show ?thesis
        using True "1.prems" by auto
    qed
    finally show ?thesis .
  next
    case False
    then show ?thesis
      by (subst slots_from.simps) auto
  qed
qed

lemma slots_from_sorted: "0 < stride \<Longrightarrow> sorted_wrt (<) (slots_from ok stride len closes t)"
proof (induction ok stride len closes t rule: slots_from.induct)
  case (1 ok stride len closes t)
  show ?case
  proof (cases "t + len \<le> closes")
    case True
    have "t < x" if "x \<in> set (slots_from ok stride len closes (t + stride))" for x
      using that slots_from_spec [OF "1.prems"] "1.prems" by auto
    then show ?thesis
      using "1.IH" "1.prems" True by (subst slots_from.simps) auto
  next
    case False
    then show ?thesis
      by (subst slots_from.simps) simp
  qed
qed

section \<open>Which instants are offered\<close>

text \<open>The slot grid of a shift, when it has one: starts in step with its anchor, inside it.\<close>

definition on_grid :: "zone \<Rightarrow> int \<Rightarrow> int \<Rightarrow> day \<Rightarrow> time interval \<Rightarrow> instant \<Rightarrow> bool" where
  "on_grid zone step len d shift t \<longleftrightarrow>
     (\<exists>at. anchor (fst shift) step = Some at \<and>
       to_utc d (fst shift) zone < to_utc d (snd shift) zone \<and>
       step * minute_us dvd t - to_utc d at zone \<and>
       to_utc d (fst shift) zone \<le> t \<and> t + len \<le> to_utc d (snd shift) zone)"

lemma shift_slots_spec:
  assumes ok: "zone_ok zone" and step: "0 < step" and s: "valid_time (fst shift)"
  shows "t \<in> set (shift_slots ok zone step len d shift) \<longleftrightarrow> on_grid zone step len d shift t \<and> ok t"
proof (cases "anchor (fst shift) step")
  case None
  then show ?thesis by (simp add: shift_slots_def on_grid_def)
next
  case (Some at)
  let ?opens = "to_utc d (fst shift) zone" and ?at = "to_utc d at zone"
  let ?stride = "step * minute_us" and ?r = "rewind (step * minute_us) ?opens ?at"
  have "?opens \<le> ?at"
    using anchorD [OF Some step s] ok s by (intro utc_clock.same_day) auto
  then have r: "?opens \<le> ?r" "?r < ?opens + ?stride" "?stride dvd ?at - ?r"
    using rewind_spec [of ?stride ?opens ?at] step by auto
  have "?r \<le> t \<and> ?stride dvd t - ?r \<longleftrightarrow> ?opens \<le> t \<and> ?stride dvd t - ?at"
  proof -
    have dvd: "?stride dvd t - ?r \<longleftrightarrow> ?stride dvd t - ?at"
      using dvd_add_left_iff [OF r(3), of "t - ?at"] by simp
    have "?r \<le> t" if "?opens \<le> t" "?stride dvd t - ?r"
    proof (rule ccontr)
      assume "\<not> ?r \<le> t"
      then have "?stride \<le> ?r - t"
        using that(2) by (intro zdvd_imp_le) (auto simp: dvd_diff_commute)
      then show False using r that(1) by linarith
    qed
    then show ?thesis using dvd r(1) by auto
  qed
  then show ?thesis
    using Some step by (auto simp: shift_slots_def Let_def slots_from_spec on_grid_def)
qed

text \<open>What the reads give the engine (CHECK and EXCLUDE constraints, pydantic's bounds).\<close>

definition opening_ok :: "(nat \<times> time interval list) list \<Rightarrow> bool" where
  "opening_ok opening \<longleftrightarrow> (\<forall>(wd, shifts) \<in> set opening.
     separated shifts \<and> (\<forall>(s, e) \<in> set shifts. valid_time s \<and> valid_time e))"

definition booked_ok :: "booked list \<Rightarrow> bool" where
  "booked_ok booked \<longleftrightarrow> (\<forall>(s, e, ov) \<in> set booked. s < e \<and> (case ov of None \<Rightarrow> True | Some n \<Rightarrow> 0 \<le> n))"

lemma get_shifts_ok:
  assumes "opening_ok opening"
  shows "separated (get_shifts opening wd)"
    and "(s, e) \<in> set (get_shifts opening wd) \<Longrightarrow> valid_time s \<and> valid_time e"
proof -
  have "separated (get_shifts opening wd) \<and>
      ((s, e) \<in> set (get_shifts opening wd) \<longrightarrow> valid_time s \<and> valid_time e)"
  proof (cases "map_of opening wd")
    case None
    then show ?thesis by (simp add: get_shifts_def separated_def)
  next
    case (Some shifts)
    then show ?thesis
      using assms map_of_SomeD [OF Some] by (fastforce simp: get_shifts_def opening_ok_def)
  qed
  then show "separated (get_shifts opening wd)"
    "(s, e) \<in> set (get_shifts opening wd) \<Longrightarrow> valid_time s \<and> valid_time e"
    by auto
qed

lemma day_window_spec:
  assumes rows: "week_ok rows" and env: "opening_ok opening"
  shows "separated (day_window rows opening d)"
    and "(s, e) \<in> set (day_window rows opening d) \<Longrightarrow> valid_time s \<and> valid_time e"
    and "covers (day_window rows opening d) x \<longleftrightarrow>
           (\<exists>(wd, s, e) \<in> set rows. wd = isoweekday d \<and> s \<le> x \<and> x < e) \<and>
           (opening = [] \<or> covers (get_shifts opening (isoweekday d)) x)"
proof -
  note day = day_shifts_spec [OF rows, of "isoweekday d"]
  show "separated (day_window rows opening d)"
    using day(1) get_shifts_ok(1) [OF env] by (simp add: day_window_def Let_def separated_clip)
  show "valid_time s \<and> valid_time e" if "(s, e) \<in> set (day_window rows opening d)"
  proof (cases "opening = []")
    case True
    then show ?thesis
      using that day_shifts_valid [OF rows] by (auto simp: day_window_def Let_def)
  next
    case False
    then have "(s, e) \<in> set (clip (day_shifts rows (isoweekday d)) (get_shifts opening (isoweekday d)))"
      using that by (simp add: day_window_def Let_def)
    then obtain s1 e1 s2 e2 where "(s1, e1) \<in> set (day_shifts rows (isoweekday d))"
      "(s2, e2) \<in> set (get_shifts opening (isoweekday d))" "s = max s1 s2" "e = min e1 e2"
      unfolding in_clip by blast
    then show ?thesis
      using day_shifts_valid [OF rows] get_shifts_ok(2) [OF env] by (simp add: max_def min_def)
  qed
  show "covers (day_window rows opening d) x \<longleftrightarrow>
      (\<exists>(wd, s, e) \<in> set rows. wd = isoweekday d \<and> s \<le> x \<and> x < e) \<and>
      (opening = [] \<or> covers (get_shifts opening (isoweekday d)) x)"
    using day(2) [of x] by (simp add: day_window_def Let_def covers_clip)
qed

lemma proper_blocked_by:
  assumes "proper time_off" "booked_ok booked" "0 \<le> pct"
  shows "proper (blocked_by pct time_off booked)"
proof -
  have "s < e + buffer_for ((e - s) div minute_us) ov pct * minute_us"
    if "(s, e, ov) \<in> set booked" for s e ov
  proof -
    have se: "s < e" "\<And>n. ov = Some n \<Longrightarrow> 0 \<le> n"
      using that assms(2) by (auto simp: booked_ok_def split: option.splits)
    then have "0 \<le> (e - s) div minute_us"
      by (simp add: pos_imp_zdiv_nonneg_iff)
    then show ?thesis
      using buffer_for_nonneg [of "(e - s) div minute_us" pct ov] assms(3) se by simp
  qed
  then show ?thesis
    using assms(1) by (auto simp: blocked_by_def proper_def)
qed

definition free_for :: "instant interval list \<Rightarrow> booked list \<Rightarrow> int \<Rightarrow> int \<Rightarrow> int \<Rightarrow> instant \<Rightarrow> bool" where
  "free_for time_off booked duration buffer pct t \<longleftrightarrow>
     (\<forall>b \<in> set (blocked_by pct time_off booked). \<not> meets b (t, t + duration * minute_us)) \<and>
     (\<forall>(s, e, _) \<in> set booked. \<not> meets (s, e) (t, t + (duration + buffer) * minute_us))"

lemma window_slots_spec:
  assumes zone: "zone_ok zone" and rows: "week_ok rows" and env: "opening_ok opening"
    and step: "0 < step"
  shows "t \<in> set (concat (map (\<lambda>d. concat (map (shift_slots ok zone step len d)
             (day_window rows opening d))) [first..final])) \<longleftrightarrow>
           ok t \<and> (\<exists>d \<in> {first..final}. \<exists>shift \<in> set (day_window rows opening d).
             on_grid zone step len d shift t)"
proof -
  have "t \<in> set (shift_slots ok zone step len d shift) \<longleftrightarrow> on_grid zone step len d shift t \<and> ok t"
    if "shift \<in> set (day_window rows opening d)" for d shift
    using that day_window_spec(2) [OF rows env, of "fst shift" "snd shift" d]
    by (intro shift_slots_spec [OF zone step]) simp
  then show ?thesis
    by (simp add: Bex_def) blast
qed

lemma member_slots_spec:
  assumes zone: "zone_ok zone" and rows: "week_ok rows" and env: "opening_ok opening"
    and off: "proper time_off" and booked: "booked_ok booked"
    and pos: "0 < duration" "0 \<le> buffer" "0 \<le> pct" "0 < step"
  shows "t \<in> set (member_slots rows time_off booked opening zone first final duration buffer pct
             step earliest) \<longleftrightarrow>
           earliest \<le> t \<and> free_for time_off booked duration buffer pct t \<and>
           (\<exists>d \<in> {first..final}. \<exists>shift \<in> set (day_window rows opening d).
              on_grid zone step (duration * minute_us) d shift t)"
proof -
  let ?blocked = "blocked_by pct time_off booked" and ?ivs = "map (\<lambda>(s, e, _). (s, e)) booked"
  let ?ok = "\<lambda>t. earliest \<le> t \<and> \<not> overlaps (merged ?blocked) t (t + duration * minute_us) \<and>
    \<not> overlaps (merged ?ivs) t (t + (duration + buffer) * minute_us)"
  have "proper ?ivs"
    using booked by (auto simp: booked_ok_def proper_def)
  moreover have "(0 :: int) < (duration + buffer) * minute_us"
    using pos by simp
  ultimately have ok: "?ok t \<longleftrightarrow> earliest \<le> t \<and> free_for time_off booked duration buffer pct t" for t
    using proper_blocked_by [OF off booked pos(3)] pos(1)
      merged_index.free_iff [of ?blocked t "t + duration * minute_us"]
      merged_index.free_iff [of ?ivs t "t + (duration + buffer) * minute_us"]
    by (auto simp: free_for_def)
  show ?thesis
    unfolding member_slots_def Let_def window_slots_spec [OF zone rows env pos(4)] ok by blast
qed

lemma on_gridD:
  assumes "on_grid zone step len d shift t"
  shows "to_utc d (fst shift) zone \<le> t" "t + len \<le> to_utc d (snd shift) zone"
  using assms by (auto simp: on_grid_def)

lemma shift_slots_within:
  assumes "zone_ok zone" "0 < step" "valid_time (fst shift)"
    "t \<in> set (shift_slots ok zone step len d shift)"
  shows "to_utc d (fst shift) zone \<le> t" "t + len \<le> to_utc d (snd shift) zone"
  using on_gridD [of zone step len d shift t] assms by (simp_all add: shift_slots_spec)

lemma member_slots_sorted:
  assumes zone: "zone_ok zone" and rows: "week_ok rows" and env: "opening_ok opening"
    and pos: "0 < duration" "0 < step"
  shows "sorted_wrt (<) (member_slots rows time_off booked opening zone first final duration
           buffer pct step earliest)"
proof -
  let ?len = "duration * minute_us"
  have valid: "valid_time (fst sh)" "valid_time (snd sh)"
    if "sh \<in> set (day_window rows opening d)" for sh d
    using that day_window_spec(2) [OF rows env, of "fst sh" "snd sh" d] by simp_all
  have apart: "a < b" if a: "a \<in> set (shift_slots ok zone step ?len d1 sh1)"
    and b: "b \<in> set (shift_slots ok zone step ?len d2 sh2)"
    and sh: "sh1 \<in> set (day_window rows opening d1)" "sh2 \<in> set (day_window rows opening d2)"
    and le: "to_utc d1 (snd sh1) zone \<le> to_utc d2 (fst sh2) zone" for ok a b d1 d2 sh1 sh2
    using shift_slots_within(2) [OF zone pos(2) valid(1) [OF sh(1)] a]
      shift_slots_within(1) [OF zone pos(2) valid(1) [OF sh(2)] b] le pos(1) by linarith
  have per_shift: "sorted_wrt (<) (shift_slots ok zone step ?len d sh)" for ok d sh
    using pos(2) by (auto simp: shift_slots_def Let_def slots_from_sorted split: option.splits)
  have per_day: "sorted_wrt (<) (concat (map (shift_slots ok zone step ?len d) (day_window rows opening d)))"
    for ok d
  proof (rule sorted_wrt_concat_map [OF _ per_shift])
    show "sorted_wrt (\<lambda>a b. snd a < fst b) (day_window rows opening d)"
      using day_window_spec(1) [OF rows env] by (simp add: separated_def)
    fix sh1 sh2 a b
    assume h: "snd sh1 < fst sh2" "sh1 \<in> set (day_window rows opening d)"
      "sh2 \<in> set (day_window rows opening d)" "a \<in> set (shift_slots ok zone step ?len d sh1)"
      "b \<in> set (shift_slots ok zone step ?len d sh2)"
    show "a < b"
      by (rule apart [OF h(4,5,2,3) utc_clock.same_day [OF zone valid(2) [OF h(2)] valid(1) [OF h(3)]]])
        (use h(1) in simp)
  qed
  show ?thesis
    unfolding member_slots_def Let_def
  proof (rule sorted_wrt_concat_map [OF _ per_day])
    show "sorted_wrt (<) [first..final]"
      by simp
    fix d1 d2 a b ok
    assume h: "d1 < d2"
      "a \<in> set (concat (map (shift_slots ok zone step ?len d1) (day_window rows opening d1)))"
      "b \<in> set (concat (map (shift_slots ok zone step ?len d2) (day_window rows opening d2)))"
    then obtain sh1 sh2 where sh: "sh1 \<in> set (day_window rows opening d1)"
      "sh2 \<in> set (day_window rows opening d2)" "a \<in> set (shift_slots ok zone step ?len d1 sh1)"
      "b \<in> set (shift_slots ok zone step ?len d2 sh2)"
      by auto
    show "a < b"
      by (rule apart [OF sh(3,4,1,2) utc_clock.later_day [OF zone valid(2) [OF sh(1)] valid(1) [OF sh(2)] h(1)]])
  qed
qed

section \<open>Exactly these slots\<close>

text \<open>
  C28: The loops of member_slots compute exactly the instants on the grid of a shift window
  that are early enough, free of blocks and buffers and whose own buffer fits: none missing,
  none added.
\<close>

theorem member_slots_exact:
  assumes "zone_ok zone" and "week_ok rows" and "opening_ok opening"
    and "proper time_off" and "booked_ok booked"
    and "0 < duration" and "0 \<le> buffer" and "0 \<le> pct" and "0 < step"
  shows "t \<in> set (member_slots rows time_off booked opening zone first final duration buffer pct
           step earliest) \<longleftrightarrow>
         earliest \<le> t \<and> free_for time_off booked duration buffer pct t \<and>
         (\<exists>d \<in> {first..final}. \<exists>shift \<in> set (day_window rows opening d).
            on_grid zone step (duration * minute_us) d shift t)"
  by (rule member_slots_spec [OF assms])

theorem member_slots_exact_witness:
  "10 * hour_us \<in> set (member_slots [(4, Time 9 0, Time 13 0)] [] [(9 * hour_us, 10 * hour_us, None)]
     [(4, [(Time 8 0, Time 12 0)])] sample_zone 0 0 60 0 0 60 0)"
proof -
  have "zone_ok sample_zone" "week_ok [(4, Time 9 0, Time 13 0)]"
    "opening_ok [(4, [(Time 8 0, Time 12 0)])]" "booked_ok [(9 * hour_us, 10 * hour_us, None)]"
    by code_simp+
  moreover have "free_for [] [(9 * hour_us, 10 * hour_us, None)] 60 0 0 (10 * hour_us)"
    by code_simp
  moreover have "on_grid sample_zone 60 (60 * minute_us) 0 (Time 9 0, Time 12 0) (10 * hour_us)"
  proof -
    have "anchor (Time 9 0) 60 = Some (Time 9 0)" "to_utc 0 (Time 9 0) sample_zone = 9 * hour_us"
      "to_utc 0 (Time 12 0) sample_zone = 12 * hour_us"
      by code_simp+
    then show ?thesis by (simp add: on_grid_def)
  qed
  moreover have "(Time 9 0, Time 12 0) \<in> set (day_window [(4, Time 9 0, Time 13 0)]
      [(4, [(Time 8 0, Time 12 0)])] 0)"
    by code_simp
  ultimately show ?thesis
    using member_slots_exact [of sample_zone "[(4, Time 9 0, Time 13 0)]" "[(4, [(Time 8 0, Time 12 0)])]"
      "[]" "[(9 * hour_us, 10 * hour_us, None)]" 60 0 0 60 "10 * hour_us" 0 0 0]
    by auto
qed

end
