(* ===== verification/Offers.thy ===== *)
theory Offers
  imports Availability
begin

text \<open>
  The second half of \<open>backend/app/availability.py\<close>: \<open>offered\<close>, the one answer to "is this slot
  bookable" for several workers, \<open>compute\<close> and the two routes. Shows that what the reads leave out
  can never matter: an offered slot is free of every live booking of its worker in the table, not
  only of those the windowed read returned.
\<close>

section \<open>offered\<close>

type_synonym slots = "(uuid \<times> instant list) list"

definition offered ::
  "db \<Rightarrow> uuid list \<Rightarrow> (uuid \<times> row list) list \<Rightarrow> (nat \<times> time interval list) list \<Rightarrow> settings \<Rightarrow>
   day \<Rightarrow> day \<Rightarrow> instant \<Rightarrow> int \<Rightarrow> int \<Rightarrow> uuid option \<Rightarrow> slots \<times> booked_row list" where
  "offered d members hours opening g first final earliest duration buffer exclude =
     (if members = [] \<or> final < first then ([], [])
      else
        let zone = timezone g;
            start = to_utc (first - 1) (Time 0 0) zone;
            end = to_utc (final + 2) (Time 0 0) zone;
            rows = booked_rows d members start end exclude
        in (map (\<lambda>m. (m, member_slots (dict_list hours m)
                   (time_off_rows d m first final zone start end)
                   (map snd (filter (\<lambda>r. fst r = m) rows))
                   opening zone first final duration buffer (buffer_pct g) (slot_step_minutes g)
                   earliest)) members,
            rows))"

section \<open>compute and the routes\<close>

record availability_out =
  o_timezone :: zone
  o_duration_minutes :: int
  o_workers :: "(uuid \<times> string option) list"
  o_slots :: "instant list"
  o_slot_workers :: "nat list list"

definition compute ::
  "db \<Rightarrow> instant \<Rightarrow> service \<Rightarrow> uuid option \<Rightarrow> day \<Rightarrow> day \<Rightarrow> uuid option \<Rightarrow> availability_out" where
  "compute d clock service member since til exclude =
     (let g = settings_of d;
          (hours, names) = candidates d (s_id service) None;
          workers = sort (map fst hours);
          chosen = filter (\<lambda>m. member = None \<or> member = Some m) workers;
          (first, final, earliest) = window clock (timezone g) since til (min_notice_minutes g)
            (booking_horizon_days g);
          slots = (if chosen \<noteq> [] \<and> first \<le> final
            then fst (offered d chosen hours (envelope d) g first final earliest
                   (s_duration_minutes service)
                   (buffer_for (s_duration_minutes service) (s_buffer_minutes service) (buffer_pct g))
                   exclude)
            else []);
          order = sort (remdups (concat (map (dict_list slots) workers)))
      in \<lparr>o_timezone = timezone g, o_duration_minutes = s_duration_minutes service,
          o_workers = map (\<lambda>m. (m, dict_name names m)) workers,
          o_slots = order,
          o_slot_workers =
            map (\<lambda>t. [i. (i, m) \<leftarrow> enumerate 0 workers, t \<in> set (dict_list slots m)]) order\<rparr>)"

definition MAX_DAYS :: int where "MAX_DAYS = 14"

definition open_service :: "db \<Rightarrow> uuid \<Rightarrow> service option" where
  "open_service d s =
     first_row (filter (\<lambda>r. s_id r = s \<and> s_archived_at r = None) (services d))"

text \<open>\<open>limited\<close>: what \<open>limits.hit\<close> answered for the caller's address.\<close>

definition read_availability ::
  "db \<Rightarrow> instant \<Rightarrow> bool \<Rightarrow> uuid \<Rightarrow> day \<Rightarrow> day \<Rightarrow> uuid option \<Rightarrow> availability_out result" where
  "read_availability d clock limited service since til member =
     (if limited then Inl (ApiError 429 ''rate_limited'')
      else if til < since \<or> MAX_DAYS \<le> til - since then Inl (ApiError 422 ''invalid_range'')
      else case open_service d service of
        None \<Rightarrow> Inl (ApiError 404 ''not_found'')
      | Some s \<Rightarrow>
          if \<not> published (settings_of d) then Inl (ApiError 404 ''not_found'')
          else Inr (compute d clock s member since til None))"

definition worker_user_of :: "db \<Rightarrow> uuid \<Rightarrow> uuid option" where
  "worker_user_of d b =
     first_row [m_user r. x \<leftarrow> bookings d, r \<leftarrow> memberships d, b_id x = b, m_id r = b_worker x]"

definition read_merchant_availability ::
  "db \<Rightarrow> instant \<Rightarrow> signed_in \<Rightarrow> uuid \<Rightarrow> day \<Rightarrow> day \<Rightarrow> uuid option \<Rightarrow> uuid option \<Rightarrow>
   availability_out result" where
  "read_merchant_availability d clock current service since til member exclude =
     (if til < since \<or> MAX_DAYS \<le> til - since then Inl (ApiError 422 ''invalid_range'')
      else case open_service d service of
        None \<Rightarrow> Inl (ApiError 404 ''not_found'')
      | Some s \<Rightarrow>
          (case exclude of
             None \<Rightarrow> Inr (compute d clock s member since til None)
           | Some b \<Rightarrow>
               (case worker_user_of d b of
                  None \<Rightarrow> Inl (ApiError 404 ''not_found'')
                | Some u \<Rightarrow>
                    if may_manage current u then Inr (compute d clock s member since til exclude)
                    else Inl (ApiError 404 ''not_found''))))"

section \<open>What the constraints keep true of the tables the engine reads\<close>

definition services_ok :: "db \<Rightarrow> bool" where
  "services_ok d \<longleftrightarrow> distinct (map s_id (services d)) \<and>
     (\<forall>s \<in> set (services d). 5 \<le> s_duration_minutes s \<and> s_duration_minutes s \<le> 720 \<and>
        0 \<le> s_price_minor s \<and> s_price_minor s \<le> 1000000 \<and>
        (case s_buffer_minutes s of None \<Rightarrow> True | Some n \<Rightarrow> 0 \<le> n \<and> n \<le> 240))"

definition booking_ok :: "db \<Rightarrow> booking \<Rightarrow> bool" where
  "booking_ok d b \<longleftrightarrow> b_starts_at b < b_ends_at b \<and> b_ends_at b - b_starts_at b \<le> 12 * hour_us \<and>
     (b_status b \<in> set EXPIRING \<longrightarrow> b_expires_at b \<noteq> None) \<and>
     b_service b \<in> s_id ` set (services d)"

text \<open>
  The constraints on \<open>time_off\<close> (migrations 0019 and 0028): ends after its start, at most 366 days.
  That whole local days span some time is the zone's doing.
\<close>

definition blocks_ok :: "db \<Rightarrow> bool" where
  "blocks_ok d \<longleftrightarrow> (\<forall>t \<in> set (time_offs d).
     (case t_block t of Instants s e \<Rightarrow> e - s \<le> 366 * day_us | Days f l \<Rightarrow> f \<le> l \<and> l - f < 366) \<and>
     fst (block_span (timezone (settings_of d)) (t_block t)) <
     snd (block_span (timezone (settings_of d)) (t_block t)))"

definition tables_ok :: "db \<Rightarrow> bool" where
  "tables_ok d \<longleftrightarrow> zone_ok (timezone (settings_of d)) \<and> settings_ok (settings_of d) \<and>
     services_ok d \<and> blocks_ok d \<and> week_ok (opening_hours d) \<and>
     (\<forall>m \<in> fst ` set (working_hours d). week_ok (hours_of d m)) \<and>
     (\<forall>b \<in> set (bookings d). booking_ok d b) \<and>
     distinct (service_workers d) \<and> distinct (map m_id (memberships d)) \<and>
     (\<forall>r \<in> set (memberships d). case m_display_name r of
        None \<Rightarrow> True | Some t \<Rightarrow> 1 \<le> length t \<and> length t \<le> 60)"

lemma hours_ok: "tables_ok d \<Longrightarrow> week_ok (hours_of d m)"
proof (cases "m \<in> fst ` set (working_hours d)")
  case False
  then have "hours_of d m = []"
    by (force simp: hours_of_def filter_empty_conv)
  then show ?thesis by simp
next
  case True
  moreover assume "tables_ok d"
  ultimately show ?thesis unfolding tables_ok_def by blast
qed

lemma envelope_ok: "week_ok (opening_hours d) \<Longrightarrow> opening_ok (envelope d)"
  unfolding opening_ok_def
proof (intro ballI, clarify)
  fix wd shifts
  assume ok: "week_ok (opening_hours d)" and mem: "(wd, shifts) \<in> set (envelope d)"
  then have "shifts = day_shifts (opening_hours d) wd"
    by (auto simp: envelope_def by_weekday_def)
  then show "separated shifts \<and> (\<forall>(s, e) \<in> set shifts. valid_time s \<and> valid_time e)"
    using day_shifts_spec(1) [OF ok] day_shifts_valid [OF ok] by auto
qed

lemma booked_rows_mem:
  "(w, s, e, ov) \<in> set (booked_rows d ms start end ex) \<longleftrightarrow>
   (\<exists>b \<in> set (bookings d). \<exists>sv \<in> set (services d). s_id sv = b_service b \<and> b_worker b \<in> set ms \<and>
      occupies d start end ex b \<and> w = b_worker b \<and> s = b_starts_at b \<and> e = b_ends_at b \<and>
      ov = s_buffer_minutes sv)"
  by (auto simp: booked_rows_def)

lemma booked_rows_ok:
  assumes "tables_ok d"
  shows "booked_ok (map snd (filter (\<lambda>r. fst r = m) (booked_rows d ms start end ex)))"
proof -
  have "s < e \<and> (case ov of None \<Rightarrow> True | Some n \<Rightarrow> 0 \<le> n)"
    if "(w, s, e, ov) \<in> set (booked_rows d ms start end ex)" for w s e ov
    using that assms
    by (fastforce simp: booked_rows_mem tables_ok_def booking_ok_def services_ok_def
        split: option.splits)
  then show ?thesis
    by (fastforce simp: booked_ok_def)
qed

lemma time_off_rows_proper: "blocks_ok d \<Longrightarrow>
    proper (time_off_rows d m first final (timezone (settings_of d)) start end)"
  by (auto simp: proper_def time_off_rows_def blocks_ok_def case_prod_unfold)

text \<open>The candidates' hours are the workers' own rows, once per assignment.\<close>

lemma candidate_rows_mem:
  "(m, name, w) \<in> set (candidate_rows d service member) \<longleftrightarrow>
   (m, w) \<in> set (working_hours d) \<and> (service, m) \<in> set (service_workers d) \<and>
   (\<exists>r \<in> set (memberships d). m_id r = m \<and> m_role r \<noteq> Removed \<and> name = m_display_name r) \<and>
   (member = None \<or> member = Some m)"
proof
  assume r: "(m, w) \<in> set (working_hours d) \<and> (service, m) \<in> set (service_workers d) \<and>
    (\<exists>r \<in> set (memberships d). m_id r = m \<and> m_role r \<noteq> Removed \<and> name = m_display_name r) \<and>
    (member = None \<or> member = Some m)"
  then obtain r where "r \<in> set (memberships d)" "m_id r = m" "m_role r \<noteq> Removed"
    "name = m_display_name r" "(m, w) \<in> set (working_hours d)"
    "(service, m) \<in> set (service_workers d)" "member = None \<or> member = Some m"
    by blast
  then show "(m, name, w) \<in> set (candidate_rows d service member)"
    unfolding candidate_rows_def
    by (cases w) (auto intro!: bexI [of _ "(m, w)"] bexI [of _ "(service, m)"] bexI [of _ r])
qed (auto simp: candidate_rows_def)

lemma concat_one:
  "distinct xs \<Longrightarrow> x \<in> set xs \<Longrightarrow> (\<And>y. y \<in> set xs \<Longrightarrow> y \<noteq> x \<Longrightarrow> f y = []) \<Longrightarrow>
   concat (map f xs) = f x"
proof (induction xs)
  case (Cons a xs)
  show ?case
  proof (cases "a = x")
    case True
    then have "concat (map f xs) = []"
      using Cons.prems by auto
    then show ?thesis using True by simp
  qed (use Cons in auto)
qed simp

lemma map_filter_concat:
  "(\<And>x. map g (filter Q (F x)) = (if P x then [h x] else [])) \<Longrightarrow>
   map g (filter Q (concat (map F xs))) = map h (filter P xs)"
  by (induction xs) auto

lemma candidate_hours:
  assumes ok: "tables_ok d" and m: "m \<in> fst ` set (candidate_rows d s member)"
  shows "dict_list (fst (candidates d s member)) m = hours_of d m"
proof -
  let ?row = "\<lambda>m0 w x r. if snd x = m0 \<and> m_id r = m0 \<and> fst x = s \<and> m_role r \<noteq> Removed \<and>
      (member = None \<or> member = Some m0) then [(m0, m_display_name r, w)] else []"
  let ?join = "\<lambda>(m0, w). concat (map (\<lambda>x. concat (map (?row m0 w x) (memberships d)))
    (service_workers d))"
  have rows: "candidate_rows d s member = concat (map ?join (working_hours d))"
    by (simp add: candidate_rows_def case_prod_unfold)
  have dist: "distinct (service_workers d)" "distinct (map m_id (memberships d))"
    using ok by (auto simp: tables_ok_def)
  obtain name w0 where "(m, name, w0) \<in> set (candidate_rows d s member)"
    using m by auto
  then obtain r where sw: "(s, m) \<in> set (service_workers d)"
    and r: "r \<in> set (memberships d)" "m_id r = m" "m_role r \<noteq> Removed"
      "member = None \<or> member = Some m"
    by (auto simp: candidate_rows_mem)
  have other: "m_id y \<noteq> m" if "y \<in> set (memberships d)" "y \<noteq> r" for y
    using that dist(2) r by (auto simp: distinct_map dest: inj_onD)
  have own: "?join (m, w) = [(m, m_display_name r, w)]" for w
  proof -
    have "?join (m, w) = concat (map (?row m w (s, m)) (memberships d))"
      unfolding prod.case by (rule concat_one [OF dist(1) sw]) auto
    also have "\<dots> = ?row m w (s, m) r"
      by (rule concat_one) (use dist(2) r other in \<open>auto simp: distinct_map\<close>)
    finally show ?thesis using r by simp
  qed
  have per: "map (snd \<circ> snd) (filter (\<lambda>r. fst r = m) (?join x)) =
      (if fst x = m then [snd x] else [])" for x
  proof (cases "fst x = m")
    case True
    then obtain w where x: "x = (m, w)" by (cases x) simp
    show ?thesis
      unfolding x own by simp
  qed (auto simp: filter_empty_conv split: prod.splits if_splits)
  have "map (snd \<circ> snd) (filter (\<lambda>r. fst r = m) (candidate_rows d s member)) = hours_of d m"
    unfolding rows hours_of_def by (rule map_filter_concat [OF per])
  moreover have "map_of (map (\<lambda>m. (m, map (snd \<circ> snd) (filter (\<lambda>r. fst r = m) rs)))
      (remdups (map fst rs))) m = Some (map (snd \<circ> snd) (filter (\<lambda>r. fst r = m) rs))"
    if "m \<in> fst ` set rs" for rs :: "(uuid \<times> string option \<times> row) list"
    using that by (simp add: map_of_map_restrict)
  ultimately show ?thesis
    using m by (simp add: candidates_def Let_def dict_list_def)
qed

section \<open>What is offered\<close>

text \<open>The bookings that count: occupying, and a provisional hold only while it lasts.\<close>

definition counts :: "db \<Rightarrow> uuid option \<Rightarrow> booking \<Rightarrow> bool" where
  "counts d exclude b \<longleftrightarrow> b_status b \<in> set OCCUPYING \<and>
     (b_status b \<notin> set EXPIRING \<or> unexpired d b) \<and> exclude \<noteq> Some (b_id b)"

text \<open>The minutes a booking's buffer adds after it: its service's, or the percentage of its length.\<close>

definition buffer_after :: "db \<Rightarrow> booking \<Rightarrow> int" where
  "buffer_after d b = buffer_for ((b_ends_at b - b_starts_at b) div minute_us)
     (case first_row (filter (\<lambda>s. s_id s = b_service b) (services d)) of
        None \<Rightarrow> None | Some s \<Rightarrow> s_buffer_minutes s) (buffer_pct (settings_of d))"

text \<open>
  The padding of the read: the local days before the first and after the last are at least twelve
  hours long. (A zone that drops a whole date, as Samoa did once, breaks this on that date.)
\<close>

definition padded :: "zone \<Rightarrow> day \<Rightarrow> day \<Rightarrow> bool" where
  "padded z first final \<longleftrightarrow>
     to_utc (first - 1) (Time 0 0) z + 12 * hour_us \<le> to_utc first (Time 0 0) z \<and>
     to_utc (final + 1) (Time 0 0) z + 12 * hour_us \<le> to_utc (final + 2) (Time 0 0) z"

lemma buffer_for_le:
  assumes "duration \<le> 720" "0 \<le> duration" "0 \<le> pct" "pct \<le> 100" "\<And>n. ov = Some n \<Longrightarrow> n \<le> 240"
  shows "buffer_for duration ov pct \<le> 720"
proof (cases ov)
  case None
  have "duration * pct \<le> 720 * 100"
    using assms by (intro mult_mono) auto
  then have "100 * (buffer_for duration None pct - 1) < 72000"
    using buffer_for_None(2) [of duration pct] by linarith
  with None show ?thesis by simp
qed (use assms(5) in \<open>force simp: buffer_for_def\<close>)

lemma on_grid_window:
  assumes zone: "zone_ok z" and rows: "week_ok rows" and env: "opening_ok opening"
    and d: "d \<in> {first..final}" and shift: "shift \<in> set (day_window rows opening d)"
    and grid: "on_grid z step len d shift t"
  shows "to_utc first (Time 0 0) z \<le> t" "t + len \<le> to_utc (final + 1) (Time 0 0) z"
proof -
  have v: "valid_time (fst shift)" "valid_time (snd shift)"
    using day_window_spec(2) [OF rows env, of "fst shift" "snd shift" d] shift by auto
  have zero: "valid_time (Time 0 0)"
    by (simp add: valid_time_def)
  have "to_utc first (Time 0 0) z \<le> to_utc d (fst shift) z"
    using d by (intro to_utc_mono [OF zone])
      (use mins_range [OF v(1)] in \<open>auto simp: wall_def mins_def intro!: add_mono\<close>)
  then show "to_utc first (Time 0 0) z \<le> t"
    using on_gridD(1) [OF grid] by linarith
  have "to_utc d (snd shift) z \<le> to_utc (final + 1) (Time 0 0) z"
    using d by (intro utc_clock.later_day [OF zone v(2) zero]) auto
  then show "t + len \<le> to_utc (final + 1) (Time 0 0) z"
    using on_gridD(2) [OF grid] by linarith
qed

lemma offered_mem:
  assumes ok: "tables_ok d" and rows: "week_ok (dict_list hours m)"
    and pos: "0 < duration" "0 \<le> buffer"
    and mem: "(m, slots) \<in> set (fst (offered d members hours (envelope d) (settings_of d) first final
      earliest duration buffer exclude))"
  defines "z \<equiv> timezone (settings_of d)"
  shows "m \<in> set members" "first \<le> final" "sorted_wrt (<) slots"
    and "t \<in> set slots \<longleftrightarrow> earliest \<le> t \<and>
      free_for (time_off_rows d m first final z (to_utc (first - 1) (Time 0 0) z)
          (to_utc (final + 2) (Time 0 0) z))
        (map snd (filter (\<lambda>r. fst r = m) (booked_rows d members (to_utc (first - 1) (Time 0 0) z)
          (to_utc (final + 2) (Time 0 0) z) exclude)))
        duration buffer (buffer_pct (settings_of d)) t \<and>
      (\<exists>day \<in> {first..final}. \<exists>shift \<in> set (day_window (dict_list hours m) (envelope d) day).
         on_grid z (slot_step_minutes (settings_of d)) (duration * minute_us) day shift t)"
proof -
  have g: "zone_ok z" "opening_ok (envelope d)" "blocks_ok d" "0 \<le> buffer_pct (settings_of d)"
    "0 < slot_step_minutes (settings_of d)"
    using ok envelope_ok by (auto simp: tables_ok_def settings_ok_def z_def)
  have "members \<noteq> []" and le: "first \<le> final" and m: "m \<in> set members"
    and slots: "slots = member_slots (dict_list hours m)
      (time_off_rows d m first final z (to_utc (first - 1) (Time 0 0) z)
          (to_utc (final + 2) (Time 0 0) z))
      (map snd (filter (\<lambda>r. fst r = m) (booked_rows d members (to_utc (first - 1) (Time 0 0) z)
          (to_utc (final + 2) (Time 0 0) z) exclude)))
      (envelope d) z first final duration buffer (buffer_pct (settings_of d))
      (slot_step_minutes (settings_of d)) earliest"
    using mem by (auto simp: offered_def Let_def z_def split: if_splits)
  show "m \<in> set members" "first \<le> final" by (rule m, rule le)
  show "sorted_wrt (<) slots"
    unfolding slots by (rule member_slots_sorted [OF g(1) rows g(2) pos(1) g(5)])
  show "t \<in> set slots \<longleftrightarrow> earliest \<le> t \<and>
      free_for (time_off_rows d m first final z (to_utc (first - 1) (Time 0 0) z)
          (to_utc (final + 2) (Time 0 0) z))
        (map snd (filter (\<lambda>r. fst r = m) (booked_rows d members (to_utc (first - 1) (Time 0 0) z)
          (to_utc (final + 2) (Time 0 0) z) exclude)))
        duration buffer (buffer_pct (settings_of d)) t \<and>
      (\<exists>day \<in> {first..final}. \<exists>shift \<in> set (day_window (dict_list hours m) (envelope d) day).
         on_grid z (slot_step_minutes (settings_of d)) (duration * minute_us) day shift t)"
    unfolding slots
    by (rule member_slots_spec [OF g(1) rows g(2) time_off_rows_proper [OF g(3), folded z_def]
        booked_rows_ok [OF ok] pos g(4,5)])
qed

lemma offered_window:
  assumes "tables_ok d" "week_ok (dict_list hours m)" "0 < duration" "0 \<le> buffer"
    and "(m, slots) \<in> set (fst (offered d members hours (envelope d) (settings_of d) first final
      earliest duration buffer exclude))" and "t \<in> set slots"
  defines "z \<equiv> timezone (settings_of d)"
  shows "to_utc first (Time 0 0) z \<le> t"
    and "t + duration * minute_us \<le> to_utc (final + 1) (Time 0 0) z"
proof -
  obtain day shift where "day \<in> {first..final}"
    "shift \<in> set (day_window (dict_list hours m) (envelope d) day)"
    "on_grid z (slot_step_minutes (settings_of d)) (duration * minute_us) day shift t"
    using offered_mem(4) [OF assms(1-5), of t] assms(6) unfolding z_def by blast
  then show "to_utc first (Time 0 0) z \<le> t"
    and "t + duration * minute_us \<le> to_utc (final + 1) (Time 0 0) z"
    using on_grid_window [OF _ assms(2) envelope_ok, of z d day first final shift] assms(1)
    by (auto simp: tables_ok_def z_def)
qed

lemma offered_free_of_bookings:
  assumes ok: "tables_ok d" and rows: "week_ok (dict_list hours m)"
    and pos: "0 < duration" "0 \<le> buffer" "buffer \<le> 720"
    and mem: "(m, slots) \<in> set (fst (offered d members hours (envelope d) (settings_of d) first final
      earliest duration buffer exclude))" and t: "t \<in> set slots"
    and pad: "padded (timezone (settings_of d)) first final"
    and b: "b \<in> set (bookings d)" "b_worker b = m" "counts d exclude b"
  shows "\<not> meets (b_starts_at b, b_ends_at b + buffer_after d b * minute_us)
             (t, t + duration * minute_us)"
    and "\<not> meets (b_starts_at b, b_ends_at b) (t, t + (duration + buffer) * minute_us)"
proof -
  let ?z = "timezone (settings_of d)" and ?pct = "buffer_pct (settings_of d)"
  let ?since = "to_utc (first - 1) (Time 0 0) ?z" and ?stop = "to_utc (final + 2) (Time 0 0) ?z"
  let ?rows = "map snd (filter (\<lambda>r. fst r = m) (booked_rows d members ?since ?stop exclude))"
  note mem' = offered_mem [OF ok rows pos(1,2) mem]
  note win = offered_window [OF ok rows pos(1,2) mem t]
  have bok: "booking_ok d b" "0 \<le> ?pct" "?pct \<le> 100"
    using ok b(1) by (auto simp: tables_ok_def settings_ok_def)
  have "first_row (filter (\<lambda>s. s_id s = b_service b) (services d)) \<noteq> None"
    using bok(1) by (auto simp: booking_ok_def filter_empty_conv image_iff)
  then obtain s where fr: "first_row (filter (\<lambda>s. s_id s = b_service b) (services d)) = Some s"
    by blast
  then have s: "s \<in> set (services d)" "s_id s = b_service b"
    using first_row_filterD by fastforce+
  have ov: "n \<le> 240" if "s_buffer_minutes s = Some n" for n
    using ok s(1) that by (fastforce simp: tables_ok_def services_ok_def)
  have len: "0 < b_ends_at b - b_starts_at b" "b_ends_at b - b_starts_at b \<le> 12 * hour_us"
    using bok(1) by (auto simp: booking_ok_def)
  have buf: "buffer_after d b \<le> 720"
    unfolding buffer_after_def fr using len bok ov by (auto intro!: buffer_for_le)
  have free: "free_for (time_off_rows d m first final ?z ?since ?stop) ?rows duration buffer ?pct t"
    using mem'(4) t by blast
  consider "?stop \<le> b_starts_at b" | "b_ends_at b \<le> ?since" | "occupies d ?since ?stop exclude b"
    using b(3) len(2) by (fastforce simp: occupies_def counts_def)
  then have "\<not> meets (b_starts_at b, b_ends_at b + buffer_after d b * minute_us)
             (t, t + duration * minute_us) \<and>
    \<not> meets (b_starts_at b, b_ends_at b) (t, t + (duration + buffer) * minute_us)"
  proof cases
    case 3
    then have r: "(b_starts_at b, b_ends_at b, s_buffer_minutes s) \<in> set ?rows"
      using b(1,2) s mem'(1) by (force simp: booked_rows_mem image_iff)
    then have "(b_starts_at b, b_ends_at b + buffer_after d b * minute_us) \<in>
        set (blocked_by ?pct (time_off_rows d m first final ?z ?since ?stop) ?rows)"
      by (force simp: blocked_by_def buffer_after_def fr)
    then show ?thesis
      using free r unfolding free_for_def by blast
  qed (use win pad pos buf in \<open>auto simp: meets_def padded_def algebra_simps\<close>)
  then show "\<not> meets (b_starts_at b, b_ends_at b + buffer_after d b * minute_us)
             (t, t + duration * minute_us)"
    and "\<not> meets (b_starts_at b, b_ends_at b) (t, t + (duration + buffer) * minute_us)"
    by blast+
qed

lemma offered_free_of_blocks:
  assumes ok: "tables_ok d" and rows: "week_ok (dict_list hours m)"
    and pos: "0 < duration" "0 \<le> buffer"
    and mem: "(m, slots) \<in> set (fst (offered d members hours (envelope d) (settings_of d) first final
      earliest duration buffer exclude))" and t: "t \<in> set slots"
    and pad: "padded (timezone (settings_of d)) first final"
    and off: "off \<in> set (time_offs d)" "t_member off = m"
  shows "\<not> meets (block_span (timezone (settings_of d)) (t_block off)) (t, t + duration * minute_us)"
proof -
  let ?z = "timezone (settings_of d)" and ?pct = "buffer_pct (settings_of d)"
  let ?since = "to_utc (first - 1) (Time 0 0) ?z" and ?stop = "to_utc (final + 2) (Time 0 0) ?z"
  let ?read = "case t_block off of
      Instants s e \<Rightarrow> s < ?stop \<and> ?since < e \<and> ?since - 366 * day_us < s
    | Days f l \<Rightarrow> f \<le> final \<and> first \<le> l \<and> first - 366 < f"
  note mem' = offered_mem [OF ok rows pos mem]
  note win = offered_window [OF ok rows pos mem t]
  have z: "zone_ok ?z" and size: "case t_block off of Instants s e \<Rightarrow> e - s \<le> 366 * day_us
      | Days f l \<Rightarrow> f \<le> l \<and> l - f < 366"
    using ok off(1) by (auto simp: tables_ok_def blocks_ok_def)
  show ?thesis
  proof (cases ?read)
    case True
    then have "block_span ?z (t_block off) \<in> set (time_off_rows d m first final ?z ?since ?stop)"
      using off by (auto simp: time_off_rows_def)
    then show ?thesis
      using mem'(4) t unfolding free_for_def blocked_by_def by auto
  next
    case False
    show ?thesis
    proof (cases "t_block off")
      case (Instants s e)
      then show ?thesis
        using False size win pad by (auto simp: meets_def padded_def block_span_def)
    next
      case (Days f l)
      then have "l < first \<or> final < f"
        using False size by auto
      moreover have "to_utc (l + 1) (Time 0 0) ?z \<le> to_utc first (Time 0 0) ?z" if "l < first"
        using that by (intro to_utc_mono [OF z]) (simp add: wall_def)
      moreover have "to_utc (final + 1) (Time 0 0) ?z \<le> to_utc f (Time 0 0) ?z" if "final < f"
        using that by (intro to_utc_mono [OF z]) (simp add: wall_def)
      ultimately show ?thesis
        using win Days by (auto simp: meets_def block_span_def day_span_def)
    qed
  qed
qed

text \<open>A shift inside the hours: every wall clock reading of it is worked, and open.\<close>

definition in_hours :: "db \<Rightarrow> uuid \<Rightarrow> day \<Rightarrow> time interval \<Rightarrow> bool" where
  "in_hours d m day shift \<longleftrightarrow>
     (\<forall>x. fst shift \<le> x \<and> x < snd shift \<longrightarrow>
        (\<exists>(wd, s, e) \<in> set (hours_of d m). wd = isoweekday day \<and> s \<le> x \<and> x < e) \<and>
        (opening_hours d = [] \<or>
         (\<exists>(wd, s, e) \<in> set (opening_hours d). wd = isoweekday day \<and> s \<le> x \<and> x < e)))"

lemma covers_envelope:
  assumes "week_ok (opening_hours d)"
  shows "covers (get_shifts (envelope d) wd) x \<longleftrightarrow>
    (\<exists>(wd', s, e) \<in> set (opening_hours d). wd' = wd \<and> s \<le> x \<and> x < e)"
  using day_shifts_spec(2) [OF assms] by (force simp: get_shifts_envelope)

lemma envelope_Nil: "envelope d = [] \<longleftrightarrow> opening_hours d = []"
  by (simp add: envelope_def by_weekday_def)

lemma day_window_in_hours:
  assumes ok: "tables_ok d" and shift: "shift \<in> set (day_window (hours_of d m) (envelope d) day)"
  shows "in_hours d m day shift"
  unfolding in_hours_def
proof (intro allI impI)
  fix x assume "fst shift \<le> x \<and> x < snd shift"
  then have "covers (day_window (hours_of d m) (envelope d) day) x"
    using shift by (cases shift) (force simp: covers_def)
  moreover have "week_ok (opening_hours d)"
    using ok by (simp add: tables_ok_def)
  ultimately show "(\<exists>(wd, s, e) \<in> set (hours_of d m). wd = isoweekday day \<and> s \<le> x \<and> x < e) \<and>
        (opening_hours d = [] \<or>
         (\<exists>(wd, s, e) \<in> set (opening_hours d). wd = isoweekday day \<and> s \<le> x \<and> x < e))"
    using day_window_spec(3) [OF hours_ok [OF ok] envelope_ok, of d m day x]
    by (simp add: covers_envelope envelope_Nil)
qed

lemma offered_in_hours:
  assumes ok: "tables_ok d" and rows: "dict_list hours m = hours_of d m"
    and pos: "0 < duration" "0 \<le> buffer"
    and mem: "(m, slots) \<in> set (fst (offered d members hours (envelope d) (settings_of d) first final
      earliest duration buffer exclude))" and t: "t \<in> set slots"
  shows "\<exists>day \<in> {first..final}. \<exists>shift. in_hours d m day shift \<and>
    on_grid (timezone (settings_of d)) (slot_step_minutes (settings_of d)) (duration * minute_us)
      day shift t"
proof -
  have week: "week_ok (dict_list hours m)"
    using hours_ok [OF ok] by (simp add: rows)
  obtain day shift where ds: "day \<in> {first..final}"
    "shift \<in> set (day_window (hours_of d m) (envelope d) day)"
    "on_grid (timezone (settings_of d)) (slot_step_minutes (settings_of d)) (duration * minute_us)
       day shift t"
    using offered_mem(4) [OF ok week pos mem, of t] t unfolding rows by blast
  show ?thesis
    using day_window_in_hours [OF ok ds(2)] ds(1,3) by blast
qed

section \<open>What compute answers\<close>

text \<open>The worker a slot index stands for.\<close>

definition takers :: "availability_out \<Rightarrow> nat \<Rightarrow> uuid list" where
  "takers a k = map (\<lambda>i. fst (o_workers a ! i)) (o_slot_workers a ! k)"

definition compute_offers ::
  "db \<Rightarrow> instant \<Rightarrow> service \<Rightarrow> uuid option \<Rightarrow> day \<Rightarrow> day \<Rightarrow> uuid option \<Rightarrow> slots" where
  "compute_offers d clock service member since til exclude =
     (let g = settings_of d; hours = fst (candidates d (s_id service) None);
          chosen = filter (\<lambda>m. member = None \<or> member = Some m) (sort (map fst hours));
          w = window clock (timezone g) since til (min_notice_minutes g) (booking_horizon_days g)
      in fst (offered d chosen hours (envelope d) g (fst w) (fst (snd w)) (snd (snd w))
           (s_duration_minutes service)
           (buffer_for (s_duration_minutes service) (s_buffer_minutes service) (buffer_pct g))
           exclude))"

lemma enumerate_indices:
  "i \<in> set [i. (i, m) \<leftarrow> enumerate 0 ws, P m] \<longleftrightarrow> i < length ws \<and> P (ws ! i)"
  by (force simp: in_set_enumerate_eq)

lemma sorted_filter_indices:
  "sorted_wrt (<) [i. (i, m) \<leftarrow> enumerate k ws, P m]"
proof (induction ws arbitrary: k)
  case (Cons w ws)
  have "Suc k \<le> i" if "i \<in> set [i. (i, m) \<leftarrow> enumerate (Suc k) ws, P m]" for i
    using that by (auto simp: in_set_enumerate_eq split: if_splits)
  then have "\<forall>i \<in> set [i. (i, m) \<leftarrow> enumerate (Suc k) ws, P m]. k < i"
    by (meson Suc_le_lessD)
  then show ?case using Cons.IH [of "Suc k"] by simp
qed simp

lemma compute_fields:
  assumes "compute d clock service member since til exclude = a"
  defines "ws \<equiv> sort (map fst (fst (candidates d (s_id service) None)))"
    and "slots \<equiv> compute_offers d clock service member since til exclude"
  shows "map fst (o_workers a) = ws"
    and "o_slots a = sort (remdups (concat (map (dict_list slots) ws)))"
    and "o_slot_workers a =
      map (\<lambda>t. [i. (i, m) \<leftarrow> enumerate 0 ws, t \<in> set (dict_list slots m)]) (o_slots a)"
proof -
  have empty: "fst (offered d chosen hours env g first final earliest duration buffer ex) = []"
    if "\<not> (chosen \<noteq> [] \<and> first \<le> final)"
    for chosen hours env g first final earliest duration buffer ex
    using that by (auto simp: offered_def)
  have eq: "a = \<lparr>o_timezone = timezone (settings_of d),
      o_duration_minutes = s_duration_minutes service,
      o_workers = map (\<lambda>m. (m, dict_name (snd (candidates d (s_id service) None)) m)) ws,
      o_slots = sort (remdups (concat (map (dict_list slots) ws))),
      o_slot_workers = map (\<lambda>t. [i. (i, m) \<leftarrow> enumerate 0 ws, t \<in> set (dict_list slots m)])
        (sort (remdups (concat (map (dict_list slots) ws))))\<rparr>"
    unfolding assms(1) [symmetric] compute_def slots_def compute_offers_def ws_def
    by (auto simp: Let_def case_prod_unfold empty)
  show "map fst (o_workers a) = ws" "o_slots a = sort (remdups (concat (map (dict_list slots) ws)))"
    "o_slot_workers a =
      map (\<lambda>t. [i. (i, m) \<leftarrow> enumerate 0 ws, t \<in> set (dict_list slots m)]) (o_slots a)"
    unfolding eq by (simp_all add: comp_def)
qed

lemma open_serviceD:
  "open_service d i = Some s \<Longrightarrow> s \<in> set (services d) \<and> s_id s = i \<and> s_archived_at s = None"
  unfolding open_service_def using first_row_filterD [of _ "services d" s] by fastforce

lemma service_bounds:
  assumes "tables_ok d" "s \<in> set (services d)"
  shows "5 \<le> s_duration_minutes s" "s_duration_minutes s \<le> 720"
    "0 \<le> s_price_minor s" "s_price_minor s \<le> 1000000"
    "0 \<le> buffer_for (s_duration_minutes s) (s_buffer_minutes s) (buffer_pct (settings_of d))"
    "buffer_for (s_duration_minutes s) (s_buffer_minutes s) (buffer_pct (settings_of d)) \<le> 720"
proof -
  have s: "5 \<le> s_duration_minutes s" "s_duration_minutes s \<le> 720"
    "0 \<le> s_price_minor s" "s_price_minor s \<le> 1000000"
    "\<And>n. s_buffer_minutes s = Some n \<Longrightarrow> 0 \<le> n \<and> n \<le> 240"
    and pct: "0 \<le> buffer_pct (settings_of d)" "buffer_pct (settings_of d) \<le> 100"
    using assms by (fastforce simp: tables_ok_def services_ok_def settings_ok_def)+
  then show "5 \<le> s_duration_minutes s" "s_duration_minutes s \<le> 720"
    "0 \<le> s_price_minor s" "s_price_minor s \<le> 1000000"
    by blast+
  show "0 \<le> buffer_for (s_duration_minutes s) (s_buffer_minutes s) (buffer_pct (settings_of d))"
    by (rule buffer_for_nonneg) (use s pct in auto)
  show "buffer_for (s_duration_minutes s) (s_buffer_minutes s) (buffer_pct (settings_of d)) \<le> 720"
    by (rule buffer_for_le) (use s pct in auto)
qed

lemma dict_listD: "x \<in> set (dict_list dict k) \<Longrightarrow> \<exists>v. (k, v) \<in> set dict \<and> x \<in> set v"
  by (cases "map_of dict k") (auto simp: dict_list_def dest: map_of_SomeD)

lemma compute_taker:
  assumes a: "compute d clock service member since til exclude = a"
    and k: "k < length (o_slots a)" and m: "m \<in> set (takers a k)"
  defines "ws \<equiv> sort (map fst (fst (candidates d (s_id service) None)))"
  shows "m \<in> set ws"
    "o_slots a ! k \<in> set (dict_list (compute_offers d clock service member since til exclude) m)"
proof -
  note f = compute_fields [OF a, folded ws_def]
  obtain i where i: "i \<in> set (o_slot_workers a ! k)" "m = fst (o_workers a ! i)"
    using m by (auto simp: takers_def)
  have "o_slot_workers a ! k = [i. (i, m) \<leftarrow> enumerate 0 ws, o_slots a ! k \<in>
      set (dict_list (compute_offers d clock service member since til exclude) m)]"
    using k by (simp add: f(3))
  then have *: "i < length ws" "o_slots a ! k \<in>
      set (dict_list (compute_offers d clock service member since til exclude) (ws ! i))"
    using i(1) enumerate_indices by metis+
  have "length ws = length (o_workers a)" using f(1) [symmetric] by simp
  then have "m = ws ! i" using i(2) f(1) *(1) by (metis nth_map)
  then show "m \<in> set ws"
    "o_slots a ! k \<in> set (dict_list (compute_offers d clock service member since til exclude) m)"
    using * by auto
qed

lemma compute_slots:
  assumes a: "compute d clock service member since til exclude = a"
  shows "sorted_wrt (<) (o_slots a)" "length (o_slot_workers a) = length (o_slots a)"
    "set (o_slots a) = (\<Union>m \<in> fst ` set (o_workers a).
       set (dict_list (compute_offers d clock service member since til exclude) m))"
proof -
  note f = compute_fields [OF a]
  show "sorted_wrt (<) (o_slots a)" unfolding f(2) by (simp add: strict_sorted_iff)
  show "length (o_slot_workers a) = length (o_slots a)" unfolding f(3) by simp
  have ws: "fst ` set (o_workers a) = set (sort (map fst (fst (candidates d (s_id service) None))))"
    using f(1) by (metis set_map)
  show "set (o_slots a) = (\<Union>m \<in> fst ` set (o_workers a).
       set (dict_list (compute_offers d clock service member since til exclude) m))"
    unfolding ws f(2) by simp
qed

lemma compute_takers:
  assumes a: "compute d clock service member since til exclude = a" and k: "k < length (o_slots a)"
  shows "set (takers a k) = {m \<in> fst ` set (o_workers a). o_slots a ! k \<in>
       set (dict_list (compute_offers d clock service member since til exclude) m)}"
    and "takers a k \<noteq> []"
proof -
  note f = compute_fields [OF a]
  let ?ws = "sort (map fst (fst (candidates d (s_id service) None)))"
  let ?S = "\<lambda>m. set (dict_list (compute_offers d clock service member since til exclude) m)"
  have sw: "o_slot_workers a ! k = [i. (i, m) \<leftarrow> enumerate 0 ?ws, o_slots a ! k \<in> ?S m]"
    using k by (simp add: f(3))
  have nth: "fst (o_workers a ! i) = ?ws ! i" if "i < length ?ws" for i
    using that f(1) by (metis length_map nth_map)
  have ws: "fst ` set (o_workers a) = set ?ws" using f(1) by (metis set_map)
  show eq: "set (takers a k) = {m \<in> fst ` set (o_workers a). o_slots a ! k \<in> ?S m}"
  proof (intro set_eqI iffI)
    fix m assume "m \<in> set (takers a k)"
    then show "m \<in> {m \<in> fst ` set (o_workers a). o_slots a ! k \<in> ?S m}"
      using compute_taker [OF a k] ws by simp
  next
    fix m assume "m \<in> {m \<in> fst ` set (o_workers a). o_slots a ! k \<in> ?S m}"
    then have m: "m \<in> set ?ws" "o_slots a ! k \<in> ?S m" using ws by auto
    obtain i where i: "i < length ?ws" "m = ?ws ! i" using m(1) by (metis in_set_conv_nth)
    have "i \<in> set (o_slot_workers a ! k)" using i m(2) unfolding sw enumerate_indices by simp
    then show "m \<in> set (takers a k)" using nth [OF i(1)] i(2) by (force simp: takers_def)
  qed
  have "o_slots a ! k \<in> set (o_slots a)" using k by simp
  then obtain m where "m \<in> set (takers a k)" unfolding compute_slots(3) [OF a] eq by blast
  then show "takers a k \<noteq> []" by auto
qed

text \<open>What \<open>compute\<close> offers of one worker is what \<open>offered\<close> answers, over that worker's own hours.\<close>

lemma compute_offered:
  assumes ok: "tables_ok d" and mem: "t \<in> set (dict_list (compute_offers d clock s member since til exclude) m)"
    and w: "window clock (timezone (settings_of d)) since til (min_notice_minutes (settings_of d))
      (booking_horizon_days (settings_of d)) = (first, final, earliest)"
  obtains ms hours slots where
    "(m, slots) \<in> set (fst (offered d ms hours (envelope d) (settings_of d) first final earliest
       (s_duration_minutes s)
       (buffer_for (s_duration_minutes s) (s_buffer_minutes s) (buffer_pct (settings_of d))) exclude))"
    "t \<in> set slots" "dict_list hours m = hours_of d m"
    "m \<in> fst ` set (candidate_rows d (s_id s) None)" "member = None \<or> member = Some m"
proof -
  let ?h = "fst (candidates d (s_id s) None)"
  let ?ms = "filter (\<lambda>m. member = None \<or> member = Some m) (sort (map fst ?h))"
  let ?o = "fst (offered d ?ms ?h (envelope d) (settings_of d) first final earliest (s_duration_minutes s)
      (buffer_for (s_duration_minutes s) (s_buffer_minutes s) (buffer_pct (settings_of d))) exclude)"
  have co: "compute_offers d clock s member since til exclude = ?o"
    unfolding compute_offers_def Let_def w by simp
  obtain slots where s: "(m, slots) \<in> set ?o" "t \<in> set slots"
    using dict_listD [OF mem] unfolding co by blast
  have "m \<in> set ?ms" using s(1) by (auto simp: offered_def Let_def split: if_splits)
  then have m: "m \<in> fst ` set (candidate_rows d (s_id s) None)" "member = None \<or> member = Some m"
    by (auto simp: candidates_def Let_def)
  show thesis
    by (rule that [OF s]) (use m candidate_hours [OF ok m(1)] in auto)
qed

lemma availability_offered:
  assumes ok: "tables_ok d" and a: "read_availability d clock limited service since til member = Inr a"
    and s: "open_service d service = Some s"
    and w: "window clock (timezone (settings_of d)) since til (min_notice_minutes (settings_of d))
      (booking_horizon_days (settings_of d)) = (first, final, earliest)"
    and k: "k < length (o_slots a)" and m: "m \<in> set (takers a k)"
  obtains ms hours slots where
    "(m, slots) \<in> set (fst (offered d ms hours (envelope d) (settings_of d) first final earliest
       (s_duration_minutes s)
       (buffer_for (s_duration_minutes s) (s_buffer_minutes s) (buffer_pct (settings_of d))) None))"
    "o_slots a ! k \<in> set slots" "dict_list hours m = hours_of d m"
    "m \<in> fst ` set (candidate_rows d service None)" "member = None \<or> member = Some m"
    "o_duration_minutes a = s_duration_minutes s"
proof -
  have c: "compute d clock s member since til None = a"
    using a s by (simp add: read_availability_def split: if_splits)
  have id: "s_id s = service" using open_serviceD [OF s] by simp
  have dur: "o_duration_minutes a = s_duration_minutes s"
    unfolding c [symmetric] by (simp add: compute_def Let_def case_prod_unfold)
  show thesis
    by (rule compute_offered [OF ok compute_taker(2) [OF c k m] w]) (use that dur id in blast)
qed

section \<open>What the booking page is told\<close>

definition sample_answer :: availability_out where
  "sample_answer = \<lparr>o_timezone = sample_zone, o_duration_minutes = 60,
     o_workers = [(1, Some ''Ann'')], o_slots = [10 * hour_us], o_slot_workers = [[0]]\<rparr>"

lemma sample_availability: "read_availability sample 0 False 7 0 0 None = Inr sample_answer"
  by code_simp

lemma sample_ok: "tables_ok sample"
  by code_simp

text \<open>
  C24: No worker is offered for a slot that meets one of their live bookings or its buffer,
  nor whose own buffer would run into one; read over the whole table, not only the window the
  query reads.
\<close>

theorem availability_avoids_bookings:
  assumes "tables_ok d" and "read_availability d clock limited service since til member = Inr a"
    and "open_service d service = Some s"
    and "window clock (timezone (settings_of d)) since til (min_notice_minutes (settings_of d))
      (booking_horizon_days (settings_of d)) = (first, final, earliest)"
    and "padded (timezone (settings_of d)) first final"
    and "k < length (o_slots a)" and "m \<in> set (takers a k)"
    and "b \<in> set (bookings d)" and "b_worker b = m" and "counts d None b"
  shows "\<not> meets (b_starts_at b, b_ends_at b + buffer_after d b * minute_us)
             (o_slots a ! k, o_slots a ! k + o_duration_minutes a * minute_us) \<and>
         \<not> meets (b_starts_at b, b_ends_at b) (o_slots a ! k, o_slots a ! k + (o_duration_minutes a +
             buffer_for (s_duration_minutes s) (s_buffer_minutes s) (buffer_pct (settings_of d))) * minute_us)"
proof -
  have sv: "s \<in> set (services d)" using open_serviceD [OF assms(3)] by simp
  note sb = service_bounds [OF assms(1) sv]
  obtain ms hours slots where o: "(m, slots) \<in> set (fst (offered d ms hours (envelope d) (settings_of d)
      first final earliest (s_duration_minutes s)
      (buffer_for (s_duration_minutes s) (s_buffer_minutes s) (buffer_pct (settings_of d))) None))"
    "o_slots a ! k \<in> set slots" "dict_list hours m = hours_of d m"
    "o_duration_minutes a = s_duration_minutes s"
    using availability_offered [OF assms(1-4,6,7)] by metis
  have wk: "week_ok (dict_list hours m)" using hours_ok [OF assms(1)] o(3) by simp
  have pos: "0 < s_duration_minutes s" using sb(1) by simp
  note free = offered_free_of_bookings [OF assms(1) wk pos sb(5,6) o(1,2) assms(5,8,9,10)]
  show ?thesis using free by (simp add: o(4))
qed

theorem availability_avoids_bookings_witness:
  "\<not> meets (b_starts_at (sample_booking 20 (9 * hour_us) Confirmed),
       b_ends_at (sample_booking 20 (9 * hour_us) Confirmed) +
       buffer_after sample (sample_booking 20 (9 * hour_us) Confirmed) * minute_us)
     (o_slots sample_answer ! 0, o_slots sample_answer ! 0 + o_duration_minutes sample_answer * minute_us)"
  by (rule availability_avoids_bookings [of sample 0 False 7 0 0 None sample_answer sample_service 0 0
    hour_us 0 1 "sample_booking 20 (9 * hour_us) Confirmed", THEN conjunct1]) code_simp+

text \<open>
  No worker is offered for a slot that meets a block of their time off, whole days or
  instants.
\<close>

lemma availability_respects_time_off:
  assumes "tables_ok d" and "read_availability d clock limited service since til member = Inr a"
    and "open_service d service = Some s"
    and "window clock (timezone (settings_of d)) since til (min_notice_minutes (settings_of d))
      (booking_horizon_days (settings_of d)) = (first, final, earliest)"
    and "padded (timezone (settings_of d)) first final"
    and "k < length (o_slots a)" and "m \<in> set (takers a k)"
    and "off \<in> set (time_offs d)" and "t_member off = m"
  shows "\<not> meets (block_span (timezone (settings_of d)) (t_block off))
             (o_slots a ! k, o_slots a ! k + o_duration_minutes a * minute_us)"
proof -
  have sv: "s \<in> set (services d)" using open_serviceD [OF assms(3)] by simp
  note sb = service_bounds [OF assms(1) sv]
  obtain ms hours slots where o: "(m, slots) \<in> set (fst (offered d ms hours (envelope d) (settings_of d)
      first final earliest (s_duration_minutes s)
      (buffer_for (s_duration_minutes s) (s_buffer_minutes s) (buffer_pct (settings_of d))) None))"
    "o_slots a ! k \<in> set slots" "dict_list hours m = hours_of d m"
    "o_duration_minutes a = s_duration_minutes s"
    using availability_offered [OF assms(1-4,6,7)] by metis
  have wk: "week_ok (dict_list hours m)" using hours_ok [OF assms(1)] o(3) by simp
  have pos: "0 < s_duration_minutes s" using sb(1) by simp
  show ?thesis
    using offered_free_of_blocks [OF assms(1) wk pos sb(5) o(1,2) assms(5,8,9)] by (simp add: o(4))
qed



text \<open>
  The answer lists each slot once, in order, with exactly the workers it is offered with,
  by their index in the roster.
\<close>

lemma compute_lists_every_taker:
  assumes "compute d clock s member since til exclude = a" and "k < length (o_slots a)"
  shows "sorted_wrt (<) (o_slots a) \<and> length (o_slot_workers a) = length (o_slots a) \<and>
    set (o_slots a) = (\<Union>m \<in> fst ` set (o_workers a).
      set (dict_list (compute_offers d clock s member since til exclude) m)) \<and>
    takers a k \<noteq> [] \<and> set (takers a k) = {m \<in> fst ` set (o_workers a).
      o_slots a ! k \<in> set (dict_list (compute_offers d clock s member since til exclude) m)}"
  using compute_slots [OF assms(1)] compute_takers [OF assms] by blast

end
