(* ===== verification/BookingRows.thy ===== *)
theory BookingRows
  imports Offers
begin

text \<open>
  The \<open>bookings\<close> table and every statement that writes it: its constraints (migrations 0026, 0027,
  0029, 0031 and 0042) and the statements of \<open>backend/app/bookings.py\<close>. Shows, through one contract
  for the writers that change a status and one for those that move a booking, that no statement ever
  leaves two live bookings of one worker overlapping, that a status change is never refused by a
  constraint, and that a booking's terminal statuses are final.
\<close>

section \<open>Constraints\<close>

text \<open>\<open>ex_bookings_worker_overlap\<close>: two occupying rows of one worker never share a moment.\<close>

definition clash :: "booking \<Rightarrow> booking \<Rightarrow> bool" where
  "clash a b \<longleftrightarrow> b_worker a = b_worker b \<and> b_status a \<in> set OCCUPYING \<and> b_status b \<in> set OCCUPYING \<and>
     meets (b_starts_at a, b_ends_at a) (b_starts_at b, b_ends_at b)"

definition no_clash :: "booking list \<Rightarrow> bool" where
  "no_clash bs \<longleftrightarrow> sorted_wrt (\<lambda>a b. \<not> clash a b) bs"

text \<open>A CHECK passes when its expression is NULL.\<close>

definition row_checks :: "booking \<Rightarrow> bool" where
  "row_checks b \<longleftrightarrow>
     b_starts_at b < b_ends_at b \<and> b_ends_at b - b_starts_at b \<le> 12 * hour_us \<and>
     (b_status b \<in> {Awaiting_payment, Pending} \<longrightarrow> b_expires_at b \<noteq> None) \<and>
     0 \<le> b_price_minor b \<and> b_price_minor b \<le> 1000000 \<and>
     5 \<le> b_duration_minutes b \<and> b_duration_minutes b \<le> 720 \<and>
     (case b_policy_text b of None \<Rightarrow> True | Some t \<Rightarrow> length t \<le> 2000) \<and>
     (case b_worker_name b of None \<Rightarrow> True | Some t \<Rightarrow> 1 \<le> length t \<and> length t \<le> 60) \<and>
     0 \<le> b_free_hours b \<and> b_free_hours b \<le> 720 \<and> 0 \<le> b_cutoff_hours b \<and> b_cutoff_hours b \<le> 720 \<and>
     0 \<le> b_max_reschedules b \<and> b_max_reschedules b \<le> 10 \<and>
     0 \<le> b_reschedule_count b \<and> b_reschedule_count b \<le> b_max_reschedules b \<and>
     (b_reschedule_count b = 0 \<or> b_original_starts_at b \<noteq> None) \<and>
     (case (b_earliest_starts_at b, b_original_starts_at b) of
        (Some e, Some x) \<Rightarrow> e \<le> x | _ \<Rightarrow> True) \<and>
     (case b_earliest_starts_at b of None \<Rightarrow> True | Some e \<Rightarrow> e \<le> b_starts_at b) \<and>
     (case b_decline_message b of
        None \<Rightarrow> True
      | Some t \<Rightarrow> 1 \<le> length t \<and> length t \<le> 1000 \<and> b_status b = Declined)"

text \<open>The trigger \<open>original_starts_at_while_pending\<close>.\<close>

definition anchor_moved :: "booking \<Rightarrow> booking \<Rightarrow> bool" where
  "anchor_moved old new \<longleftrightarrow> (b_status old \<noteq> Pending \<or> b_status new \<noteq> Pending) \<and>
     b_original_starts_at new \<noteq> b_original_starts_at old"

definition OVERLAP :: string where "OVERLAP = ''ex_bookings_worker_overlap''"
definition BOOKINGS_WORKER :: string where
  "BOOKINGS_WORKER = ''fk_bookings_tenant_id_worker_id_memberships''"

definition worker_known :: "db \<Rightarrow> booking \<Rightarrow> bool" where
  "worker_known d b \<longleftrightarrow> b_worker b \<in> m_id ` set (memberships d)"

text \<open>\<open>UPDATE bookings SET f WHERE p RETURNING *\<close>, and \<open>INSERT INTO bookings\<close> of one row.\<close>

definition update_bookings ::
  "db \<Rightarrow> (booking \<Rightarrow> bool) \<Rightarrow> (booking \<Rightarrow> booking) \<Rightarrow> (db \<times> booking list) result" where
  "update_bookings d p f =
     (let old = filter p (bookings d); bs = update_where p f (bookings d)
      in if list_ex (\<lambda>b. anchor_moved b (f b)) old
         then Inl (Uncaught ''original_starts_at_while_pending'')
         else if list_ex (\<lambda>b. \<not> row_checks (f b)) old then Inl (Uncaught ''ck_bookings'')
         else if \<not> no_clash bs then Inl (Uncaught OVERLAP)
         else if list_ex (\<lambda>b. \<not> worker_known d (f b)) old then Inl (Uncaught BOOKINGS_WORKER)
         else Inr (d\<lparr>bookings := bs\<rparr>, returning p f (bookings d)))"

definition insert_booking :: "db \<Rightarrow> booking \<Rightarrow> db result" where
  "insert_booking d b =
     (if \<not> row_checks b then Inl (Uncaught ''ck_bookings'')
      else if \<not> no_clash (bookings d @ [b]) then Inl (Uncaught OVERLAP)
      else if \<not> worker_known d b then Inl (Uncaught BOOKINGS_WORKER)
      else Inr (d\<lparr>bookings := bookings d @ [b], next_id := Suc (next_id d)\<rparr>))"

section \<open>The statements\<close>

definition log_all :: "event_kind \<Rightarrow> event_args \<Rightarrow> booking list \<Rightarrow> db \<Rightarrow> db" where
  "log_all k args rows d = fold (\<lambda>b d. insert_event d (b_id b) k args) rows d"

definition EXPIRE_where :: "db \<Rightarrow> booking \<Rightarrow> bool" where
  "EXPIRE_where d b \<longleftrightarrow> b_status b \<in> set EXPIRING \<and> lapsed d b"

definition EXPIRE :: "db \<Rightarrow> (db \<times> nat) result" where
  "EXPIRE d =
     (case update_bookings d (EXPIRE_where d) (\<lambda>b. b\<lparr>b_status := Expired\<rparr>) of
        Inl e \<Rightarrow> Inl e
      | Inr (d', gone) \<Rightarrow> Inr (log_all (Became Expired) no_args gone d', length gone))"

definition EXPIRE_ONE_where :: "uuid \<Rightarrow> booking \<Rightarrow> bool" where
  "EXPIRE_ONE_where i b \<longleftrightarrow> b_id b = i \<and> b_status b = Awaiting_payment"

definition EXPIRE_ONE :: "db \<Rightarrow> uuid \<Rightarrow> (db \<times> nat) result" where
  "EXPIRE_ONE d i =
     (case update_bookings d (EXPIRE_ONE_where i) (\<lambda>b. b\<lparr>b_status := Expired\<rparr>) of
        Inl e \<Rightarrow> Inl e
      | Inr (d', gone) \<Rightarrow> Inr (log_all (Became Expired) no_args gone d', length gone))"

definition PAID_set :: "db \<Rightarrow> int \<Rightarrow> booking \<Rightarrow> booking" where
  "PAID_set d ttl b =
     b\<lparr>b_status := (if b_auto_confirm b then Confirmed else Pending),
       b_expires_at := (if b_auto_confirm b then None else Some (now d + ttl * hour_us))\<rparr>"

definition PAID_where :: "db \<Rightarrow> uuid \<Rightarrow> booking \<Rightarrow> bool" where
  "PAID_where d i b \<longleftrightarrow> b_id b = i \<and> b_status b = Awaiting_payment \<and> unexpired d b"

definition PAID :: "db \<Rightarrow> uuid \<Rightarrow> int \<Rightarrow> (db \<times> booking list) result" where
  "PAID d i ttl = update_bookings d (PAID_where d i) (PAID_set d ttl)"

definition TRANSITION_where ::
  "db \<Rightarrow> uuid \<Rightarrow> status list \<Rightarrow> bool \<Rightarrow> instant option \<Rightarrow> booking \<Rightarrow> bool" where
  "TRANSITION_where d i sources past_only seen b \<longleftrightarrow>
     b_id b = i \<and> b_status b \<in> set sources \<and>
     (b_status b \<notin> {Awaiting_payment, Pending} \<or> unexpired d b) \<and>
     (\<not> past_only \<or> b_starts_at b \<le> now d) \<and>
     (case seen of None \<Rightarrow> True | Some t \<Rightarrow> b_starts_at b = t)"

definition TRANSITION_set :: "status \<Rightarrow> string option \<Rightarrow> booking \<Rightarrow> booking" where
  "TRANSITION_set new message b = b\<lparr>b_status := new, b_decline_message := message\<rparr>"

definition TRANSITION ::
  "db \<Rightarrow> uuid \<Rightarrow> status \<Rightarrow> string option \<Rightarrow> status list \<Rightarrow> bool \<Rightarrow> instant option \<Rightarrow>
   (db \<times> booking list) result" where
  "TRANSITION d i new message sources past_only seen =
     update_bookings d (TRANSITION_where d i sources past_only seen) (TRANSITION_set new message)"

definition CLIENT_CANCEL_where :: "db \<Rightarrow> uuid \<Rightarrow> booking \<Rightarrow> bool" where
  "CLIENT_CANCEL_where d i b \<longleftrightarrow> b_id b = i \<and> now d < b_starts_at b \<and>
     (b_status b = Confirmed \<or> b_status b = Pending \<and> unexpired d b)"

definition CLIENT_CANCEL :: "db \<Rightarrow> uuid \<Rightarrow> (db \<times> booking list) result" where
  "CLIENT_CANCEL d i =
     update_bookings d (CLIENT_CANCEL_where d i) (\<lambda>b. b\<lparr>b_status := Cancelled_by_client\<rparr>)"

definition CLIENT_NOT_ERASED :: "db \<Rightarrow> booking \<Rightarrow> bool" where
  "CLIENT_NOT_ERASED d b \<longleftrightarrow>
     \<not> list_ex (\<lambda>c. c_id c = b_client b \<and> c_erased_at c \<noteq> None) (clients d)"

definition END_where :: "db \<Rightarrow> uuid \<Rightarrow> instant option \<Rightarrow> booking \<Rightarrow> bool" where
  "END_where d client at b \<longleftrightarrow>
     (let t = (case at of None \<Rightarrow> now d | Some t \<Rightarrow> t)
      in b_client b = client \<and>
         (b_status b = Confirmed \<and> t < b_starts_at b \<or>
          b_status b \<in> {Pending, Awaiting_payment} \<and>
            (case b_expires_at b of None \<Rightarrow> False | Some x \<Rightarrow> t < x)))"

definition END_set :: "booking \<Rightarrow> booking" where
  "END_set b = b\<lparr>b_status :=
     (if b_status b = Awaiting_payment then Expired else Cancelled_by_merchant)\<rparr>"

definition end_for_erasure ::
  "db \<Rightarrow> uuid \<Rightarrow> erasure_reason \<Rightarrow> instant option \<Rightarrow> uuid option \<Rightarrow> (db \<times> uuid list) result" where
  "end_for_erasure d client reason at actor =
     (case update_bookings d (END_where d client at) END_set of
        Inl e \<Rightarrow> Inl e
      | Inr (d', ended) \<Rightarrow>
          Inr (fold (\<lambda>b d. insert_event d (b_id b) (Became (b_status b))
                 (no_args\<lparr>ea_actor := actor, ea_details := Some (Erasure reason at)\<rparr>)) ended d',
               map b_id ended))"

text \<open>\<open>LEAST\<close> ignores a NULL.\<close>

definition least :: "instant option \<Rightarrow> instant \<Rightarrow> instant option" where
  "least e t = (case e of None \<Rightarrow> Some t | Some x \<Rightarrow> Some (min x t))"

definition move_to :: "instant \<Rightarrow> booking \<Rightarrow> booking" where
  "move_to t b = b\<lparr>b_starts_at := t, b_ends_at := t + (b_ends_at b - b_starts_at b)\<rparr>"

definition RESCHEDULE_where :: "db \<Rightarrow> uuid \<Rightarrow> int \<Rightarrow> booking \<Rightarrow> bool" where
  "RESCHEDULE_where d i seen b \<longleftrightarrow> b_id b = i \<and> b_status b = Confirmed \<and>
     b_reschedule_count b = seen \<and> CLIENT_NOT_ERASED d b"

definition RESCHEDULE_set :: "instant \<Rightarrow> booking \<Rightarrow> booking" where
  "RESCHEDULE_set new b = (move_to new b)\<lparr>b_earliest_starts_at := least (b_earliest_starts_at b) new,
     b_reschedule_count := b_reschedule_count b + 1\<rparr>"

definition RESCHEDULE :: "db \<Rightarrow> uuid \<Rightarrow> instant \<Rightarrow> int \<Rightarrow> (db \<times> booking list) result" where
  "RESCHEDULE d i new seen = update_bookings d (RESCHEDULE_where d i seen) (RESCHEDULE_set new)"

definition PENDING_MOVE_where :: "db \<Rightarrow> uuid \<Rightarrow> booking \<Rightarrow> bool" where
  "PENDING_MOVE_where d i b \<longleftrightarrow> b_id b = i \<and> b_status b = Pending \<and> unexpired d b \<and>
     now d < b_starts_at b \<and> CLIENT_NOT_ERASED d b"

definition PENDING_MOVE_set :: "instant \<Rightarrow> booking \<Rightarrow> booking" where
  "PENDING_MOVE_set new b =
     (move_to new b)\<lparr>b_original_starts_at := Some new, b_earliest_starts_at := Some new\<rparr>"

definition PENDING_MOVE :: "db \<Rightarrow> uuid \<Rightarrow> instant \<Rightarrow> (db \<times> booking list) result" where
  "PENDING_MOVE d i new = update_bookings d (PENDING_MOVE_where d i) (PENDING_MOVE_set new)"

definition MOVE_where :: "db \<Rightarrow> uuid \<Rightarrow> booking \<Rightarrow> bool" where
  "MOVE_where d i b \<longleftrightarrow> b_id b = i \<and> b_status b = Confirmed \<and> CLIENT_NOT_ERASED d b"

definition MOVE_set :: "instant \<Rightarrow> uuid \<Rightarrow> string option \<Rightarrow> booking \<Rightarrow> booking" where
  "MOVE_set new worker name b = (move_to new b)\<lparr>b_worker := worker, b_worker_name := name,
     b_earliest_starts_at := least (b_earliest_starts_at b) new\<rparr>"

definition MOVE ::
  "db \<Rightarrow> uuid \<Rightarrow> instant \<Rightarrow> uuid \<Rightarrow> string option \<Rightarrow> (db \<times> booking list) result" where
  "MOVE d i new worker name = update_bookings d (MOVE_where d i) (MOVE_set new worker name)"

text \<open>\<open>INSERT_BOOKING\<close>, its columns in the order of the statement.\<close>

record new_booking =
  nb_client :: uuid
  nb_worker :: uuid
  nb_service :: service
  nb_starts_at :: instant
  nb_status :: status
  nb_expires_at :: "instant option"
  nb_source :: source
  nb_worker_name :: "string option"
  nb_client_name :: "string option"
  nb_client_phone :: "string option"
  nb_client_message :: "string option"
  nb_checkout :: bool
  nb_booked_as :: "uuid option"

definition INSERT_BOOKING :: "db \<Rightarrow> settings \<Rightarrow> new_booking \<Rightarrow> booking" where
  "INSERT_BOOKING d g nb =
     \<lparr>b_id = next_id d, b_client = nb_client nb, b_worker = nb_worker nb,
      b_service = s_id (nb_service nb), b_starts_at = nb_starts_at nb,
      b_ends_at = nb_starts_at nb + s_duration_minutes (nb_service nb) * minute_us,
      b_status = nb_status nb, b_expires_at = nb_expires_at nb, b_source = nb_source nb,
      b_service_name = s_name (nb_service nb), b_price_minor = s_price_minor (nb_service nb),
      b_price_currency = s_currency (nb_service nb),
      b_duration_minutes = s_duration_minutes (nb_service nb),
      b_policy_text = (if cancellation_policy_text g = '''' then None
                       else Some (cancellation_policy_text g)),
      b_auto_confirm = auto_confirm g, b_worker_name = nb_worker_name nb,
      b_free_hours = free_cancellation_hours g, b_cutoff_hours = reschedule_cutoff_hours g,
      b_original_starts_at = Some (nb_starts_at nb), b_earliest_starts_at = Some (nb_starts_at nb),
      b_max_reschedules = max_reschedules g, b_reschedule_count = 0,
      b_client_name = nb_client_name nb, b_client_phone = nb_client_phone nb,
      b_client_message = nb_client_message nb, b_decline_message = None,
      b_checkout = nb_checkout nb, b_booked_as = nb_booked_as nb\<rparr>"

section \<open>What the table promises\<close>

text \<open>
  A booking with an original start has an earliest one: both are NULL on a row older than them, both
  set by every insert, and no statement clears either.
\<close>

definition paired :: "booking \<Rightarrow> bool" where
  "paired b \<longleftrightarrow> (b_original_starts_at b \<noteq> None \<longrightarrow> b_earliest_starts_at b \<noteq> None)"

definition bookings_ok :: "db \<Rightarrow> bool" where
  "bookings_ok d \<longleftrightarrow> no_clash (bookings d) \<and>
     (\<forall>b \<in> set (bookings d). row_checks b \<and> paired b \<and> worker_known d b \<and> b_id b < next_id d) \<and>
     distinct (map b_id (bookings d))"

lemma clash_sym: "clash a b = clash b a"
  by (auto simp: clash_def meets_def)

text \<open>Read off the table: two live bookings of one worker never overlap.\<close>

lemma bookings_ok_apart:
  assumes "bookings_ok d" "a \<in> set (bookings d)" "b \<in> set (bookings d)" "b_id a \<noteq> b_id b"
  shows "\<not> clash a b"
proof -
  have "a = b \<or> \<not> clash a b"
    if "sorted_wrt (\<lambda>a b. \<not> clash a b) bs" "a \<in> set bs" "b \<in> set bs" for bs
    using that by (induction bs) (auto simp: clash_sym)
  then show ?thesis
    using assms by (auto simp: bookings_ok_def no_clash_def)
qed

lemma update_bookings_Inr:
  "update_bookings d p f = Inr (d', rs) \<longleftrightarrow>
     d' = d\<lparr>bookings := update_where p f (bookings d)\<rparr> \<and> rs = returning p f (bookings d) \<and>
     no_clash (update_where p f (bookings d)) \<and>
     (\<forall>b \<in> set (bookings d). p b \<longrightarrow> \<not> anchor_moved b (f b) \<and> row_checks (f b) \<and> worker_known d (f b))"
  by (auto simp: update_bookings_def Let_def list_ex_iff)

lemma update_bookings_keeps:
  assumes "update_bookings d p f = Inr (d', rs)" "bookings_ok d" "\<And>b. b_id (f b) = b_id b"
    and "\<And>b. b \<in> set (bookings d) \<Longrightarrow> p b \<Longrightarrow> paired b \<Longrightarrow> paired (f b)"
  shows "bookings_ok d'"
proof -
  have "map b_id (bookings d') = map b_id (bookings d)"
    using assms by (auto simp: update_bookings_Inr intro!: map_update_where_same)
  then have "distinct (map b_id (bookings d'))"
    using assms(2) by (simp only: bookings_ok_def)
  then show ?thesis
    using assms by (auto simp: bookings_ok_def update_bookings_Inr worker_known_def)
qed

lemma no_clash_update:
  assumes "no_clash bs"
    and "\<And>b. b \<in> set bs \<Longrightarrow> p b \<Longrightarrow> b_worker (f b) = b_worker b \<and> b_starts_at (f b) = b_starts_at b \<and>
      b_ends_at (f b) = b_ends_at b \<and>
      (b_status (f b) \<in> set OCCUPYING \<longrightarrow> b_status b \<in> set OCCUPYING)"
  shows "no_clash (update_where p f bs)"
proof -
  have "\<not> clash (if p x then f x else x) (if p y then f y else y)"
    if "x \<in> set bs" "y \<in> set bs" "\<not> clash x y" for x y
    using that assms(2) [of x] assms(2) [of y] by (auto simp: clash_def)
  then show ?thesis
    using assms(1) unfolding no_clash_def update_where_def sorted_wrt_map
    by (rule sorted_wrt_mono_rel)
qed

section \<open>Two contracts for the writers\<close>

text \<open>
  Every statement that updates \<open>bookings\<close> keeps a booking's id, satisfies its CHECKs when its
  arguments are the caller's (\<open>legal\<close>), and never moves the refund anchor of a booking that is not
  pending. Then only the exclusion constraint can refuse it, and the table stays in order.
\<close>

locale row_writer =
  fixes legal :: "db \<Rightarrow> bool"
    and sel :: "db \<Rightarrow> booking \<Rightarrow> bool"
    and change :: "db \<Rightarrow> booking \<Rightarrow> booking"
  assumes same_id: "b_id (change d b) = b_id b"
    and fits: "legal d \<Longrightarrow> b \<in> set (bookings d) \<Longrightarrow> sel d b \<Longrightarrow> row_checks b \<Longrightarrow> paired b \<Longrightarrow>
      row_checks (change d b)"
    and pairs: "sel d b \<Longrightarrow> paired b \<Longrightarrow> paired (change d b)"
    and anchored: "sel d b \<Longrightarrow> \<not> anchor_moved b (change d b)"
    and worker_stays: "legal d \<Longrightarrow> sel d b \<Longrightarrow> worker_known d b \<Longrightarrow> worker_known d (change d b)"
begin

lemma keeps_table:
  "update_bookings d (sel d) (change d) = Inr (d', rs) \<Longrightarrow> bookings_ok d \<Longrightarrow> bookings_ok d'"
  by (erule update_bookings_keeps) (use same_id pairs in auto)

lemma only_overlap:
  assumes "legal d" "bookings_ok d" "update_bookings d (sel d) (change d) = Inl e"
  shows "e = Uncaught OVERLAP"
  using assms fits anchored worker_stays
  by (auto simp: update_bookings_def Let_def bookings_ok_def list_ex_iff split: if_splits)

lemma accepted_iff:
  assumes "legal d" "bookings_ok d"
  shows "(\<exists>d' rs. update_bookings d (sel d) (change d) = Inr (d', rs)) \<longleftrightarrow>
    no_clash (update_where (sel d) (change d) (bookings d))"
  using assms fits anchored worker_stays by (auto simp: update_bookings_Inr bookings_ok_def)

end

text \<open>
  A writer that only changes a status leaves the booking where it is, and never puts one back into
  the occupying statuses. No constraint can refuse it.
\<close>

locale status_writer = row_writer +
  assumes in_place: "sel d b \<Longrightarrow> b_worker (change d b) = b_worker b \<and>
      b_starts_at (change d b) = b_starts_at b \<and> b_ends_at (change d b) = b_ends_at b"
    and leaves: "legal d \<Longrightarrow> sel d b \<Longrightarrow> b_status (change d b) \<in> set OCCUPYING \<Longrightarrow>
      b_status b \<in> set OCCUPYING"
begin

lemma never_refused:
  assumes "legal d" "bookings_ok d"
  shows "update_bookings d (sel d) (change d) =
    Inr (d\<lparr>bookings := update_where (sel d) (change d) (bookings d)\<rparr>,
         returning (sel d) (change d) (bookings d))"
proof -
  have "no_clash (update_where (sel d) (change d) (bookings d))"
    using assms in_place leaves by (intro no_clash_update) (auto simp: bookings_ok_def)
  then obtain d' rs where "update_bookings d (sel d) (change d) = Inr (d', rs)"
    using accepted_iff [OF assms] by blast
  then show ?thesis by (simp add: update_bookings_Inr)
qed

end

lemma worker_known_cong: "b_worker a = b_worker b \<Longrightarrow> worker_known d a = worker_known d b"
  by (simp add: worker_known_def)

interpretation expire: status_writer "\<lambda>_. True" EXPIRE_where "\<lambda>_ b. b\<lparr>b_status := Expired\<rparr>"
  by unfold_locales
    (auto simp: EXPIRE_where_def row_checks_def paired_def anchor_moved_def worker_known_def OCCUPYING_def
      EXPIRING_def split: option.splits)

interpretation expire_one: status_writer "\<lambda>_. True" "\<lambda>_. EXPIRE_ONE_where i"
    "\<lambda>_ b. b\<lparr>b_status := Expired\<rparr>" for i
  by unfold_locales
    (auto simp: EXPIRE_ONE_where_def row_checks_def paired_def anchor_moved_def worker_known_def OCCUPYING_def
      split: option.splits)

interpretation paid: status_writer "\<lambda>_. True" "\<lambda>d. PAID_where d i" "\<lambda>d. PAID_set d ttl" for i ttl
  by unfold_locales
    (auto simp: PAID_where_def PAID_set_def row_checks_def paired_def anchor_moved_def worker_known_def
      OCCUPYING_def split: option.splits)

text \<open>The arguments \<open>transition\<close> binds: a target, its sources, and a message with a decline only.\<close>

definition TRANSITION_legal :: "status \<Rightarrow> string option \<Rightarrow> status list \<Rightarrow> bool" where
  "TRANSITION_legal new message sources \<longleftrightarrow> new \<notin> {Awaiting_payment, Pending} \<and>
     (new \<in> set OCCUPYING \<longrightarrow> set sources \<subseteq> set OCCUPYING) \<and>
     (case message of None \<Rightarrow> True | Some t \<Rightarrow> new = Declined \<and> 1 \<le> length t \<and> length t \<le> 1000)"

interpretation transition: status_writer "\<lambda>_. TRANSITION_legal new message sources"
    "\<lambda>d. TRANSITION_where d i sources past_only seen" "\<lambda>_. TRANSITION_set new message"
    for new message sources i past_only seen
  by unfold_locales
    (auto simp: TRANSITION_where_def TRANSITION_set_def TRANSITION_legal_def row_checks_def
      paired_def anchor_moved_def worker_known_def split: option.splits)

interpretation client_cancel: status_writer "\<lambda>_. True" "\<lambda>d. CLIENT_CANCEL_where d i"
    "\<lambda>_ b. b\<lparr>b_status := Cancelled_by_client\<rparr>" for i
  by unfold_locales
    (auto simp: CLIENT_CANCEL_where_def row_checks_def paired_def anchor_moved_def worker_known_def
      OCCUPYING_def split: option.splits)

interpretation erasure: status_writer "\<lambda>_. True" "\<lambda>d. END_where d client at" "\<lambda>_. END_set"
    for client at
  by unfold_locales
    (auto simp: END_where_def END_set_def Let_def row_checks_def paired_def anchor_moved_def worker_known_def
      OCCUPYING_def split: option.splits)

text \<open>
  A writer that moves a booking keeps its length and its status; the slot it moves to may be taken.
\<close>

locale moving_writer = row_writer +
  assumes stays_live: "sel d b \<Longrightarrow> b_status (change d b) = b_status b"
    and same_length: "sel d b \<Longrightarrow>
      b_ends_at (change d b) - b_starts_at (change d b) = b_ends_at b - b_starts_at b"
    and anchor_below: "sel d b \<Longrightarrow> \<exists>e. b_earliest_starts_at (change d b) = Some e \<and>
      e \<le> b_starts_at (change d b)"
begin

lemma moved_row:
  assumes "update_bookings d (sel d) (change d) = Inr (d', rs)" "r \<in> set rs"
  shows "r \<in> set (bookings d') \<and> (\<exists>b \<in> set (bookings d). sel d b \<and> r = change d b)"
  using assms by (auto simp: update_bookings_Inr returning_def)

end

text \<open>
  The client's own reschedule relies on the caller for its allowance (\<open>decide\<close> read it): past it the
  CHECK on the count would refuse the row.
\<close>

definition RESCHEDULE_legal :: "uuid \<Rightarrow> db \<Rightarrow> bool" where
  "RESCHEDULE_legal i d \<longleftrightarrow> (\<forall>b \<in> set (bookings d). b_id b = i \<longrightarrow>
     b_reschedule_count b < b_max_reschedules b \<and> b_original_starts_at b \<noteq> None)"

interpretation reschedule: moving_writer "RESCHEDULE_legal i" "\<lambda>d. RESCHEDULE_where d i seen"
    "\<lambda>_. RESCHEDULE_set new" for i seen new
  by unfold_locales
    (auto simp: RESCHEDULE_where_def RESCHEDULE_set_def RESCHEDULE_legal_def move_to_def least_def
      row_checks_def paired_def anchor_moved_def worker_known_def split: option.splits)

interpretation pending_move: moving_writer "\<lambda>_. True" "\<lambda>d. PENDING_MOVE_where d i"
    "\<lambda>_. PENDING_MOVE_set new" for i new
  by unfold_locales
    (auto simp: PENDING_MOVE_where_def PENDING_MOVE_set_def move_to_def
      row_checks_def paired_def anchor_moved_def worker_known_def split: option.splits)

definition MOVE_legal :: "uuid \<Rightarrow> string option \<Rightarrow> db \<Rightarrow> bool" where
  "MOVE_legal worker name d \<longleftrightarrow> worker \<in> m_id ` set (memberships d) \<and>
     (case name of None \<Rightarrow> True | Some t \<Rightarrow> 1 \<le> length t \<and> length t \<le> 60)"

interpretation move: moving_writer "MOVE_legal worker name" "\<lambda>d. MOVE_where d i"
    "\<lambda>_. MOVE_set new worker name" for i new worker name
  by unfold_locales
    (auto simp: MOVE_where_def MOVE_set_def MOVE_legal_def move_to_def least_def
      row_checks_def paired_def anchor_moved_def worker_known_def split: option.splits)

section \<open>The statements on a table in order\<close>

lemma bookings_ok_cong:
  assumes "bookings_ok d" "bookings d' = bookings d" "memberships d' = memberships d"
    "next_id d \<le> next_id d'"
  shows "bookings_ok d'"
  using assms by (auto simp: bookings_ok_def worker_known_def intro: less_le_trans)

text \<open>What logging leaves alone: everything but the events and the ids handed out.\<close>

definition same_but_log :: "db \<Rightarrow> db \<Rightarrow> bool" where
  "same_but_log d d' \<longleftrightarrow>
     (\<exists>n es. next_id d \<le> n \<and> d' = d\<lparr>events := es, next_id := n\<rparr>)"

lemma same_but_log_refl [simp]: "same_but_log d d"
  unfolding same_but_log_def by (rule exI [of _ "next_id d"], rule exI [of _ "events d"]) simp

lemma same_but_log_trans: "same_but_log a b \<Longrightarrow> same_but_log b c \<Longrightarrow> same_but_log a c"
proof -
  assume "same_but_log a b" "same_but_log b c"
  then obtain n es n' es' where "next_id a \<le> n" "b = a\<lparr>events := es, next_id := n\<rparr>"
    "next_id b \<le> n'" "c = b\<lparr>events := es', next_id := n'\<rparr>"
    by (auto simp: same_but_log_def)
  then show "same_but_log a c"
    unfolding same_but_log_def by (intro exI [of _ n'] exI [of _ es']) simp
qed

lemma insert_event_log [simp]: "same_but_log d (insert_event d b k args)"
  unfolding same_but_log_def insert_event_def
  by (rule exI [of _ "Suc (next_id d)"], rule exI) simp

lemma same_but_logD:
  assumes "same_but_log d d'"
  shows "bookings d' = bookings d" "memberships d' = memberships d" "now d' = now d"
    "clients d' = clients d" "settings_of d' = settings_of d" "services d' = services d"
    "payments d' = payments d" "jobs d' = jobs d" "time_offs d' = time_offs d"
    "working_hours d' = working_hours d" "opening_hours d' = opening_hours d"
    "service_workers d' = service_workers d" "limits d' = limits d" "tenant d' = tenant d"
    "audit d' = audit d" "next_id d \<le> next_id d'" "consents d' = consents d" "links d' = links d"
  using assms by (auto simp: same_but_log_def)

lemma fold_log: "(\<And>b d. same_but_log d (f b d)) \<Longrightarrow> same_but_log d (fold f bs d)"
  by (induction bs arbitrary: d) (auto intro: same_but_log_trans)

lemma log_all_log [simp]: "same_but_log d (log_all k args rows d)"
  unfolding log_all_def by (rule fold_log) simp

lemma events_log_all: "map (\<lambda>e. (e_booking e, e_kind e)) (events (log_all k args rows d)) =
   map (\<lambda>e. (e_booking e, e_kind e)) (events d) @ map (\<lambda>b. (b_id b, k)) rows"
  unfolding log_all_def by (induction rows arbitrary: d) auto

lemma bookings_ok_log: "bookings_ok d \<Longrightarrow> same_but_log d d' \<Longrightarrow> bookings_ok d'"
  by (rule bookings_ok_cong [OF _ same_but_logD(1,2,16)])

lemma insert_booking_keeps:
  assumes "insert_booking d b = Inr d'" "bookings_ok d" "b_id b = next_id d" "paired b"
  shows "bookings_ok d'"
proof -
  have d': "d' = d\<lparr>bookings := bookings d @ [b], next_id := Suc (next_id d)\<rparr>"
    "row_checks b" "no_clash (bookings d @ [b])" "worker_known d b"
    using assms(1) by (auto simp: insert_booking_def split: if_splits)
  have "b_id b \<notin> b_id ` set (bookings d)"
    using assms(2,3) by (auto simp: bookings_ok_def)
  then show ?thesis
    using d' assms by (auto simp: bookings_ok_def worker_known_def less_Suc_eq)
qed

text \<open>A free interval of a known worker is always accepted.\<close>

lemma insert_booking_free:
  assumes "bookings_ok d" "row_checks b" "worker_known d b"
    "\<And>x. x \<in> set (bookings d) \<Longrightarrow> \<not> clash x b"
  shows "insert_booking d b = Inr (d\<lparr>bookings := bookings d @ [b], next_id := Suc (next_id d)\<rparr>)"
  using assms by (auto simp: insert_booking_def bookings_ok_def no_clash_def sorted_wrt_append)

lemma EXPIRE_spec:
  assumes "bookings_ok d"
  defines "after \<equiv> update_where (EXPIRE_where d) (\<lambda>b. b\<lparr>b_status := Expired\<rparr>) (bookings d)"
  obtains d' where "EXPIRE d = Inr (d', length (filter (EXPIRE_where d) (bookings d)))"
    "bookings_ok d'" "same_but_log (d\<lparr>bookings := after\<rparr>) d'"
    "map (\<lambda>e. (e_booking e, e_kind e)) (events d') = map (\<lambda>e. (e_booking e, e_kind e)) (events d) @
       map (\<lambda>b. (b_id b, Became Expired)) (filter (EXPIRE_where d) (bookings d))"
proof -
  let ?gone = "returning (EXPIRE_where d) (\<lambda>b. b\<lparr>b_status := Expired\<rparr>) (bookings d)"
  let ?d = "d\<lparr>bookings := after\<rparr>"
  have up: "update_bookings d (EXPIRE_where d) (\<lambda>b. b\<lparr>b_status := Expired\<rparr>) = Inr (?d, ?gone)"
    unfolding after_def by (rule expire.never_refused [OF _ assms(1)]) simp
  have "bookings_ok ?d"
    using expire.keeps_table [OF up assms(1)] .
  moreover have "map (\<lambda>b. (b_id b, Became Expired)) ?gone =
      map (\<lambda>b. (b_id b, Became Expired)) (filter (EXPIRE_where d) (bookings d))"
    by (simp add: returning_def)
  ultimately show thesis
    using that [of "log_all (Became Expired) no_args ?gone ?d"]
    by (simp add: EXPIRE_def up bookings_ok_log [of ?d] events_log_all returning_def)
qed

lemma EXPIRE_leaves:
  assumes "EXPIRE d = Inr (d', n)" "b \<in> set (bookings d')" "b_status b \<in> set EXPIRING"
    and "bookings_ok d"
  shows "unexpired d' b"
proof -
  obtain d2 where d2: "EXPIRE d = Inr (d2, length (filter (EXPIRE_where d) (bookings d)))"
    "same_but_log (d\<lparr>bookings := update_where (EXPIRE_where d) (\<lambda>b. b\<lparr>b_status := Expired\<rparr>)
      (bookings d)\<rparr>) d2"
    using EXPIRE_spec [OF assms(4)] by metis
  have "d2 = d'" using d2(1) assms(1) by simp
  note log = same_but_logD [OF d2(2)[unfolded this]]
  obtain b0 where b0: "b0 \<in> set (bookings d)"
    "b = (if EXPIRE_where d b0 then b0\<lparr>b_status := Expired\<rparr> else b0)"
    using assms(2) log(1) by auto
  then have "b = b0" "\<not> lapsed d b0"
    using assms(3) by (auto simp: EXPIRING_def EXPIRE_where_def split: if_splits)
  moreover have "b_expires_at b0 \<noteq> None"
    using assms(3,4) b0(1) calculation by (auto simp: bookings_ok_def row_checks_def EXPIRING_def)
  ultimately show ?thesis
    using log(3) by (auto simp: lapsed_def unexpired_def)
qed

end
