(* ===== verification/PaymentRows.thy ===== *)
theory PaymentRows
  imports BookingRows Gateway
begin

text \<open>
  The table \<open>booking_payments\<close> (migration 0044) and every statement of \<open>backend/app/payments.py\<close> that
  writes it. Shows, through one contract for its writers, that a payment only moves forward from
  open, that what is settled stays settled, and that a booking has one live payment at most.
\<close>

section \<open>Constraints\<close>

definition prefixed :: "string \<Rightarrow> string \<Rightarrow> bool" where
  "prefixed p s \<longleftrightarrow> take (length p) s = p"

definition payment_checks :: "payment \<Rightarrow> bool" where
  "payment_checks p \<longleftrightarrow>
     1 \<le> p_amount_minor p \<and> p_amount_minor p \<le> 1000000 \<and>
     0 \<le> p_application_fee p \<and> p_application_fee p \<le> p_amount_minor p \<and>
     (case p_stripe_fee p of None \<Rightarrow> True | Some f \<Rightarrow> 0 \<le> f \<and> f \<le> p_amount_minor p) \<and>
     (p_application_fee p = 0 \<or> p_kind p = Pay \<and> p_fee_mode p = Business_pays_plus_fee) \<and>
     0 \<le> p_refunded_minor p \<and> p_refunded_minor p \<le> p_amount_minor p \<and>
     (p_kind p = Check \<and> p_status p \<noteq> Paid \<or> p_kind p = Pay \<and> p_status p \<noteq> Checked) \<and>
     (prefixed ''pi_'' (p_intent p) \<or> p_kind p = Check) \<and>
     (p_refunded_minor p = 0 \<or> p_status p = Paid)"

text \<open>\<open>uq_booking_payments_intent_id\<close> and \<open>uq_booking_payments_live\<close>.\<close>

definition payment_clash :: "payment \<Rightarrow> payment \<Rightarrow> bool" where
  "payment_clash p q \<longleftrightarrow> p_intent p = p_intent q \<or>
     p_booking p = p_booking q \<and> p_status p \<noteq> Canceled \<and> p_status q \<noteq> Canceled"

definition payments_apart :: "payment list \<Rightarrow> bool" where
  "payments_apart ps \<longleftrightarrow> sorted_wrt (\<lambda>p q. \<not> payment_clash p q) ps"

text \<open>\<open>fk_booking_payments_booking_price\<close>: the price is the booking's, exactly.\<close>

definition priced :: "db \<Rightarrow> payment \<Rightarrow> bool" where
  "priced d p \<longleftrightarrow> list_ex (\<lambda>b. b_id b = p_booking p \<and> b_price_minor b = p_amount_minor p \<and>
     b_price_currency b = p_currency p) (bookings d)"

definition update_payments ::
  "db \<Rightarrow> (payment \<Rightarrow> bool) \<Rightarrow> (payment \<Rightarrow> payment) \<Rightarrow> (db \<times> payment list) result" where
  "update_payments d p f =
     (let ps = update_where p f (payments d)
      in if list_ex (\<lambda>x. \<not> payment_checks (f x)) (filter p (payments d))
         then Inl (Uncaught ''ck_booking_payments'')
         else if \<not> payments_apart ps then Inl (Uncaught ''uq_booking_payments_live'')
         else Inr (d\<lparr>payments := ps\<rparr>, returning p f (payments d)))"

section \<open>The statements\<close>

definition LOCK_PAYMENT :: "db \<Rightarrow> uuid \<Rightarrow> payment_status option" where
  "LOCK_PAYMENT d i = map_option p_status (first_row (filter (\<lambda>p. p_id p = i) (payments d)))"

definition MARK_CHECKED :: "db \<Rightarrow> uuid \<Rightarrow> bool \<Rightarrow> (db \<times> payment list) result" where
  "MARK_CHECKED d i by_setup = update_payments d (\<lambda>p. p_id p = i \<and> p_status p = Open)
     (\<lambda>p. p\<lparr>p_status := Checked, p_settled_at := (if by_setup then Some (now d) else None)\<rparr>)"

definition MARK_PAID :: "db \<Rightarrow> uuid \<Rightarrow> (db \<times> payment list) result" where
  "MARK_PAID d i = update_payments d (\<lambda>p. p_id p = i \<and> p_status p = Open)
     (\<lambda>p. p\<lparr>p_status := Paid\<rparr>)"

definition FILL_FEE :: "db \<Rightarrow> uuid \<Rightarrow> int \<Rightarrow> (db \<times> payment list) result" where
  "FILL_FEE d i fee = update_payments d (\<lambda>p. p_id p = i \<and> p_stripe_fee p = None)
     (\<lambda>p. p\<lparr>p_stripe_fee := Some fee\<rparr>)"

definition MARK_CANCELED :: "db \<Rightarrow> uuid \<Rightarrow> (db \<times> payment list) result" where
  "MARK_CANCELED d i = update_payments d (\<lambda>p. p_id p = i \<and> p_status p = Open)
     (\<lambda>p. p\<lparr>p_status := Canceled, p_settled_at := Some (now d)\<rparr>)"

definition RELEASED :: "db \<Rightarrow> uuid \<Rightarrow> (db \<times> payment list) result" where
  "RELEASED d i = update_payments d (\<lambda>p. p_id p = i \<and> p_settled_at p = None)
     (\<lambda>p. p\<lparr>p_settled_at := Some (now d)\<rparr>)"

text \<open>SQL's \<open>coalesce\<close>.\<close>

definition or_else :: "'a option \<Rightarrow> 'a option \<Rightarrow> 'a option" where
  "or_else a b = (case a of None \<Rightarrow> b | Some x \<Rightarrow> Some x)"

definition REFUNDED ::
  "db \<Rightarrow> uuid \<Rightarrow> int \<Rightarrow> string option \<Rightarrow> int option \<Rightarrow> (db \<times> payment list) result" where
  "REFUNDED d i due refund_id fee = update_payments d (\<lambda>p. p_id p = i \<and> p_settled_at p = None)
     (\<lambda>p. p\<lparr>p_refunded_minor := due, p_refund_id := or_else (p_refund_id p) refund_id,
        p_settled_at := Some (now d), p_stripe_fee := or_else (p_stripe_fee p) fee\<rparr>)"

definition SET_REFUND_ID :: "db \<Rightarrow> string \<Rightarrow> string \<Rightarrow> (db \<times> payment list) result" where
  "SET_REFUND_ID d intent refund_id = update_payments d (\<lambda>p. p_intent p = intent)
     (\<lambda>p. p\<lparr>p_refund_id := or_else (p_refund_id p) (Some refund_id)\<rparr>)"

definition SET_REFUND_FLAG :: "db \<Rightarrow> string \<Rightarrow> int \<Rightarrow> (db \<times> payment list) result" where
  "SET_REFUND_FLAG d intent refunded = update_payments d (\<lambda>p. p_intent p = intent)
     (\<lambda>p. p\<lparr>p_refund_failed_at := (if refunded < p_refunded_minor p
        then or_else (p_refund_failed_at p) (Some (now d)) else None)\<rparr>)"

text \<open>\<open>INSERT_PAYMENT\<close>: no row, when the business has no account.\<close>

definition new_payment ::
  "uuid \<Rightarrow> uuid \<Rightarrow> payment_kind \<Rightarrow> string \<Rightarrow> int \<Rightarrow> string \<Rightarrow> fee_mode \<Rightarrow> int \<Rightarrow> payment" where
  "new_payment i booking kind intent amount currency mode fee =
     \<lparr>p_id = i, p_booking = booking, p_kind = kind, p_intent = intent, p_amount_minor = amount,
      p_currency = currency, p_status = Open, p_fee_mode = mode, p_application_fee = fee,
      p_stripe_fee = None, p_refunded_minor = 0, p_refund_id = None, p_refund_failed_at = None,
      p_settled_at = None\<rparr>"

definition INSERT_PAYMENT ::
  "db \<Rightarrow> uuid \<Rightarrow> payment_kind \<Rightarrow> string \<Rightarrow> int \<Rightarrow> string \<Rightarrow> fee_mode \<Rightarrow> int \<Rightarrow> (db \<times> bool) result" where
  "INSERT_PAYMENT d booking kind intent amount currency mode fee =
     (let p = new_payment (next_id d) booking kind intent amount currency mode fee in
      if payment_account d = None then Inr (d, False)
      else if \<not> payment_checks p \<or> \<not> (prefixed ''pi_'' intent \<or> prefixed ''seti_'' intent)
      then Inl (Uncaught ''ck_booking_payments'')
      else if \<not> payments_apart (payments d @ [p]) then Inl (Uncaught ''uq_booking_payments_live'')
      else if \<not> priced d p then Inl (Uncaught ''fk_booking_payments_booking_price'')
      else Inr (d\<lparr>payments := payments d @ [p], next_id := Suc (next_id d)\<rparr>, True))"

section \<open>What the table promises\<close>

text \<open>An open payment is not settled, a cancelled one is, and only what is settled was sent back.\<close>

definition settled_right :: "payment \<Rightarrow> bool" where
  "settled_right p \<longleftrightarrow> (p_status p = Open \<longrightarrow> p_settled_at p = None) \<and>
     (p_status p = Canceled \<longrightarrow> p_settled_at p \<noteq> None) \<and>
     (p_settled_at p = None \<longrightarrow> p_refunded_minor p = 0)"

definition payments_ok :: "db \<Rightarrow> bool" where
  "payments_ok d \<longleftrightarrow> payments_apart (payments d) \<and>
     (\<forall>p \<in> set (payments d). payment_checks p \<and> settled_right p \<and> p_id p < next_id d) \<and>
     distinct (map p_id (payments d))"

text \<open>
  One life of a payment: it leaves open once, for good; a settled payment keeps its status, the time
  it was settled and the amount sent back; what it is for and what it costs never change.
\<close>

inductive payment_step :: "payment_status \<Rightarrow> payment_status \<Rightarrow> bool" where
  Stays: "payment_step s s"
| Leaves: "payment_step Open s"

definition terms_of where
  "terms_of p = (p_id p, p_booking p, p_kind p, p_intent p, p_amount_minor p, p_currency p,
     p_fee_mode p, p_application_fee p)"

definition goes_on :: "payment \<Rightarrow> payment \<Rightarrow> bool" where
  "goes_on p p' \<longleftrightarrow> terms_of p' = terms_of p \<and> payment_step (p_status p) (p_status p') \<and>
     (p_settled_at p \<noteq> None \<longrightarrow> p_status p' = p_status p \<and> p_settled_at p' = p_settled_at p \<and>
        p_refunded_minor p' = p_refunded_minor p) \<and>
     (p_stripe_fee p \<noteq> None \<longrightarrow> p_stripe_fee p' = p_stripe_fee p) \<and>
     (p_refund_id p \<noteq> None \<longrightarrow> p_refund_id p' = p_refund_id p)"

inductive_simps payment_step_simps: "payment_step s t"

lemma goes_on_refl [simp]: "goes_on p p"
  by (simp add: goes_on_def payment_step_simps)

lemma goes_on_trans: "goes_on p q \<Longrightarrow> goes_on q r \<Longrightarrow> goes_on p r"
  by (auto simp: goes_on_def payment_step_simps)

definition payments_go_on :: "db \<Rightarrow> db \<Rightarrow> bool" where
  "payments_go_on d d' \<longleftrightarrow> (\<forall>p \<in> set (payments d). \<exists>p' \<in> set (payments d'). goes_on p p')"

lemma payments_go_on_same: "payments d' = payments d \<Longrightarrow> payments_go_on d d'"
  unfolding payments_go_on_def by (metis goes_on_refl)

lemma payments_go_on_trans: "payments_go_on a b \<Longrightarrow> payments_go_on b c \<Longrightarrow> payments_go_on a c"
  unfolding payments_go_on_def by (meson goes_on_trans)

lemma update_payments_Inr:
  "update_payments d p f = Inr (d', rs) \<longleftrightarrow>
    d' = d\<lparr>payments := update_where p f (payments d)\<rparr> \<and> rs = returning p f (payments d) \<and>
    payments_apart (update_where p f (payments d)) \<and>
    (\<forall>x \<in> set (payments d). p x \<longrightarrow> payment_checks (f x))"
  by (auto simp: update_payments_def Let_def list_ex_iff)

lemma same_payment: "payments_ok d \<Longrightarrow> p \<in> set (payments d) \<Longrightarrow> q \<in> set (payments d) \<Longrightarrow>
    p_id p = p_id q \<Longrightarrow> p = q"
  by (auto simp: payments_ok_def distinct_map inj_on_def)

lemma apart_in:
  assumes "payments_ok d" "p \<in> set (payments d)" "q \<in> set (payments d)" "p \<noteq> q"
  shows "\<not> payment_clash p q"
proof -
  have sym: "payment_clash p q = payment_clash q p" for p q
    by (auto simp: payment_clash_def)
  obtain i j where "i < length (payments d)" "j < length (payments d)" "p = payments d ! i" "q = payments d ! j"
    using assms(2,3) by (auto simp: in_set_conv_nth)
  then show ?thesis
    using assms(1,4) sym
    by (cases i j rule: linorder_cases) (auto simp: payments_ok_def payments_apart_def sorted_wrt_iff_nth_less)
qed

section \<open>The contract of the writers\<close>

text \<open>
  A statement that updates the table moves a payment on and keeps its id, when its argument is a
  payment of the kind its caller read (\<open>legal\<close>). Then the table stays in order.
\<close>

locale payment_writer =
  fixes legal :: "db \<Rightarrow> bool"
    and sel :: "db \<Rightarrow> payment \<Rightarrow> bool"
    and change :: "db \<Rightarrow> payment \<Rightarrow> payment"
  assumes moves_on: "legal d \<Longrightarrow> p \<in> set (payments d) \<Longrightarrow> sel d p \<Longrightarrow> settled_right p \<Longrightarrow>
      payment_checks (change d p) \<Longrightarrow> goes_on p (change d p) \<and> settled_right (change d p)"
begin

lemma same_id:
  "legal d \<Longrightarrow> p \<in> set (payments d) \<Longrightarrow> sel d p \<Longrightarrow> settled_right p \<Longrightarrow>
     payment_checks (change d p) \<Longrightarrow> p_id (change d p) = p_id p"
  using moves_on by (auto simp: goes_on_def terms_of_def)

lemma keeps_table:
  assumes u: "update_payments d (sel d) (change d) = Inr (d', rs)" and l: "legal d" and ok: "payments_ok d"
  shows "payments_ok d'" "payments_go_on d d'"
proof -
  let ?f = "\<lambda>p. if sel d p then change d p else p"
  have step: "goes_on p (?f p) \<and> settled_right (?f p) \<and> payment_checks (?f p) \<and> p_id (?f p) = p_id p"
    if "p \<in> set (payments d)" for p
    using that u ok moves_on [OF l that] same_id [OF l that]
    by (auto simp: update_payments_Inr payments_ok_def)
  have d': "payments d' = map ?f (payments d)" "next_id d' = next_id d" "payments_apart (payments d')"
    using u by (auto simp: update_payments_Inr update_where_def)
  have "map p_id (payments d') = map p_id (payments d)"
    using step by (simp add: d'(1))
  moreover have "payment_checks q \<and> settled_right q \<and> p_id q < next_id d'" if "q \<in> set (payments d')" for q
  proof -
    obtain p where p: "p \<in> set (payments d)" "q = ?f p" using \<open>q \<in> set (payments d')\<close> unfolding d'(1) by auto
    have "p_id p < next_id d'" using ok p(1) d'(2) by (simp add: payments_ok_def)
    then show ?thesis using step [OF p(1)] unfolding p(2) by simp
  qed
  ultimately show "payments_ok d'"
    using ok d'(3) unfolding payments_ok_def by simp
  show "payments_go_on d d'"
    unfolding payments_go_on_def
  proof
    fix p assume p: "p \<in> set (payments d)"
    then have "?f p \<in> set (payments d')" unfolding d'(1) set_map by (rule imageI)
    then show "\<exists>p' \<in> set (payments d'). goes_on p p'"
      by (rule rev_bexI) (use step [OF p] in blast)
  qed
qed

lemma only_payments:
  "update_payments d (sel d) (change d) = Inr (d', rs) \<Longrightarrow> d' = d\<lparr>payments := payments d'\<rparr>"
  by (simp add: update_payments_Inr)

end

lemmas row_life = goes_on_def terms_of_def payment_step_simps settled_right_def

interpretation mark_checked: payment_writer "\<lambda>_. True" "\<lambda>_ p. p_id p = i \<and> p_status p = Open"
    "\<lambda>d p. p\<lparr>p_status := Checked, p_settled_at := (if by_setup then Some (now d) else None)\<rparr>" for i by_setup
  by unfold_locales (auto simp: row_life)

interpretation mark_paid: payment_writer "\<lambda>_. True" "\<lambda>_ p. p_id p = i \<and> p_status p = Open"
    "\<lambda>_ p. p\<lparr>p_status := Paid\<rparr>" for i
  by unfold_locales (auto simp: row_life)

interpretation fill_fee: payment_writer "\<lambda>_. True" "\<lambda>_ p. p_id p = i \<and> p_stripe_fee p = None"
    "\<lambda>_ p. p\<lparr>p_stripe_fee := Some fee\<rparr>" for i fee
  by unfold_locales (auto simp: row_life)

interpretation mark_canceled: payment_writer "\<lambda>_. True" "\<lambda>_ p. p_id p = i \<and> p_status p = Open"
    "\<lambda>d p. p\<lparr>p_status := Canceled, p_settled_at := Some (now d)\<rparr>" for i
  by unfold_locales (auto simp: row_life)

text \<open>\<open>settle\<close> releases a row it read as checked, and refunds one it read as paid.\<close>

definition not_open :: "uuid \<Rightarrow> db \<Rightarrow> bool" where
  "not_open i d \<longleftrightarrow> (\<forall>p \<in> set (payments d). p_id p = i \<longrightarrow> p_status p \<noteq> Open)"

interpretation released: payment_writer "not_open i" "\<lambda>_ p. p_id p = i \<and> p_settled_at p = None"
    "\<lambda>d p. p\<lparr>p_settled_at := Some (now d)\<rparr>" for i
  by unfold_locales (auto simp: row_life not_open_def)

interpretation refunded: payment_writer "not_open i" "\<lambda>_ p. p_id p = i \<and> p_settled_at p = None"
    "\<lambda>d p. p\<lparr>p_refunded_minor := due, p_refund_id := or_else (p_refund_id p) refund_id,
        p_settled_at := Some (now d), p_stripe_fee := or_else (p_stripe_fee p) fee\<rparr>"
    for i due refund_id fee
  by unfold_locales (auto simp: row_life not_open_def or_else_def split: option.splits)

interpretation refund_id: payment_writer "\<lambda>_. True" "\<lambda>_ p. p_intent p = intent"
    "\<lambda>_ p. p\<lparr>p_refund_id := or_else (p_refund_id p) (Some r)\<rparr>" for intent r
  by unfold_locales (auto simp: row_life or_else_def split: option.splits)

interpretation refund_flag: payment_writer "\<lambda>_. True" "\<lambda>_ p. p_intent p = intent"
    "\<lambda>d p. p\<lparr>p_refund_failed_at := (if refunded < p_refunded_minor p
        then or_else (p_refund_failed_at p) (Some (now d)) else None)\<rparr>" for intent refunded
  by unfold_locales (auto simp: row_life)

section \<open>The statements on a table in order\<close>

text \<open>What is neither a booking, an event nor a payment's own row stays as it is.\<close>

definition same_but_payments :: "db \<Rightarrow> db \<Rightarrow> bool" where
  "same_but_payments d d' \<longleftrightarrow> d' = d\<lparr>payments := payments d'\<rparr>"

lemma same_but_paymentsD:
  assumes "same_but_payments d d'"
  shows "bookings d' = bookings d" "memberships d' = memberships d" "now d' = now d"
    "clients d' = clients d" "settings_of d' = settings_of d" "events d' = events d"
    "jobs d' = jobs d" "next_id d' = next_id d" "payment_account d' = payment_account d"
    "limits d' = limits d"
proof -
  obtain ps where "d' = d\<lparr>payments := ps\<rparr>"
    using assms unfolding same_but_payments_def by blast
  then show "bookings d' = bookings d" "memberships d' = memberships d" "now d' = now d"
    "clients d' = clients d" "settings_of d' = settings_of d" "events d' = events d"
    "jobs d' = jobs d" "next_id d' = next_id d" "payment_account d' = payment_account d"
    "limits d' = limits d"
    by simp_all
qed

lemma payment_statements:
  "MARK_CHECKED d i by_setup = Inr (d', rs) \<Longrightarrow> payments_ok d \<Longrightarrow> payments_ok d' \<and> payments_go_on d d'"
  "MARK_PAID d i = Inr (d', rs) \<Longrightarrow> payments_ok d \<Longrightarrow> payments_ok d' \<and> payments_go_on d d'"
  "FILL_FEE d i fee = Inr (d', rs) \<Longrightarrow> payments_ok d \<Longrightarrow> payments_ok d' \<and> payments_go_on d d'"
  "MARK_CANCELED d i = Inr (d', rs) \<Longrightarrow> payments_ok d \<Longrightarrow> payments_ok d' \<and> payments_go_on d d'"
  "RELEASED d i = Inr (d', rs) \<Longrightarrow> payments_ok d \<Longrightarrow> not_open i d \<Longrightarrow> payments_ok d' \<and> payments_go_on d d'"
  "REFUNDED d i due r f = Inr (d', rs) \<Longrightarrow> payments_ok d \<Longrightarrow> not_open i d \<Longrightarrow>
     payments_ok d' \<and> payments_go_on d d'"
  "SET_REFUND_ID d intent_id k = Inr (d', rs) \<Longrightarrow> payments_ok d \<Longrightarrow> payments_ok d' \<and> payments_go_on d d'"
  "SET_REFUND_FLAG d intent_id n = Inr (d', rs) \<Longrightarrow> payments_ok d \<Longrightarrow> payments_ok d' \<and> payments_go_on d d'"
  unfolding MARK_CHECKED_def MARK_PAID_def FILL_FEE_def MARK_CANCELED_def RELEASED_def REFUNDED_def
    SET_REFUND_ID_def SET_REFUND_FLAG_def
  by (blast intro: mark_checked.keeps_table mark_paid.keeps_table fill_fee.keeps_table
      mark_canceled.keeps_table released.keeps_table refunded.keeps_table refund_id.keeps_table
      refund_flag.keeps_table)+

lemma payment_statements_only:
  "MARK_CHECKED d i by_setup = Inr (d', rs) \<Longrightarrow> same_but_payments d d'"
  "MARK_PAID d i = Inr (d', rs) \<Longrightarrow> same_but_payments d d'"
  "FILL_FEE d i fee = Inr (d', rs) \<Longrightarrow> same_but_payments d d'"
  "MARK_CANCELED d i = Inr (d', rs) \<Longrightarrow> same_but_payments d d'"
  "RELEASED d i = Inr (d', rs) \<Longrightarrow> same_but_payments d d'"
  "REFUNDED d i due r f = Inr (d', rs) \<Longrightarrow> same_but_payments d d'"
  "SET_REFUND_ID d intent_id k = Inr (d', rs) \<Longrightarrow> same_but_payments d d'"
  "SET_REFUND_FLAG d intent_id n = Inr (d', rs) \<Longrightarrow> same_but_payments d d'"
  by (simp_all add: same_but_payments_def MARK_CHECKED_def MARK_PAID_def FILL_FEE_def MARK_CANCELED_def
      RELEASED_def REFUNDED_def SET_REFUND_ID_def SET_REFUND_FLAG_def update_payments_Inr)

lemma INSERT_PAYMENT_keeps:
  assumes "INSERT_PAYMENT d booking kind intent_id amount currency mode fee = Inr (d', stored)"
    and "payments_ok d"
  shows "payments_ok d'" "payments_go_on d d'" "bookings d' = bookings d" "memberships d' = memberships d"
    "next_id d \<le> next_id d'" "now d' = now d"
proof -
  let ?p = "new_payment (next_id d) booking kind intent_id amount currency mode fee"
  have c: "d' = d \<or> payment_checks ?p \<and> payments_apart (payments d @ [?p]) \<and>
      d' = d\<lparr>payments := payments d @ [?p], next_id := Suc (next_id d)\<rparr>"
    using assms(1) by (auto simp: INSERT_PAYMENT_def Let_def split: if_splits)
  have new: "p_id ?p = next_id d" "settled_right ?p"
    by (simp_all add: new_payment_def settled_right_def)
  have "payments_ok (d\<lparr>payments := payments d @ [?p], next_id := Suc (next_id d)\<rparr>)"
    if "payment_checks ?p" "payments_apart (payments d @ [?p])"
    using that assms(2) new unfolding payments_ok_def by (auto simp: less_Suc_eq)
  then show "payments_ok d'" using c assms(2) by blast
  have "p \<in> set (payments d')" if "p \<in> set (payments d)" for p
    using c that by auto
  then show "payments_go_on d d'" unfolding payments_go_on_def using goes_on_refl by blast
  show "bookings d' = bookings d" "memberships d' = memberships d" "next_id d \<le> next_id d'" "now d' = now d"
    using c by auto
qed

text \<open>A payment once read as past open stays so, whatever happened since.\<close>

lemma not_open_later:
  assumes "payments_go_on d d'" "payments_ok d'" "p \<in> set (payments d)" "p_status p \<noteq> Open"
  shows "not_open (p_id p) d'"
proof -
  obtain p' where p': "p' \<in> set (payments d')" "goes_on p p'"
    using assms(1,3) by (auto simp: payments_go_on_def)
  then have "p_id p' = p_id p" "p_status p' \<noteq> Open"
    using assms(4) by (auto simp: row_life)
  then show ?thesis
    using same_payment [OF assms(2) p'(1)] by (auto simp: not_open_def)
qed

text \<open>At most one payment of a booking is unsettled: the live one.\<close>

lemma one_unsettled:
  assumes "payments_ok d" "p \<in> set (payments d)" "q \<in> set (payments d)"
    "p_booking p = p_booking q" "p_settled_at p = None" "p_settled_at q = None"
  shows "p = q"
proof (rule ccontr)
  assume "p \<noteq> q"
  then have "\<not> payment_clash p q" by (rule apart_in [OF assms(1-3)])
  moreover have "p_status p \<noteq> Canceled" "p_status q \<noteq> Canceled"
    using assms by (auto simp: payments_ok_def settled_right_def)
  ultimately show False using assms(4) by (simp add: payment_clash_def)
qed

end
