(* ===== verification/Fees.thy ===== *)
theory Fees
  imports Tables
begin

text \<open>
  The two rules of \<open>backend/app/payments.py\<close> on amounts: ziftbook's fee on a payment and what a booking's
  end sends back. Amounts are minor units.
\<close>

text \<open>
  Python's \<open>round\<close> of \<open>amount * bp / 10000\<close>: to the nearest, a half to the even one. The quotient is a
  float, exact enough: it is a half only when the fraction is.
\<close>

definition round_half_even :: "int \<Rightarrow> int \<Rightarrow> int" where
  "round_half_even n m =
     (let q = n div m; r = n mod m
      in if 2 * r < m \<or> 2 * r = m \<and> even q then q else q + 1)"

definition application_fee :: "fee_mode \<Rightarrow> int \<Rightarrow> int \<Rightarrow> int \<Rightarrow> int" where
  "application_fee mode bp fixed amount_minor =
     (if mode \<noteq> Business_pays_plus_fee then 0
      else min amount_minor (round_half_even (amount_minor * bp) 10000 + fixed))"

text \<open>\<open>refund_due\<close>: None is a fee not yet known. A client's own cancel keeps the fee never yet.\<close>

definition KEEP_CARD_FEE_ON_CLIENT_CANCEL :: bool where
  "KEEP_CARD_FEE_ON_CLIENT_CANCEL = False"

definition refund_due :: "int \<Rightarrow> int \<Rightarrow> status \<Rightarrow> int option \<Rightarrow> int option" where
  "refund_due amount_minor pct ending fee =
     (let due = amount_minor * pct div 100
      in if KEEP_CARD_FEE_ON_CLIENT_CANCEL \<and> ending = Cancelled_by_client \<and> 0 < due
         then (case fee of None \<Rightarrow> None | Some f \<Rightarrow> Some (max 0 (due - f)))
         else Some due)"

section \<open>What they come to\<close>

lemma round_half_even_bounds:
  assumes "0 < m"
  shows "\<bar>2 * (m * round_half_even n m - n)\<bar> \<le> m"
proof -
  have "m * (n div m) = n - n mod m" by (simp add: minus_mod_eq_mult_div)
  moreover have "0 \<le> n mod m" "n mod m < m" using assms by simp_all
  ultimately show ?thesis
    by (auto simp: round_half_even_def Let_def distrib_left abs_le_iff)
qed

lemma refund_due_known: "refund_due amount pct ending fee = Some (amount * pct div 100)"
  by (simp add: refund_due_def KEEP_CARD_FEE_ON_CLIENT_CANCEL_def Let_def)

lemma refund_due_range:
  assumes "refund_due amount pct ending fee = Some due" "0 \<le> amount" "0 \<le> pct" "pct \<le> 100"
  shows "0 \<le> due" "due \<le> amount"
proof -
  have due: "due = amount * pct div 100" using assms(1) by (simp add: refund_due_known)
  show "0 \<le> due" using assms unfolding due by (simp add: pos_imp_zdiv_nonneg_iff)
  have "amount * pct \<le> amount * 100" using assms by (intro mult_left_mono) auto
  then show "due \<le> amount" unfolding due by linarith
qed

end
