(* ===== verification/Limits.thy ===== *)
theory Limits
  imports Prelude
begin

text \<open>
  \<open>backend/app/limits.py\<close>: attempts counted per key in a fixed window, given back, read, and the
  slots that bound the calls one address has in flight. Shows that the count of a key is exact, that
  a key admits at most its limit per window, that giving back never goes below zero, and that the
  slots taken are always exactly those held.
\<close>

section \<open>The table\<close>

text \<open>\<open>rate_limits\<close>: per key the start of its window and its hits.\<close>

type_synonym 'k table = "'k \<rightharpoonup> (instant \<times> int)"

definition MAX_WINDOW :: int where "MAX_WINDOW = day_us"
definition MARGIN :: int where "MARGIN = hour_us"

text \<open>\<open>_check\<close>.\<close>

definition check_window :: "int \<Rightarrow> unit result" where
  "check_window w = (if MAX_WINDOW < w then Inl (Uncaught ''ValueError'') else Inr ())"

text \<open>\<open>r.window_start > now() - window\<close>: the window is still running.\<close>

definition live_window :: "instant \<Rightarrow> int \<Rightarrow> instant \<times> int \<Rightarrow> bool" where
  "live_window clock w r \<longleftrightarrow> clock - w < fst r"

text \<open>\<open>HIT\<close>, one row of it and the whole statement: one upsert per key.\<close>

definition hit_row :: "instant \<Rightarrow> int \<Rightarrow> (instant \<times> int) option \<Rightarrow> instant \<times> int" where
  "hit_row clock w r =
     (case r of
        None \<Rightarrow> (clock, 1)
      | Some (start, hits) \<Rightarrow>
          (if live_window clock w (start, hits) then start else clock,
           if live_window clock w (start, hits) then hits + 1 else 1))"

definition HIT :: "instant \<Rightarrow> int \<Rightarrow> 'k list \<Rightarrow> 'k table \<Rightarrow> 'k table" where
  "HIT clock w keys t = fold (\<lambda>k t. t(k \<mapsto> hit_row clock w (t k))) keys t"

definition hits_at :: "'k table \<Rightarrow> 'k \<Rightarrow> int" where
  "hits_at t k = (case t k of None \<Rightarrow> 0 | Some (_, hits) \<Rightarrow> hits)"

text \<open>
  \<open>PURGE\<close> deletes up to 100 of the rows whose window started long ago; which ones (and how many, as
  it skips rows others hold) is the database's choice, the argument \<open>chosen\<close>.
\<close>

definition PURGE :: "instant \<Rightarrow> ('k \<Rightarrow> bool) \<Rightarrow> 'k table \<Rightarrow> 'k table" where
  "PURGE clock chosen t =
     (\<lambda>k. case t k of
        Some r \<Rightarrow> if chosen k \<and> fst r < clock - (MAX_WINDOW + MARGIN) then None else Some r
      | None \<Rightarrow> None)"

section \<open>The functions\<close>

text \<open>\<open>_charge\<close>: the table afterwards and the count of each key, in the order of the keys.\<close>

definition charge_keys ::
  "instant \<Rightarrow> ('k \<Rightarrow> bool) \<Rightarrow> 'k list \<Rightarrow> int \<Rightarrow> 'k table \<Rightarrow> ('k table \<times> ('k \<times> int) list) result" where
  "charge_keys clock chosen keys w t =
     (case check_window w of
        Inl e \<Rightarrow> Inl e
      | Inr _ \<Rightarrow>
          let t' = HIT clock w keys t
          in Inr (PURGE clock chosen t', map (\<lambda>k. (k, hits_at t' k)) keys))"

text \<open>\<open>hit\<close> of a dict of limits (its keys are distinct), in its own transaction.\<close>

definition hit ::
  "instant \<Rightarrow> ('k \<Rightarrow> bool) \<Rightarrow> ('k \<times> int) list \<Rightarrow> int \<Rightarrow> 'k table \<Rightarrow> ('k table \<times> bool) result" where
  "hit clock chosen lims w t =
     (case charge_keys clock chosen (map fst lims) w t of
        Inl e \<Rightarrow> Inl e
      | Inr (t', counted) \<Rightarrow>
          Inr (t', list_ex (\<lambda>(k, hits). the (map_of lims k) < hits) counted))"

text \<open>\<open>hit\<close> with \<open>db\<close>: in the caller's transaction, no purge.\<close>

definition hit_within ::
  "instant \<Rightarrow> ('k \<times> int) list \<Rightarrow> int \<Rightarrow> 'k table \<Rightarrow> ('k table \<times> bool) result" where
  "hit_within clock lims w t =
     (case check_window w of
        Inl e \<Rightarrow> Inl e
      | Inr _ \<Rightarrow>
          let t' = HIT clock w (map fst lims) t
          in Inr (t', list_ex (\<lambda>(k, lim). lim < hits_at t' k) lims))"

definition charge ::
  "instant \<Rightarrow> ('k \<Rightarrow> bool) \<Rightarrow> 'k \<Rightarrow> int \<Rightarrow> 'k table \<Rightarrow> ('k table \<times> int) result" where
  "charge clock chosen k w t =
     (case charge_keys clock chosen [k] w t of
        Inl e \<Rightarrow> Inl e
      | Inr (t', counted) \<Rightarrow> Inr (t', the (map_of counted k)))"

definition refund :: "instant \<Rightarrow> 'k list \<Rightarrow> int \<Rightarrow> 'k table \<Rightarrow> 'k table result" where
  "refund clock keys w t =
     (case check_window w of
        Inl e \<Rightarrow> Inl e
      | Inr _ \<Rightarrow>
          Inr (\<lambda>k. case t k of
             Some (start, hits) \<Rightarrow>
               if k \<in> set keys \<and> 0 < hits \<and> live_window clock w (start, hits)
               then Some (start, hits - 1) else Some (start, hits)
           | None \<Rightarrow> None))"

text \<open>The attempts counted in the window that is running.\<close>

definition live_hits :: "instant \<Rightarrow> int \<Rightarrow> 'k table \<Rightarrow> 'k \<Rightarrow> int" where
  "live_hits clock w t k =
     (case t k of Some r \<Rightarrow> if live_window clock w r then snd r else 0 | None \<Rightarrow> 0)"

definition count :: "instant \<Rightarrow> 'k \<Rightarrow> int \<Rightarrow> 'k table \<Rightarrow> int result" where
  "count clock k w t =
     (case check_window w of Inl e \<Rightarrow> Inl e | Inr _ \<Rightarrow> Inr (live_hits clock w t k))"

definition count_all :: "instant \<Rightarrow> 'k list \<Rightarrow> int \<Rightarrow> 'k table \<Rightarrow> int result" where
  "count_all clock keys w t =
     (case check_window w of
        Inl e \<Rightarrow> Inl e
      | Inr _ \<Rightarrow> Inr (sum_list (map (live_hits clock w t) (remdups keys))))"

section \<open>Counting\<close>

lemma HIT_Nil [simp]: "HIT clock w [] t = t"
  by (simp add: HIT_def)

lemma HIT_Cons [simp]: "HIT clock w (a # keys) t = HIT clock w keys (t(a \<mapsto> hit_row clock w (t a)))"
  by (simp add: HIT_def)

lemma HIT_other: "k \<notin> set keys \<Longrightarrow> HIT clock w keys t k = t k"
  by (induction keys arbitrary: t) auto

lemma HIT_at: "distinct keys \<Longrightarrow> k \<in> set keys \<Longrightarrow> HIT clock w keys t k = Some (hit_row clock w (t k))"
proof (induction keys arbitrary: t)
  case (Cons a keys)
  show ?case
  proof (cases "k = a")
    case True
    then show ?thesis
      using Cons.prems by (simp add: HIT_other)
  next
    case False
    then have "HIT clock w keys (t(a \<mapsto> hit_row clock w (t a))) k =
        Some (hit_row clock w ((t(a \<mapsto> hit_row clock w (t a))) k))"
      using Cons.prems by (intro Cons.IH) auto
    then show ?thesis using False by simp
  qed
qed simp

text \<open>A charge counts one more than the attempts of the running window.\<close>

lemma hits_HIT:
  assumes "distinct keys" "k \<in> set keys"
  shows "hits_at (HIT clock w keys t) k = live_hits clock w t k + 1"
  using HIT_at [OF assms, of clock w t]
  by (auto simp: hits_at_def hit_row_def live_hits_def split: option.splits)

lemma live_hits_HIT:
  assumes "distinct keys" "0 < w"
  shows "live_hits clock w (HIT clock w keys t) k =
    (if k \<in> set keys then live_hits clock w t k + 1 else live_hits clock w t k)"
proof (cases "k \<in> set keys")
  case True
  then show ?thesis
    using HIT_at [OF assms(1) True, of clock w t] assms(2)
    by (auto simp: hit_row_def live_hits_def live_window_def split: option.splits)
qed (simp add: HIT_other live_hits_def)

text \<open>The purge takes nothing a running window still needs.\<close>

lemma live_hits_PURGE:
  assumes "w \<le> MAX_WINDOW"
  shows "live_hits clock w (PURGE clock chosen t) k = live_hits clock w t k"
  using assms by (auto simp: live_hits_def PURGE_def live_window_def MAX_WINDOW_def MARGIN_def
      split: option.splits)

lemma check_window_Inr: "check_window w = Inr u \<longleftrightarrow> w \<le> MAX_WINDOW"
  by (auto simp: check_window_def)

lemma hit_spec:
  assumes "hit clock chosen lims w t = Inr (t', over)" "distinct (map fst lims)" "0 < w"
  shows "live_hits clock w t' k =
      (if k \<in> fst ` set lims then live_hits clock w t k + 1 else live_hits clock w t k)"
    and "over \<longleftrightarrow> (\<exists>(k, lim) \<in> set lims. lim < live_hits clock w t k + 1)"
proof -
  let ?t = "HIT clock w (map fst lims) t"
  have w: "w \<le> MAX_WINDOW" and t': "t' = PURGE clock chosen ?t"
    and over: "over \<longleftrightarrow> (\<exists>(k, lim) \<in> set lims. the (map_of lims k) < hits_at ?t k)"
    using assms(1)
    by (auto simp: hit_def charge_keys_def check_window_Inr Let_def list_ex_iff Bex_def image_iff
        split: sum.splits) blast+
  show "live_hits clock w t' k =
      (if k \<in> fst ` set lims then live_hits clock w t k + 1 else live_hits clock w t k)"
    using live_hits_HIT [OF assms(2,3), of clock t k] by (simp add: t' live_hits_PURGE [OF w])
  have "the (map_of lims k) < hits_at ?t k \<longleftrightarrow> lim < live_hits clock w t k + 1"
    if "(k, lim) \<in> set lims" for k lim
  proof -
    have "k \<in> set (map fst lims)" using that by force
    then show ?thesis
      using hits_HIT [OF assms(2), of k clock w t] assms(2) that by simp
  qed
  then show "over \<longleftrightarrow> (\<exists>(k, lim) \<in> set lims. lim < live_hits clock w t k + 1)"
    unfolding over by (intro bex_cong refl) auto
qed

lemma refund_spec:
  assumes "refund clock keys w t = Inr t'"
  shows "live_hits clock w t' k =
    (if k \<in> set keys \<and> 0 < live_hits clock w t k then live_hits clock w t k - 1
     else live_hits clock w t k)"
proof -
  have "t' k = (case t k of
             Some (start, hits) \<Rightarrow>
               if k \<in> set keys \<and> 0 < hits \<and> live_window clock w (start, hits)
               then Some (start, hits - 1) else Some (start, hits)
           | None \<Rightarrow> None)"
    using assms by (auto simp: refund_def check_window_def split: if_splits)
  then show ?thesis
    by (auto simp: live_hits_def live_window_def split: option.splits)
qed

section \<open>The slots of one address\<close>

text \<open>
  \<open>_slot\<close>: a call takes a slot of its address and of its /48 (its bucket pair), and gives both back
  when it ends, however it ends. Many calls run at once; each step below is one pass through the
  locked section. A state holds the counters (\<open>_in_flight\<close>, no entry for 0) and the bucket pairs of
  the calls now between the two sections.
\<close>

definition MAX_IN_FLIGHT :: nat where "MAX_IN_FLIGHT = 2"
definition MAX_IN_FLIGHT_PER_48 :: nat where "MAX_IN_FLIGHT_PER_48 = 8"

type_synonym 'b counters = "'b \<rightharpoonup> nat"

definition get0 :: "'b counters \<Rightarrow> 'b \<Rightarrow> nat" where
  "get0 c b = (case c b of None \<Rightarrow> 0 | Some n \<Rightarrow> n)"

definition full :: "'b counters \<Rightarrow> 'b \<times> 'b \<Rightarrow> bool" where
  "full c bs \<longleftrightarrow> MAX_IN_FLIGHT \<le> get0 c (fst bs) \<or> MAX_IN_FLIGHT_PER_48 \<le> get0 c (snd bs)"

definition take_slot :: "'b counters \<Rightarrow> 'b \<times> 'b \<Rightarrow> 'b counters" where
  "take_slot c bs =
     (let c1 = c(fst bs \<mapsto> get0 c (fst bs) + 1) in c1(snd bs \<mapsto> get0 c1 (snd bs) + 1))"

definition put_one :: "'b counters \<Rightarrow> 'b \<Rightarrow> 'b counters" where
  "put_one c b = (if c b = Some 1 then c(b := None) else c(b \<mapsto> the (c b) - 1))"

definition put_slot :: "'b counters \<Rightarrow> 'b \<times> 'b \<Rightarrow> 'b counters" where
  "put_slot c bs = put_one (put_one c (fst bs)) (snd bs)"

definition enter :: "'b counters \<Rightarrow> 'b \<times> 'b \<Rightarrow> 'b counters result" where
  "enter c bs = (if full c bs then Inl (ApiError 429 ''rate_limited'') else Inr (take_slot c bs))"

type_synonym 'b in_flight = "'b counters \<times> ('b \<times> 'b) list"

inductive slot_step :: "'b in_flight \<Rightarrow> 'b in_flight \<Rightarrow> bool" where
  Enter: "enter c bs = Inr c' \<Longrightarrow> slot_step (c, held) (c', bs # held)"
| Refuse: "enter c bs = Inl e \<Longrightarrow> slot_step (c, held) (c, held)"
| Leave: "bs \<in> set held \<Longrightarrow> slot_step (c, held) (put_slot c bs, remove1 bs held)"

inductive_cases slot_stepE: "slot_step (c, held) s"

text \<open>An address bucket is never a /48 bucket: the keys start with different names.\<close>

definition apart :: "('b \<times> 'b) list \<Rightarrow> bool" where
  "apart held \<longleftrightarrow> fst ` set held \<inter> snd ` set held = {}"

definition held_at :: "('b \<times> 'b) list \<Rightarrow> 'b \<Rightarrow> nat" where
  "held_at held b = length (filter (\<lambda>bs. fst bs = b) held) + length (filter (\<lambda>bs. snd bs = b) held)"

text \<open>The counters say exactly what is held.\<close>

definition in_step :: "'b in_flight \<Rightarrow> bool" where
  "in_step s \<longleftrightarrow> (\<forall>b. fst s b = (if held_at (snd s) b = 0 then None else Some (held_at (snd s) b)))"

lemma held_at_simps [simp]:
  "held_at [] b = 0"
  "held_at (bs # held) b =
     held_at held b + (if fst bs = b then 1 else 0) + (if snd bs = b then 1 else 0)"
  by (auto simp: held_at_def)

lemma held_at_remove1: "bs \<in> set held \<Longrightarrow>
  held_at held b = held_at (remove1 bs held) b + (if fst bs = b then 1 else 0) + (if snd bs = b then 1 else 0)"
  by (induction held) auto

lemma in_step_get0: "in_step (c, held) \<Longrightarrow> get0 c b = held_at held b"
  by (simp add: in_step_def get0_def)

lemma in_step_put_one:
  "(\<And>b. c b = (if h b = 0 then None else Some (h b))) \<Longrightarrow> h x \<noteq> 0 \<Longrightarrow>
   put_one c x b = (if (h(x := h x - 1)) b = 0 then None else Some ((h(x := h x - 1)) b))"
  by (auto simp: put_one_def)

lemma in_step_steps:
  assumes "in_step s" "slot_step s s'"
  shows "in_step s'"
  using assms(2,1)
proof cases
  case (Enter c bs c' held)
  then have "c' = take_slot c bs" by (simp add: enter_def split: if_splits)
  then show ?thesis
    using Enter in_step_get0 [of c held] assms(1)
    by (auto simp: in_step_def take_slot_def Let_def get0_def)
next
  case (Leave bs held c)
  let ?h = "held_at held"
  let ?h1 = "?h(fst bs := ?h (fst bs) - 1)"
  have c: "c b = (if ?h b = 0 then None else Some (?h b))" for b
    using assms(1) Leave by (simp add: in_step_def)
  have "?h (fst bs) \<noteq> 0" "?h1 (snd bs) \<noteq> 0"
    using held_at_remove1 [OF Leave(3), of "fst bs"] held_at_remove1 [OF Leave(3), of "snd bs"]
    by (auto split: if_splits)
  note nz = this
  have one: "put_one c (fst bs) b = (if ?h1 b = 0 then None else Some (?h1 b))" for b
    using in_step_put_one [of c ?h "fst bs" b] c nz(1) by blast
  have "put_slot c bs b = (if (?h1(snd bs := ?h1 (snd bs) - 1)) b = 0 then None
      else Some ((?h1(snd bs := ?h1 (snd bs) - 1)) b))" for b
    using in_step_put_one [of "put_one c (fst bs)" ?h1 "snd bs" b] one nz(2)
    unfolding put_slot_def by blast
  moreover have "(?h1(snd bs := ?h1 (snd bs) - 1)) b = held_at (remove1 bs held) b" for b
    using held_at_remove1 [OF Leave(3), of b] by (auto split: if_splits)
  ultimately show ?thesis
    using Leave by (simp add: in_step_def)
qed simp

definition within_caps :: "('b \<times> 'b) list \<Rightarrow> bool" where
  "within_caps held \<longleftrightarrow> (\<forall>(a, n) \<in> set held.
     length (filter (\<lambda>bs. fst bs = a) held) \<le> MAX_IN_FLIGHT \<and>
     length (filter (\<lambda>bs. snd bs = n) held) \<le> MAX_IN_FLIGHT_PER_48)"

lemma within_caps_Enter:
  assumes "in_step (c, held)" "within_caps held" "\<not> full c bs"
  shows "within_caps (bs # held)"
proof -
  have "held_at held (fst bs) < MAX_IN_FLIGHT" "held_at held (snd bs) < MAX_IN_FLIGHT_PER_48"
    using assms(3) in_step_get0 [OF assms(1)] by (auto simp: full_def)
  then have "length (filter (\<lambda>x. fst x = fst bs) held) < MAX_IN_FLIGHT"
    "length (filter (\<lambda>x. snd x = snd bs) held) < MAX_IN_FLIGHT_PER_48"
    by (auto simp: held_at_def)
  then show ?thesis
    using assms(2) by (auto simp: within_caps_def)
qed

lemma within_caps_remove1:
  assumes "within_caps held"
  shows "within_caps (remove1 bs held)"
proof -
  have le: "length (filter P (remove1 bs held)) \<le> length (filter P held)" for P
    by (induction held) auto
  show ?thesis
    unfolding within_caps_def
  proof (intro ballI, clarify)
    fix a n assume "(a, n) \<in> set (remove1 bs held)"
    then have "(a, n) \<in> set held"
      using set_remove1_subset by (metis subsetD)
    then have "length (filter (\<lambda>bs. fst bs = a) held) \<le> MAX_IN_FLIGHT"
      "length (filter (\<lambda>bs. snd bs = n) held) \<le> MAX_IN_FLIGHT_PER_48"
      using assms by (auto simp: within_caps_def)
    then show "length (filter (\<lambda>bs. fst bs = a) (remove1 bs held)) \<le> MAX_IN_FLIGHT \<and>
        length (filter (\<lambda>bs. snd bs = n) (remove1 bs held)) \<le> MAX_IN_FLIGHT_PER_48"
      using le [of "\<lambda>bs. fst bs = a"] le [of "\<lambda>bs. snd bs = n"] by linarith
  qed
qed

lemma slots_reachable:
  "slot_step\<^sup>*\<^sup>* (Map.empty, []) s \<Longrightarrow> in_step s \<and> within_caps (snd s)"
proof (induction rule: rtranclp_induct)
  case base
  then show ?case by (simp add: in_step_def within_caps_def)
next
  case (step s s')
  have "within_caps (snd s')"
    using step.hyps(2)
  proof cases
    case (Enter c bs c' held)
    then show ?thesis
      using within_caps_Enter [of c held bs] step.IH by (simp add: enter_def split: if_splits)
  next
    case (Leave bs held c)
    then show ?thesis
      using within_caps_remove1 [of held bs] step.IH by simp
  qed (use step.IH in simp)
  then show ?case
    using in_step_steps step by blast
qed

section \<open>Whom a key stands for\<close>

text \<open>
  \<open>ip_key\<close>: IPv4 per address, IPv6 per network of the given prefix, everything else one key. An IPv4
  address mapped into IPv6 counts as itself. A key is kept as its parts; the code writes them as text
  (or, with a pepper, as a digest).
\<close>

datatype bucket = Unknown | Address4 nat | Network6 nat nat

definition ipv4_mapped :: "nat \<Rightarrow> nat option" where
  "ipv4_mapped a = (if a div 2 ^ 32 = 65535 then Some (a mod 2 ^ 32) else None)"

definition ip_bucket :: "nat \<Rightarrow> ip option \<Rightarrow> bucket" where
  "ip_bucket v6_prefix host =
     (case host of
        None \<Rightarrow> Unknown
      | Some (V4 a) \<Rightarrow> Address4 a
      | Some (V6 a) \<Rightarrow>
          (case ipv4_mapped a of
             Some v4 \<Rightarrow> Address4 v4
           | None \<Rightarrow> Network6 v6_prefix (a div 2 ^ (128 - v6_prefix))))"

definition ip_key :: "string \<Rightarrow> ip option \<Rightarrow> string \<times> bucket" where
  "ip_key action host = (action, ip_bucket 64 host)"

definition AUTH_V6_PREFIX :: nat where "AUTH_V6_PREFIX = 48"

text \<open>The pair of buckets \<open>_slot\<close> takes for an address.\<close>

definition slot_buckets :: "ip option \<Rightarrow> (string \<times> bucket) \<times> (string \<times> bucket)" where
  "slot_buckets host =
     ((''in_flight'', ip_bucket 64 host), (''in_flight_48'', ip_bucket AUTH_V6_PREFIX host))"

lemma slot_buckets_apart: "apart (map slot_buckets hosts)"
  by (auto simp: apart_def slot_buckets_def)

text \<open>One /64 has one bucket, and one /48 bucket: addresses that differ in their last 64 bits only.\<close>

lemma ip_bucket_64:
  assumes "a div 2 ^ 64 = b div 2 ^ 64" "ipv4_mapped a = None" "ipv4_mapped b = None"
  shows "slot_buckets (Some (V6 a)) = slot_buckets (Some (V6 b))"
proof -
  have "x div 2 ^ 80 = x div 2 ^ 64 div 2 ^ 16" for x :: nat
    by (simp add: div_mult2_eq [symmetric])
  then show ?thesis
    using assms by (simp add: slot_buckets_def ip_bucket_def AUTH_V6_PREFIX_def)
qed

section \<open>What the limits promise\<close>

text \<open>
  An attempt adds exactly one to each of its keys in the running window and to no other,
  whatever the purge removes, and is refused exactly when a key is then over its limit.
\<close>

lemma hit_counts_exactly:
  assumes "hit clock doomed lims w t = Inr (t', over)" and "distinct (map fst lims)" and "0 < w"
  shows "live_hits clock w t' k =
      (if k \<in> fst ` set lims then live_hits clock w t k + 1 else live_hits clock w t k) \<and>
    over = list_ex (\<lambda>(k, lim). lim < live_hits clock w t k + 1) lims"
  using hit_spec [OF assms] by (simp add: list_ex_iff case_prod_unfold)

text \<open>
  In every interleaving of calls entering and leaving, the counters say exactly what is
  in flight, at most 2 calls per address and 8 per network.
\<close>

lemma calls_in_flight_bounded:
  assumes "slot_step\<^sup>*\<^sup>* (Map.empty, []) s"
  shows "in_step s \<and> within_caps (snd s)"
  by (rule slots_reachable [OF assms])

theorem one_network_one_bucket:
  assumes "a div 2 ^ 64 = b div 2 ^ 64" and "ipv4_mapped a = None" and "ipv4_mapped b = None"
  shows "slot_buckets (Some (V6 a)) = slot_buckets (Some (V6 b)) \<and>
    ip_key act (Some (V6 a)) = ip_key act (Some (V6 b))"
  using ip_bucket_64 [OF assms] assms by (simp add: ip_key_def slot_buckets_def)

theorem one_network_one_bucket_witness:
  "ip_key ''booking'' (Some (V6 (2 ^ 100 + 5))) = ip_key ''booking'' (Some (V6 (2 ^ 100 + 9)))"
  by (rule one_network_one_bucket [THEN conjunct2]) (simp_all add: ipv4_mapped_def)

end
