(* ===== verification/Jobs.thy ===== *)
theory Jobs
  imports Samples
begin

text \<open>
  \<open>backend/app/jobs.py\<close>: jobs added once per dedupe key, claimed in batches under a lease, retried with
  a doubling backoff up to \<open>MAX_ATTEMPTS\<close>, and pruned. Shows that a kept key is never queued twice,
  that a claimed job cannot be claimed again before its lease ends, that no job is claimed more than
  five times, and that pruning takes nothing that could still run.
\<close>

section \<open>Adding a job\<close>

text \<open>\<open>ENQUEUE\<close>: \<open>ON CONFLICT (dedupe_key) DO NOTHING\<close>.\<close>

definition enqueue :: "db \<Rightarrow> job_kind \<Rightarrow> dedupe_key \<Rightarrow> extra list \<Rightarrow> instant option \<Rightarrow> db \<times> bool" where
  "enqueue d kind key payload due =
     (if list_ex (\<lambda>j. j_key j = key) (jobs d) then (d, False)
      else
        let at = (case due of None \<Rightarrow> now d | Some t \<Rightarrow> t)
        in (d\<lparr>jobs := jobs d @ [\<lparr>j_id = next_id d, j_kind = kind, j_key = key, j_payload = payload, j_due_at = at,
               j_next_attempt_at = at, j_attempts = 0, j_completed_at = None, j_skipped = False,
               j_error = False\<rparr>],
              next_id := Suc (next_id d)\<rparr>, True))"

section \<open>Running jobs\<close>

definition MAX_ATTEMPTS :: nat where "MAX_ATTEMPTS = 5"
definition RETENTION_DAYS :: int where "RETENTION_DAYS = 30"
definition BATCH :: nat where "BATCH = 20"

definition claimable :: "instant \<Rightarrow> job_kind list \<Rightarrow> job \<Rightarrow> bool" where
  "claimable clock kinds j \<longleftrightarrow> j_completed_at j = None \<and> j_attempts j < MAX_ATTEMPTS \<and>
     j_next_attempt_at j \<le> clock \<and> j_kind j \<in> set kinds"

text \<open>\<open>FOR UPDATE SKIP LOCKED\<close>: \<open>locked\<close> are the rows another worker holds just now.\<close>

definition chosen :: "instant \<Rightarrow> job_kind list \<Rightarrow> (uuid \<Rightarrow> bool) \<Rightarrow> job list \<Rightarrow> uuid list" where
  "chosen clock kinds locked js = take BATCH (map j_id
     (filter (\<lambda>j. \<not> locked (j_id j))
       (sort_key j_next_attempt_at (filter (claimable clock kinds) js))))"

definition lease :: "instant \<Rightarrow> job \<Rightarrow> job" where
  "lease clock j = j\<lparr>j_attempts := Suc (j_attempts j),
     j_next_attempt_at := clock + minute_us * 2 ^ j_attempts j\<rparr>"

text \<open>\<open>_claim\<close>: the table afterwards, and per claimed job its attempts and how overdue it is.\<close>

definition claim ::
  "instant \<Rightarrow> job_kind list \<Rightarrow> (uuid \<Rightarrow> bool) \<Rightarrow> job list \<Rightarrow> job list \<times> (job \<times> nat \<times> int) list" where
  "claim clock kinds locked js =
     (let ids = chosen clock kinds locked js; hit = (\<lambda>j. j_id j \<in> set ids)
      in (update_where hit (lease clock) js,
          map (\<lambda>j. (j, j_attempts j, clock - j_due_at j)) (returning hit (lease clock) js)))"

text \<open>\<open>_run\<close>, as far as the job's row goes: skipped past its grace, else what the handler did.\<close>

datatype outcome = Done | Failed

definition run :: "instant \<Rightarrow> int \<Rightarrow> uuid \<Rightarrow> int \<Rightarrow> outcome \<Rightarrow> job list \<Rightarrow> job list" where
  "run clock grace job overdue handled js =
     update_where (\<lambda>j. j_id j = job)
       (\<lambda>j. if grace < overdue then j\<lparr>j_completed_at := Some clock, j_skipped := True\<rparr>
            else case handled of
                   Done \<Rightarrow> j\<lparr>j_completed_at := Some clock\<rparr>
                 | Failed \<Rightarrow> j\<lparr>j_error := True\<rparr>) js"

definition prunable :: "instant \<Rightarrow> job \<Rightarrow> bool" where
  "prunable clock j \<longleftrightarrow>
     (case j_completed_at j of
        Some t \<Rightarrow> t < clock - RETENTION_DAYS * day_us
      | None \<Rightarrow> MAX_ATTEMPTS \<le> j_attempts j \<and>
                j_next_attempt_at j < clock - RETENTION_DAYS * day_us)"

definition prune :: "instant \<Rightarrow> job list \<Rightarrow> job list \<times> nat" where
  "prune clock js =
     (filter (\<lambda>j. \<not> prunable clock j) js, length (filter (prunable clock) js))"

text \<open>\<open>queue\<close>: the backlog per kind, and since when its oldest job waits.\<close>

definition queue :: "instant \<Rightarrow> job_kind list \<Rightarrow> job list \<Rightarrow> (job_kind \<times> nat \<times> int) list" where
  "queue clock kinds js =
     (let waiting = filter (claimable clock kinds) js
      in map (\<lambda>k. let mine = filter (\<lambda>j. j_kind j = k) waiting
                  in (k, length mine, clock - Min (set (map j_next_attempt_at mine))))
             (remdups (map j_kind waiting)))"

section \<open>Keys are unique\<close>

definition jobs_ok :: "db \<Rightarrow> bool" where
  "jobs_ok d \<longleftrightarrow> distinct (map j_key (jobs d)) \<and> (\<forall>j \<in> set (jobs d). j_attempts j \<le> MAX_ATTEMPTS)"

lemma enqueue_ok [keeps]: "jobs_ok d \<Longrightarrow> jobs_ok (fst (enqueue d kind key payload due))"
  by (auto simp: enqueue_def jobs_ok_def Let_def list_ex_iff)

lemma enqueue_fields [simp]:
  "bookings (fst (enqueue d kind key payload due)) = bookings d"
  "events (fst (enqueue d kind key payload due)) = events d"
  "now (fst (enqueue d kind key payload due)) = now d"
  "clients (fst (enqueue d kind key payload due)) = clients d"
  "memberships (fst (enqueue d kind key payload due)) = memberships d"
  "settings_of (fst (enqueue d kind key payload due)) = settings_of d"
  "services (fst (enqueue d kind key payload due)) = services d"
  "payments (fst (enqueue d kind key payload due)) = payments d"
  "limits (fst (enqueue d kind key payload due)) = limits d"
  "audit (fst (enqueue d kind key payload due)) = audit d"
  "tenant (fst (enqueue d kind key payload due)) = tenant d"
  "time_offs (fst (enqueue d kind key payload due)) = time_offs d"
  by (simp_all add: enqueue_def Let_def)

lemma enqueue_key: "key \<in> j_key ` set (jobs (fst (enqueue d kind key payload due)))"
  by (auto simp: enqueue_def Let_def list_ex_iff image_iff)

lemma enqueue_keeps: "set (jobs d) \<subseteq> set (jobs (fst (enqueue d kind key payload due)))"
  by (auto simp: enqueue_def Let_def)

lemma enqueue_twice: "enqueue (fst (enqueue d kind key payload due)) kind' key payload' due' =
   (fst (enqueue d kind key payload due), False)"
  by (simp add: enqueue_def Let_def)

section \<open>Claims\<close>

lemma chosenD:
  "i \<in> set (chosen clock kinds locked js) \<Longrightarrow>
   \<exists>j \<in> set js. j_id j = i \<and> claimable clock kinds j \<and> \<not> locked i"
  by (auto simp: chosen_def dest!: in_set_takeD)

lemma chosen_length: "length (chosen clock kinds locked js) \<le> BATCH"
  by (simp add: chosen_def)

lemma claim_mem:
  assumes "distinct (map j_id js)" "claim clock kinds locked js = (js', got)"
    and "(j', n, overdue) \<in> set got"
  shows "\<exists>j \<in> set js. claimable clock kinds j \<and> \<not> locked (j_id j) \<and> j' = lease clock j \<and>
    n = Suc (j_attempts j) \<and> overdue = clock - j_due_at j \<and> j' \<in> set js'"
proof -
  let ?ids = "chosen clock kinds locked js"
  obtain j where j: "j \<in> set js" "j_id j \<in> set ?ids" "j' = lease clock j"
    "n = j_attempts j'" "overdue = clock - j_due_at j'"
    using assms(2,3) by (auto simp: claim_def Let_def returning_def)
  obtain j0 where "j0 \<in> set js" "j_id j0 = j_id j" "claimable clock kinds j0" "\<not> locked (j_id j)"
    using chosenD [OF j(2)] by auto
  moreover from this have "j0 = j"
    using assms(1) j(1) by (auto simp: distinct_map dest: inj_onD)
  moreover have "j' \<in> set js'"
    using assms(2) j by (auto simp: claim_def Let_def)
  ultimately show ?thesis
    using j by (auto simp: lease_def)
qed

lemma claim_count:
  assumes "distinct (map j_id js)" "claim clock kinds locked js = (js', got)"
  shows "length got \<le> BATCH"
proof -
  let ?ids = "chosen clock kinds locked js"
  let ?hit = "filter (\<lambda>j. j_id j \<in> set ?ids) js"
  have "length got = length (map j_id ?hit)"
    using assms(2) by (auto simp: claim_def Let_def returning_def)
  also have "\<dots> = card (set (map j_id ?hit))"
    using assms(1) by (intro distinct_card [symmetric]) (simp add: distinct_map inj_on_def)
  also have "\<dots> \<le> card (set ?ids)"
    by (intro card_mono) auto
  also have "\<dots> \<le> BATCH"
    using card_length [of ?ids] chosen_length [of clock kinds locked js] by linarith
  finally show ?thesis .
qed

text \<open>A leased job is not claimable before its lease ends, so not by anyone else either.\<close>

lemma lease_excludes: "clock' < clock + minute_us * 2 ^ j_attempts j \<Longrightarrow> \<not> claimable clock' kinds (lease clock j)"
  by (simp add: claimable_def lease_def)

lemma claimed_not_reclaimed:
  assumes ids: "distinct (map j_id js)" and c1: "claim clock kinds locked js = (js1, got1)"
    and c2: "claim clock' kinds' locked' js1 = (js2, got2)"
    and j: "(j, n, overdue) \<in> set got1" and early: "clock' < clock + minute_us"
  shows "j_id j \<notin> (\<lambda>(j, _). j_id j) ` set got2"
proof
  assume "j_id j \<in> (\<lambda>(j, _). j_id j) ` set got2"
  then obtain j2 n2 o2 where got2: "(j2, n2, o2) \<in> set got2" "j_id j2 = j_id j"
    by auto
  have same: "map j_id js1 = map j_id js"
    using c1 by (auto simp: claim_def Let_def lease_def intro!: map_update_where_same)
  obtain j0 where j0: "j0 \<in> set js" "j = lease clock j0" "j \<in> set js1"
    using claim_mem [OF ids c1 j] by blast
  obtain j1 where j1: "j1 \<in> set js1" "claimable clock' kinds' j1" "j2 = lease clock' j1"
    using claim_mem [OF _ c2 got2(1)] ids same by metis
  have "distinct (map j_id js1)"
    using ids same by simp
  then have "j1 = j"
    using j1(1,3) j0(3) got2(2) by (auto simp: lease_def distinct_map dest: inj_onD)
  moreover have "clock' < clock + minute_us * 2 ^ j_attempts j0"
    using early one_le_power [of "2 :: int" "j_attempts j0"] by (auto intro: less_le_trans)
  ultimately show False
    using lease_excludes j1(2) j0(2) by blast
qed

text \<open>Claims only ever happen below five attempts, and each costs one.\<close>

lemma claim_attempts:
  assumes "distinct (map j_id js)" "claim clock kinds locked js = (js', got)"
    and "\<forall>j \<in> set js. j_attempts j \<le> MAX_ATTEMPTS"
  shows "\<forall>j \<in> set js'. j_attempts j \<le> MAX_ATTEMPTS"
    and "(j, n, overdue) \<in> set got \<Longrightarrow> 1 \<le> n \<and> n \<le> MAX_ATTEMPTS"
proof -
  let ?ids = "chosen clock kinds locked js"
  show "1 \<le> n \<and> n \<le> MAX_ATTEMPTS" if "(j, n, overdue) \<in> set got"
    using claim_mem [OF assms(1,2) that] by (auto simp: claimable_def)
  have "j_attempts j < MAX_ATTEMPTS" if mem: "j \<in> set js" "j_id j \<in> set ?ids" for j
  proof -
    obtain j0 where "j0 \<in> set js" "j_id j0 = j_id j" "claimable clock kinds j0"
      using chosenD [OF mem(2)] by blast
    moreover from this have "j0 = j"
      using assms(1) mem(1) by (auto simp: distinct_map dest: inj_onD)
    ultimately show ?thesis by (simp add: claimable_def)
  qed
  then show "\<forall>j \<in> set js'. j_attempts j \<le> MAX_ATTEMPTS"
    using assms(2,3) by (auto simp: claim_def Let_def lease_def Suc_le_eq)
qed

lemma prune_keeps:
  "j \<in> set (fst (prune clock js)) \<longleftrightarrow> j \<in> set js \<and> \<not> prunable clock j"
  by (simp add: prune_def)

lemma claimable_not_prunable: "claimable clock kinds j \<Longrightarrow> \<not> prunable clock' j"
  by (auto simp: claimable_def prunable_def)

section \<open>What the queue promises\<close>

definition sample_job :: job where
  "sample_job = \<lparr>j_id = 60, j_kind = Payment_settle, j_key = Settle_key 20 Placed, j_payload = [],
     j_due_at = 0, j_next_attempt_at = 0, j_attempts = 1, j_completed_at = None, j_skipped = False,
     j_error = True\<rparr>"

text \<open>
  A job a worker claimed is not claimed by any other before its lease of at least a
  minute ends.
\<close>

lemma claimed_job_stays_leased:
  assumes "distinct (map j_id js)" and "claim clock kinds locked js = (js1, got1)"
    and "claim clock' kinds' locked' js1 = (js2, got2)"
    and "(j, n, overdue) \<in> set got1" and "clock' < clock + minute_us"
  shows "j_id j \<notin> (\<lambda>(j, _). j_id j) ` set got2"
  by (rule claimed_not_reclaimed [OF assms])

text \<open>
  No job is claimed more than five times, no batch exceeds twenty, and each claimed job
  carries its attempt number and a lease that lies ahead.
\<close>

lemma no_job_claimed_six_times:
  assumes "distinct (map j_id js)" and "claim clock kinds locked js = (js', got)"
    and "\<forall>j \<in> set js. j_attempts j \<le> MAX_ATTEMPTS"
  shows "(\<forall>j \<in> set js'. j_attempts j \<le> MAX_ATTEMPTS) \<and> length got \<le> BATCH \<and>
    (\<forall>(j, n, overdue) \<in> set got. 1 \<le> n \<and> n \<le> MAX_ATTEMPTS \<and> clock < j_next_attempt_at j)"
proof -
  have "clock < j_next_attempt_at j" if "(j, n, overdue) \<in> set got" for j n overdue
    using claim_mem [OF assms(1,2) that] by (auto simp: lease_def)
  then show ?thesis
    using claim_attempts [OF assms] claim_count [OF assms(1,2)] by blast
qed

text \<open>
  A job whose key is queued is not queued again: the second call changes nothing and says
  so.
\<close>

lemma enqueue_once_per_key:
  "enqueue (fst (enqueue d kind key payload due)) kind' key payload' due' =
     (fst (enqueue d kind key payload due), False)"
  by (rule enqueue_twice)

theorem pruned_jobs_never_run:
  assumes "prunable clock j"
  shows "\<not> claimable clock' kinds j \<and> j \<notin> set (fst (prune clock js))"
  using assms claimable_not_prunable by (auto simp: prune_keeps)

theorem pruned_jobs_never_run_witness:
  "\<not> claimable (50 * day_us) [Payment_settle] (sample_job\<lparr>j_attempts := 5\<rparr>)"
  by (rule pruned_jobs_never_run [of "40 * day_us", THEN conjunct1]) code_simp

end
