(* ===== verification/Clients.thy ===== *)
theory Clients
  imports Members
begin

text \<open>
  \<open>backend/app/clients.py\<close>: a business's own record of its clients and the append-only log of their
  marketing consent. Shows that a guest's booking never changes an existing client, that a linked
  client is never relinked, that the newest consent is the one in force, and that a worker never
  reads or writes the owner's private note.
\<close>

section \<open>The wording of the consent\<close>

definition POLICY_VERSION :: string where "POLICY_VERSION = ''2026-10-20''"

definition CONSENT_TEXTS :: "(string \<times> (purpose \<times> string) list) list" where
  "CONSENT_TEXTS =
     [(''2026-09-01'',
       [(Marketing_email, ''Email me offers and news from this business. I can unsubscribe at any time.''),
        (Sms, ''Text me offers and news from this business. I can opt out at any time.''),
        (Whatsapp, ''Message me on WhatsApp with offers and news from this business. I can opt out at any time.'')]),
      (POLICY_VERSION @ ''/en'',
       [(Marketing_email, ''Email me offers and news from this business. I can unsubscribe at any time.'')]),
      (POLICY_VERSION @ ''/nl'',
       [(Marketing_email, ''Stuur me aanbiedingen en nieuws van dit bedrijf per e-mail. Ik kan me op elk moment afmelden.'')]),
      (POLICY_VERSION @ ''/pt'',
       [(Marketing_email, ''Quero receber ofertas e novidades deste neg'' @ [CHR 0xF3] @
          ''cio por e-mail. Posso cancelar a inscri'' @ [CHR 0xE7, CHR 0xE3] @
          ''o quando quiser.'')])]"

definition policy_version_for :: "string \<Rightarrow> string" where
  "policy_version_for loc = POLICY_VERSION @ ''/'' @ loc"

definition LOCALES :: "string list" where "LOCALES = [''en'', ''nl'', ''pt'']"

definition texts_for :: "string \<Rightarrow> purpose list \<Rightarrow> (purpose \<times> string) list result" where
  "texts_for version purposes =
     (case map_of CONSENT_TEXTS version of
        None \<Rightarrow> Inl (ApiError 422 ''unknown_policy_version'')
      | Some texts \<Rightarrow>
          if \<not> set purposes \<subseteq> fst ` set texts
          then Inl (ApiError 422 ''purpose_not_in_policy_version'') else Inr texts)"

section \<open>Phones\<close>

text \<open>
  \<open>str.isalpha\<close> on the characters a \<open>char\<close> can hold (Latin-1). The library \<open>phonenumbers\<close> is not part
  of the repository: \<open>parse\<close>, \<open>valid\<close> and \<open>fmt\<close> stand for its \<open>parse\<close> (None when it raises),
  \<open>is_valid_number\<close> and \<open>format_number\<close> as E.164.
\<close>

definition isalpha :: "char \<Rightarrow> bool" where
  "isalpha c \<longleftrightarrow>
     (let n = (of_char c :: nat)
      in 65 \<le> n \<and> n \<le> 90 \<or> 97 \<le> n \<and> n \<le> 122 \<or> n \<in> {170, 181, 186} \<or>
         192 \<le> n \<and> n \<noteq> 215 \<and> n \<noteq> 247)"

definition phone_number ::
  "(string \<Rightarrow> 'region \<Rightarrow> 'p option) \<Rightarrow> ('p \<Rightarrow> bool) \<Rightarrow> ('p \<Rightarrow> string) \<Rightarrow> string \<Rightarrow> 'region \<Rightarrow> string option" where
  "phone_number parse valid fmt phone region =
     (if list_ex isalpha phone then None
      else case parse phone region of
        None \<Rightarrow> None
      | Some parsed \<Rightarrow> if valid parsed then Some (fmt parsed) else None)"

text \<open>\<open>e164\<close>, with \<open>number\<close> for the business's country as an argument.\<close>

definition e164 :: "(string \<Rightarrow> string option) \<Rightarrow> string \<Rightarrow> string result" where
  "e164 number phone =
     (case number phone of None \<Rightarrow> Inl (ApiError 422 ''phone_invalid'') | Some p \<Rightarrow> Inr p)"

section \<open>The client of a booking\<close>

definition coalesce :: "'a option \<Rightarrow> 'a option \<Rightarrow> 'a option" where
  "coalesce a b = (case a of None \<Rightarrow> b | Some x \<Rightarrow> Some x)"

definition has_email :: "string option \<Rightarrow> client \<Rightarrow> bool" where
  "has_email address c \<longleftrightarrow> address \<noteq> None \<and> c_email c = address"

text \<open>\<open>REFRESH\<close> when the address is proven, \<open>KEEP\<close> otherwise; a new row when none conflicts.\<close>

definition find_or_create ::
  "db \<Rightarrow> string \<Rightarrow> string option \<Rightarrow> string option \<Rightarrow> string option \<Rightarrow> uuid option \<Rightarrow> bool \<Rightarrow> db \<times> client" where
  "find_or_create d name address phone locale user proven =
     (case first_row (filter (has_email address) (clients d)) of
        None \<Rightarrow>
          let c = \<lparr>c_id = next_id d, c_name = name, c_email = address, c_phone = phone,
                c_locale = locale, c_user = user, c_client_note = None, c_internal_note = None,
                c_erased_at = None\<rparr>
          in (d\<lparr>clients := clients d @ [c], next_id := Suc (next_id d)\<rparr>, c)
      | Some row \<Rightarrow>
          let f = (\<lambda>c. if proven
                then c\<lparr>c_name := name, c_phone := coalesce phone (c_phone c),
                       c_locale := coalesce locale (c_locale c),
                       c_user := coalesce (c_user c) user\<rparr>
                else c)
          in (d\<lparr>clients := update_where (has_email address) f (clients d)\<rparr>, f row))"

section \<open>Consents\<close>

text \<open>A dict of purposes, and \<open>sorted(purposes)\<close>: by name, which is the order of the type.\<close>

fun rank :: "purpose \<Rightarrow> nat" where
  "rank Marketing_email = 0" | "rank Sms = 1" | "rank Whatsapp = 2"

definition add_consent ::
  "uuid \<Rightarrow> string \<Rightarrow> (purpose \<times> string) list \<Rightarrow> source \<Rightarrow> purpose \<Rightarrow> bool \<Rightarrow> db \<Rightarrow> db" where
  "add_consent client version texts src p granted d =
     d\<lparr>consents := consents d @ [\<lparr>n_id = next_id d, n_client = client, n_purpose = p,
         n_granted = granted, n_text_shown = the (map_of texts p),
         n_policy_version = version, n_source = src\<rparr>],
       next_id := Suc (next_id d)\<rparr>"

definition record_consents ::
  "db \<Rightarrow> uuid \<Rightarrow> string \<Rightarrow> (purpose \<times> bool) list \<Rightarrow> source \<Rightarrow> db result" where
  "record_consents d client version purposes src =
     (case texts_for version (map fst purposes) of
        Inl e \<Rightarrow> Inl e
      | Inr texts \<Rightarrow>
          Inr (fold (\<lambda>(p, granted). add_consent client version texts src p granted)
               (sort_key (rank \<circ> fst) purposes) d))"

definition mailable :: "bool \<Rightarrow> source \<Rightarrow> bool" where
  "mailable granted src \<longleftrightarrow> granted \<and> src \<noteq> Import"

text \<open>\<open>CURRENT_CONSENTS\<close>: per purpose the row with the greatest id; rows are appended with growing ids.\<close>

definition current_consent :: "db \<Rightarrow> uuid \<Rightarrow> purpose \<Rightarrow> (bool \<times> source \<times> bool) option" where
  "current_consent d client p =
     (case first_row (rev (filter (\<lambda>n. n_client n = client \<and> n_purpose n = p) (consents d))) of
        None \<Rightarrow> None
      | Some n \<Rightarrow> Some (n_granted n, n_source n, mailable (n_granted n) (n_source n)))"

section \<open>Handlers\<close>

record client_in =
  ci_name :: string
  ci_email :: "string option"
  ci_phone :: "string option"
  ci_locale :: "string option"

definition insert_client ::
  "(string \<Rightarrow> string option) \<Rightarrow> db \<Rightarrow> client_in \<Rightarrow> (db \<times> client) result" where
  "insert_client number d new =
     (case (case ci_phone new of
              None \<Rightarrow> Inr None
            | Some p \<Rightarrow> if p = '''' then Inr None
                else (case e164 number p of Inl e \<Rightarrow> Inl e | Inr n \<Rightarrow> Inr (Some n))) of
        Inl e \<Rightarrow> Inl e
      | Inr phone \<Rightarrow>
          if list_ex (has_email (ci_email new)) (clients d) then Inl (ApiError 409 ''email_taken'')
          else
            let c = \<lparr>c_id = next_id d, c_name = ci_name new, c_email = ci_email new,
                  c_phone = phone, c_locale = ci_locale new, c_user = None, c_client_note = None,
                  c_internal_note = None, c_erased_at = None\<rparr>
            in Inr (d\<lparr>clients := clients d @ [c], next_id := Suc (next_id d)\<rparr>, c))"

text \<open>\<open>fields(owner)\<close>: the private note is read for the owner only.\<close>

definition client_fields :: "bool \<Rightarrow> client \<Rightarrow> client" where
  "client_fields owner c = (if owner then c else c\<lparr>c_internal_note := None\<rparr>)"

definition live_client :: "db \<Rightarrow> uuid \<Rightarrow> client option" where
  "live_client d i = first_row (filter (\<lambda>c. c_id c = i \<and> c_erased_at c = None) (clients d))"

definition create_client ::
  "(string \<Rightarrow> string option) \<Rightarrow> db \<Rightarrow> signed_in \<Rightarrow> client_in \<Rightarrow> (db \<times> client) result" where
  "create_client number d current new =
     (case insert_client number d new of
        Inl e \<Rightarrow> Inl e
      | Inr (d1, c) \<Rightarrow>
          Inr (record_audit d1 ''client_created'' (user_id current) (Some (Client (c_id c))), c))"

text \<open>The body names the fields it sends: \<open>None\<close> is a field left out, \<open>Some None\<close> a null.\<close>

record note_change =
  nc_client_note :: "string option option"
  nc_internal_note :: "string option option"

definition merged_note :: "string option \<Rightarrow> string option option \<Rightarrow> string option" where
  "merged_note before sent = (case sent of None \<Rightarrow> before | Some v \<Rightarrow> v)"

definition update_client ::
  "db \<Rightarrow> signed_in \<Rightarrow> uuid \<Rightarrow> note_change \<Rightarrow> (db \<times> client) result" where
  "update_client d current i change =
     (let owner = is_owner current in
      if nc_internal_note change \<noteq> None \<and> \<not> owner then Inl (ApiError 403 ''owner_only'')
      else case live_client d i of
        None \<Rightarrow> Inl (ApiError 404 ''not_found'')
      | Some r \<Rightarrow>
          let row = client_fields owner r;
              note = merged_note (c_client_note row) (nc_client_note change);
              private = merged_note (c_internal_note row) (nc_internal_note change)
          in if note = c_client_note row \<and> private = c_internal_note row then Inr (d, row)
             else
               let f = (\<lambda>c. c\<lparr>c_client_note := note,
                     c_internal_note := (if owner then private else c_internal_note c)\<rparr>);
                   d1 = d\<lparr>clients := update_where (\<lambda>c. c_id c = i) f (clients d)\<rparr>
               in Inr (record_audit d1 ''client_changed'' (user_id current) (Some (Client i)),
                       client_fields owner (f r)))"

definition add_consents ::
  "db \<Rightarrow> signed_in \<Rightarrow> uuid \<Rightarrow> string \<Rightarrow> (purpose \<times> bool) list \<Rightarrow> (db \<times> client) result" where
  "add_consents d current i version purposes =
     (if purposes = [] then Inl (ApiError 422 ''invalid_request'') else
      case live_client d i of
        None \<Rightarrow> Inl (ApiError 404 ''not_found'')
      | Some r \<Rightarrow>
          (case record_consents d i version purposes Merchant of
             Inl e \<Rightarrow> Inl e
           | Inr d1 \<Rightarrow>
               Inr (record_audit d1 ''consent_recorded'' (user_id current) (Some (Client i)),
                    client_fields (is_owner current) r)))"

section \<open>What they keep\<close>

text \<open>Unproven: an existing record comes back untouched, a new address gets a new record.\<close>

lemma find_or_create_guest:
  assumes "find_or_create d name address phone locale user False = (d', c)"
  shows "c \<in> set (clients d')" "\<exists>new. clients d' = clients d @ new \<and>
    (new = [] \<or> new = [c] \<and> (\<forall>x \<in> set (clients d). \<not> has_email address x))"
proof -
  have "update_where p (\<lambda>c. c) cs = cs" for p and cs :: "client list"
    by (induction cs) auto
  then show "c \<in> set (clients d')" "\<exists>new. clients d' = clients d @ new \<and>
    (new = [] \<or> new = [c] \<and> (\<forall>x \<in> set (clients d). \<not> has_email address x))"
    using assms by (auto simp: find_or_create_def Let_def filter_empty_conv
        dest!: first_row_filterD split: option.splits)
qed

lemma find_or_create_others:
  assumes "find_or_create d name address phone locale user proven = (d', c)"
  shows "x \<in> set (clients d) \<Longrightarrow> \<not> has_email address x \<Longrightarrow> x \<in> set (clients d')"
  using assms by (fastforce simp: find_or_create_def Let_def image_iff split: option.splits)

lemma find_or_create_fields:
  assumes "find_or_create d name address phone locale user proven = (d', c)"
  shows "bookings d' = bookings d" "memberships d' = memberships d" "now d' = now d"
    "settings_of d' = settings_of d" "services d' = services d" "next_id d \<le> next_id d'"
    "working_hours d' = working_hours d" "opening_hours d' = opening_hours d"
    "service_workers d' = service_workers d" "time_offs d' = time_offs d"
    "payments d' = payments d" "jobs d' = jobs d" "events d' = events d"
  using assms by (auto simp: find_or_create_def Let_def split: option.splits)

text \<open>A linked row keeps its account.\<close>

lemma find_or_create_linked:
  assumes "find_or_create d name address phone locale user proven = (d', c)"
    and x: "x \<in> set (clients d)" "c_user x = Some u"
  shows "\<exists>y \<in> set (clients d'). c_id y = c_id x \<and> c_user y = Some u"
proof (cases "first_row (filter (has_email address) (clients d))")
  case None
  then show ?thesis
    using assms by (auto simp: find_or_create_def Let_def)
next
  case (Some row)
  let ?f = "\<lambda>c. if proven
                then c\<lparr>c_name := name, c_phone := coalesce phone (c_phone c),
                       c_locale := coalesce locale (c_locale c),
                       c_user := coalesce (c_user c) user\<rparr>
                else c"
  have "clients d' = update_where (has_email address) ?f (clients d)"
    using assms(1) Some by (auto simp: find_or_create_def Let_def)
  then have "(if has_email address x then ?f x else x) \<in> set (clients d')"
    using x(1) by auto
  then show ?thesis
    by (rule rev_bexI) (use x(2) in \<open>simp add: coalesce_def\<close>)
qed

definition said :: "consent \<Rightarrow> uuid \<times> purpose \<times> bool \<times> source" where
  "said n = (n_client n, n_purpose n, n_granted n, n_source n)"

lemma add_consents_fold:
  "\<exists>new. consents (fold (\<lambda>(p, granted). add_consent client version texts src p granted) ps d) =
     consents d @ new \<and> map said new = map (\<lambda>(p, granted). (client, p, granted, src)) ps"
proof (induction ps arbitrary: d)
  case (Cons a ps)
  obtain p g where a: "a = (p, g)" by (cases a)
  show ?case
    using Cons.IH [of "add_consent client version texts src p g d"]
    by (auto simp: a add_consent_def said_def)
qed simp

lemma record_consents_log:
  assumes "record_consents d client version purposes src = Inr d'"
  shows "\<exists>new. consents d' = consents d @ new \<and>
    map said new = map (\<lambda>(p, granted). (client, p, granted, src)) (sort_key (rank \<circ> fst) purposes)"
  using assms add_consents_fold by (auto simp: record_consents_def split: sum.splits)

text \<open>The log decides by its last row of the client and purpose.\<close>

lemma current_consent_last:
  assumes "consents d' = consents d @ new"
    and "map said new = map (\<lambda>(p, granted). (client, p, granted, src)) ps"
    and "distinct (map fst ps)"
  shows "(p, granted) \<in> set ps \<Longrightarrow>
      current_consent d' client p = Some (granted, src, mailable granted src)"
    and "p \<notin> fst ` set ps \<or> client' \<noteq> client \<Longrightarrow>
      current_consent d' client' p = current_consent d client' p"
proof -
  let ?mine = "\<lambda>c p. filter (\<lambda>n. n_client n = c \<and> n_purpose n = p)"
  have mine: "map said (?mine c q new) =
      map (\<lambda>(p, granted). (client, p, granted, src)) (filter (\<lambda>x. client = c \<and> fst x = q) ps)" for c q
    using assms(2)
  proof (induction new arbitrary: ps)
    case (Cons n new)
    then obtain a qs where "ps = a # qs" by (cases ps) auto
    then show ?case using Cons by (auto simp: said_def case_prod_unfold)
  qed auto
  {
    assume "(p, granted) \<in> set ps"
    then have "filter (\<lambda>x. client = client \<and> fst x = p) ps = [(p, granted)]"
      using assms(3) by (induction ps) (auto simp: filter_empty_conv image_iff)
    then have "map said (?mine client p new) = [(client, p, granted, src)]"
      using mine [of client p] by simp
    then show "current_consent d' client p = Some (granted, src, mailable granted src)"
      using assms(1) by (auto simp: current_consent_def said_def)
  }
  assume "p \<notin> fst ` set ps \<or> client' \<noteq> client"
  then have "filter (\<lambda>x. client = client' \<and> fst x = p) ps = []"
    by (auto simp: filter_empty_conv)
  then have "?mine client' p new = []"
    using mine [of client' p] by simp
  then show "current_consent d' client' p = current_consent d client' p"
    using assms(1) by (simp add: current_consent_def)
qed

section \<open>What the client records promise\<close>

text \<open>
  After consents are recorded, each named purpose of that client answers the new value,
  mailable unless imported, and nothing else changes.
\<close>

lemma newest_consent_is_in_force:
  assumes "record_consents d client version purposes src = Inr d'" and "distinct (map fst purposes)"
  shows "current_consent d' client' p =
    (if client' = client \<and> p \<in> fst ` set purposes
     then (let granted = the (map_of purposes p) in Some (granted, src, granted \<and> src \<noteq> Import))
     else current_consent d client' p)"
proof -
  obtain new where new: "consents d' = consents d @ new"
    "map said new = map (\<lambda>(p, granted). (client, p, granted, src)) (sort_key (rank \<circ> fst) purposes)"
    using record_consents_log [OF assms(1)] by blast
  have d: "distinct (map fst (sort_key (rank \<circ> fst) purposes))"
    using assms(2) by (metis distinct_map distinct_sort set_sort)
  note last = current_consent_last [OF new d]
  show ?thesis
  proof (cases "client' = client \<and> p \<in> fst ` set purposes")
    case True
    then obtain g where g: "(p, g) \<in> set purposes" by auto
    then have "map_of purposes p = Some g" using assms(2) by simp
    then show ?thesis using True g last(1) [of p g] by (simp add: mailable_def Let_def)
  next
    case False
    then show ?thesis using last(2) [of p client'] by auto
  qed
qed

text \<open>A worker's change of a client neither shows nor alters any private note of the owner.\<close>

lemma worker_never_touches_the_private_note:
  assumes "update_client d current i change = Inr (d', c)" and "\<not> is_owner current"
  shows "c_internal_note c = None \<and> nc_internal_note change = None \<and>
    map c_internal_note (clients d') = map c_internal_note (clients d) \<and>
    map c_id (clients d') = map c_id (clients d)"
proof -
  obtain r where r: "live_client d i = Some r" "nc_internal_note change = None"
    using assms by (auto simp: update_client_def Let_def split: if_splits option.splits)
  let ?note = "merged_note (c_client_note (client_fields False r)) (nc_client_note change)"
  have own: "is_owner current = False" using assms(2) by simp
  have d': "d' = d \<and> c = client_fields False r \<or> clients d' = update_where (\<lambda>c. c_id c = i)
      (\<lambda>c. c\<lparr>c_client_note := ?note, c_internal_note := c_internal_note c\<rparr>) (clients d) \<and>
      c_internal_note c = None"
    using assms(1) r unfolding update_client_def own Let_def
    by (auto simp: record_audit_def client_fields_def split: if_splits)
  then show ?thesis
    using r(2) by (auto simp: client_fields_def intro!: map_update_where_same)
qed

end
