(* ===== verification/Texts.thy ===== *)
theory Texts
  imports Prelude
begin

text \<open>
  What the components share on text: \<open>str.strip\<close>, \<open>str.lower\<close> and \<open>str.split\<close> on the characters a
  \<open>char\<close> can hold (Latin-1), and the validators \<open>printable\<close> (\<open>app.accounts\<close>) and \<open>multiline\<close>
  (\<open>app.services\<close>).
\<close>

section \<open>Characters\<close>

text \<open>Whitespace, and the control and format characters.\<close>

definition isspace :: "char \<Rightarrow> bool" where
  "isspace c \<longleftrightarrow> (let n = (of_char c :: nat) in
     9 \<le> n \<and> n \<le> 13 \<or> 28 \<le> n \<and> n \<le> 32 \<or> n = 133 \<or> n = 160)"

definition control :: "char \<Rightarrow> bool" where
  "control c \<longleftrightarrow> (let n = (of_char c :: nat) in n < 32 \<or> 127 \<le> n \<and> n \<le> 159 \<or> n = 173)"

definition strip :: "string \<Rightarrow> string" where
  "strip s = rev (dropWhile isspace (rev (dropWhile isspace s)))"

definition printable :: "string \<Rightarrow> bool" where
  "printable s \<longleftrightarrow> \<not> list_ex control s \<and> \<not> list_all isspace s"

definition multiline :: "string \<Rightarrow> bool" where
  "multiline s \<longleftrightarrow> printable (filter (\<lambda>c. c \<noteq> CHR 0x0A) s)"

section \<open>Case\<close>

text \<open>\<open>str.lower\<close> on the characters a \<open>char\<close> can hold (Latin-1).\<close>

definition lower_char :: "char \<Rightarrow> char" where
  "lower_char c = (let n = (of_char c :: nat) in
     if 65 \<le> n \<and> n \<le> 90 \<or> 192 \<le> n \<and> n \<le> 222 \<and> n \<noteq> 215 then char_of (n + 32) else c)"

definition lower :: "string \<Rightarrow> string" where "lower s = map lower_char s"

section \<open>Parts\<close>

text \<open>\<open>str.split\<close> at every separator, and \<open>join\<close>.\<close>

fun split_on :: "char \<Rightarrow> string \<Rightarrow> string list" where
  "split_on c [] = [[]]"
| "split_on c (x # xs) =
     (if x = c then [] # split_on c xs
      else (case split_on c xs of [] \<Rightarrow> [[x]] | w # ws \<Rightarrow> (x # w) # ws))"

fun join_with :: "char \<Rightarrow> string list \<Rightarrow> string" where
  "join_with c [] = []"
| "join_with c [w] = w"
| "join_with c (w # ws) = w @ c # join_with c ws"

lemma split_on_not_Nil [simp]: "split_on c s \<noteq> []"
  by (induction s) (auto split: list.splits)

text \<open>The parts put together again are the text, and none of them holds the separator.\<close>

lemma join_with_Cons: "ws \<noteq> [] \<Longrightarrow> join_with c (w # ws) = w @ c # join_with c ws"
  by (cases ws) auto

lemma join_split_on [simp]: "join_with c (split_on c s) = s"
proof (induction s)
  case (Cons x xs)
  show ?case
  proof (cases "x = c")
    case True
    then show ?thesis using Cons by (simp add: join_with_Cons)
  next
    case False
    obtain w ws where w: "split_on c xs = w # ws" by (cases "split_on c xs") auto
    then show ?thesis using Cons False by (cases ws) auto
  qed
qed simp

text \<open>\<open>str.removesuffix\<close> and \<open>str.endswith\<close>, and the first word of \<open>str.split()\<close>.\<close>

definition endswith :: "string \<Rightarrow> string \<Rightarrow> bool" where
  "endswith s t \<longleftrightarrow> length t \<le> length s \<and> drop (length s - length t) s = t"

definition removesuffix :: "string \<Rightarrow> string \<Rightarrow> string" where
  "removesuffix s t = (if endswith s t then take (length s - length t) s else s)"

definition first_word :: "string \<Rightarrow> string" where
  "first_word s = takeWhile (\<lambda>c. \<not> isspace c) (dropWhile isspace s)"

definition isascii :: "string \<Rightarrow> bool" where
  "isascii s \<longleftrightarrow> list_all (\<lambda>c. (of_char c :: nat) < 128) s"

text \<open>\<open>SLUG\<close> (\<open>app.booking_page\<close>): words of small letters and digits, joined by single hyphens.\<close>

definition slug_char :: "char \<Rightarrow> bool" where
  "slug_char c \<longleftrightarrow> (let n = (of_char c :: nat) in 97 \<le> n \<and> n \<le> 122 \<or> 48 \<le> n \<and> n \<le> 57)"

definition SLUG :: "string \<Rightarrow> bool" where
  "SLUG s \<longleftrightarrow> list_all (\<lambda>w. w \<noteq> [] \<and> list_all slug_char w) (split_on (CHR ''-'') s)"

end
