(* ===== verification/Placing.thy ===== *)
theory Placing
  imports Notices Clients Texts
begin

text \<open>
  How a booking comes to be: \<open>by_load\<close>, \<open>place\<close>, \<open>book_online\<close> (the booking page), \<open>book\<close> (a member, by hand)
  and the checks they share, from \<open>backend/app/bookings.py\<close>, with \<open>offer\<close> from \<open>backend/app/payments.py\<close>.
  Shows that both keep the table in order, that the booking stands as asked, that the candidate loop
  never runs into another booking once the slot was offered, and what a refusal leaves behind.
\<close>

section \<open>Parts\<close>

text \<open>\<open>MIN_CHARGE\<close> and \<open>offer\<close>; \<open>configured\<close> is whether the platform's Stripe keys are set.\<close>

definition MIN_CHARGE :: "(string \<times> int) list" where
  "MIN_CHARGE = [(''EUR'', 50), (''USD'', 50), (''GBP'', 30)]"

definition meets_minimum :: "int \<Rightarrow> string \<Rightarrow> bool" where
  "meets_minimum amount currency =
     (case map_of MIN_CHARGE currency of None \<Rightarrow> False | Some smallest \<Rightarrow> smallest \<le> amount)"

definition available :: "bool \<Rightarrow> db \<Rightarrow> settings \<Rightarrow> string option" where
  "available configured d g =
     (if \<not> configured \<or> \<not> payment_check g then None
      else case payment_account d of
        Some a \<Rightarrow> if pa_enabled a then Some (pa_account a) else None | None \<Rightarrow> None)"

definition offer :: "bool \<Rightarrow> db \<Rightarrow> settings \<Rightarrow> int \<Rightarrow> string \<Rightarrow> string option" where
  "offer configured d g amount currency =
     (if meets_minimum amount currency then available configured d g else None)"

text \<open>
  \<open>message_text\<close>.
\<close>

definition message_text :: "string option \<Rightarrow> string option result" where
  "message_text v =
     (let t = strip (case v of None \<Rightarrow> '''' | Some s \<Rightarrow> s)
      in if t = '''' then Inr None
         else if 1000 < length t \<or> \<not> multiline t then Inl (ApiError 422 ''message_invalid'')
         else Inr (Some t))"

definition by_load :: "uuid list \<Rightarrow> booked_row list \<Rightarrow> day \<Rightarrow> zone \<Rightarrow> uuid list" where
  "by_load eligible rows day zone =
     (let load = (\<lambda>m. length (filter (\<lambda>r. fst r = m \<and> local_date zone (fst (snd r)) = day) rows))
      in sort_key (\<lambda>m. (load m, m)) eligible)"

text \<open>\<open>SERVICE\<close>: the service while it is not archived (\<open>open_service\<close>); \<open>now()\<close> rides along.\<close>

section \<open>place\<close>

fun place ::
  "db \<Rightarrow> settings \<Rightarrow> new_booking \<Rightarrow> (uuid \<times> string option) list \<Rightarrow> event_args \<Rightarrow> uuid list \<Rightarrow>
   (db \<times> booking \<times> uuid) result" where
  "place d g nb names args [] = Inl (ApiError 409 ''slot_taken'')"
| "place d g nb names args (candidate # rest) =
     (let b = INSERT_BOOKING d g
            (nb\<lparr>nb_worker := candidate, nb_worker_name := dict_name names candidate\<rparr>)
      in case insert_booking d b of
           Inr d1 \<Rightarrow> Inr (insert_event d1 (b_id b) Created args, b, candidate)
         | Inl e \<Rightarrow>
             if e = Uncaught OVERLAP \<or> e = Uncaught BOOKINGS_WORKER
             then place d g nb names args rest else Inl e)"

section \<open>Who can take a start\<close>

definition eligible_for ::
  "db \<Rightarrow> settings \<Rightarrow> instant \<Rightarrow> (uuid \<times> row list) list \<Rightarrow> instant \<Rightarrow> int \<Rightarrow> int option \<Rightarrow>
   uuid option \<Rightarrow> uuid list \<times> booked_row list" where
  "eligible_for d g clock hours starts duration buffer_minutes exclude =
     (let zone = timezone g; day = local_date zone starts;
          (first, final, earliest) = window clock zone day day (min_notice_minutes g)
            (booking_horizon_days g)
      in if final < first then ([], [])
         else
           let ms = sort (map fst hours);
               (slots, rows) = offered d ms hours (envelope d) g first final earliest duration
                 (buffer_for duration buffer_minutes (buffer_pct g)) exclude
           in (filter (\<lambda>m. starts \<in> set (dict_list slots m)) ms, rows))"

definition may_book_for :: "db \<Rightarrow> signed_in \<Rightarrow> uuid option \<Rightarrow> bool" where
  "may_book_for d current member =
     (if is_owner current then True
      else case member of
        None \<Rightarrow> False
      | Some m \<Rightarrow>
          (case first_row (filter (\<lambda>r. m_id r = m) (memberships d)) of
             None \<Rightarrow> False | Some r \<Rightarrow> m_user r = user_id current))"

section \<open>The booking page\<close>

definition PENDING_ACROSS_IPS :: int where "PENDING_ACROSS_IPS = 3"
definition AWAITING_PAYMENT_TTL :: int where "AWAITING_PAYMENT_TTL = 30 * minute_us"

text \<open>\<open>PENDING_COUNT\<close>: one row per counted booking and \<open>created\<close> event, with its address.\<close>

definition counted_pending :: "uuid \<Rightarrow> instant \<Rightarrow> booking \<Rightarrow> bool" where
  "counted_pending client clock b \<longleftrightarrow> b_client b = client \<and>
     (b_status b \<in> set EXPIRING \<and> (case b_expires_at b of None \<Rightarrow> False | Some x \<Rightarrow> clock < x) \<or>
      b_status b = Confirmed \<and> b_auto_confirm b \<and> b_source b = Booking_page \<and>
      clock < b_starts_at b)"

definition PENDING_COUNT :: "db \<Rightarrow> uuid \<Rightarrow> instant \<Rightarrow> ip option list" where
  "PENDING_COUNT d client clock =
     concat (map (\<lambda>b.
       case filter (\<lambda>e. e_booking e = b_id b \<and> e_kind e = Created) (events d) of
         [] \<Rightarrow> [None]
       | es \<Rightarrow> map (ea_ip \<circ> e_args) es)
       (filter (counted_pending client clock) (bookings d)))"

record online =
  on_service :: uuid
  on_member :: "uuid option"
  on_starts_at :: instant
  on_name :: string
  on_address :: string
  on_phone :: string
  on_locale :: "string option"
  on_policy_version :: string
  on_consents :: "(purpose \<times> bool) list"
  on_ip :: "ip option"
  on_user_agent :: "string option"
  on_message :: "string option"
  on_payment :: "payment_kind option"
  on_shown_currency :: "string option"

text \<open>
  The checks before any write, in their order. \<open>proof\<close> is the proving session's holder, if any, and
  \<open>live\<close> whether that session is still theirs (\<open>held\<close>); \<open>number\<close> reads a phone in the business's
  country. The answer is the service, the stored phone and message, and the Stripe account of the
  payment step.
\<close>

definition online_checks ::
  "(string \<Rightarrow> string option) \<Rightarrow> bool \<Rightarrow> db \<Rightarrow> online \<Rightarrow> uuid option \<Rightarrow> bool \<Rightarrow>
   (service \<times> string \<times> string option \<times> string option) result" where
  "online_checks number configured d new prover live =
     (case open_service d (on_service new) of
        None \<Rightarrow> Inl (ApiError 404 ''not_found'')
      | Some s \<Rightarrow>
          let g = settings_of d in
          if \<not> published g then Inl (ApiError 404 ''not_found'')
          else if on_shown_currency new \<noteq> None \<and> on_shown_currency new \<noteq> Some (s_currency s)
          then Inl (ApiError 409 ''currency_changed'')
          else if on_policy_version new \<notin> policy_version_for ` set LOCALES
          then Inl (ApiError 422 ''unknown_policy_version'')
          else (case texts_for (on_policy_version new) (map fst (on_consents new)) of
             Inl e \<Rightarrow> Inl e
           | Inr _ \<Rightarrow> (case e164 number (on_phone new) of
             Inl e \<Rightarrow> Inl e
           | Inr phone \<Rightarrow> (case message_text (on_message new) of
             Inl e \<Rightarrow> Inl e
           | Inr message \<Rightarrow>
               let account = offer configured d g (s_price_minor s) (s_currency s) in
               if account \<noteq> None \<and> on_payment new = None
               then Inl (ApiError 422 ''payment_required'')
               else if account = None \<and> on_payment new \<noteq> None
               then Inl (ApiError 422 ''payment_not_offered'')
               else if prover \<noteq> None \<and> \<not> live then Inl (ApiError 401 ''unauthenticated'')
               else Inr (s, phone, message, account)))))"

text \<open>Steps 7 to 9: the client, the consent withdrawals, and the lapsed holds.\<close>

definition online_client ::
  "db \<Rightarrow> online \<Rightarrow> string \<Rightarrow> uuid option \<Rightarrow> (db \<times> client) result" where
  "online_client d new phone prover =
     (let proven = (prover \<noteq> None);
          (d1, c) = find_or_create d (on_name new) (Some (on_address new)) (Some phone)
            (on_locale new) prover proven;
          withdrawals = (if proven then filter (\<lambda>x. \<not> snd x) (on_consents new) else [])
      in case (if withdrawals = [] then Inr d1
               else record_consents d1 (c_id c) (on_policy_version new) withdrawals Booking_page) of
           Inl e \<Rightarrow> Inl e
         | Inr d2 \<Rightarrow> (case EXPIRE d2 of Inl e \<Rightarrow> Inl e | Inr (d3, _) \<Rightarrow> Inr (d3, c)))"

definition too_many_pending :: "db \<Rightarrow> uuid \<Rightarrow> ip option \<Rightarrow> bool" where
  "too_many_pending d client origin =
     (let placed_from = PENDING_COUNT d client (now d);
          bucket = ip_key ''booking'' origin;
          mine = int (length (filter (\<lambda>ip. ip_key ''booking'' ip = bucket) placed_from));
          most = max_pending_per_email (settings_of d)
      in most \<le> mine \<or> PENDING_ACROSS_IPS * most \<le> int (length placed_from))"

text \<open>Step 14: the status a new booking is born with and until when.\<close>

definition born :: "settings \<Rightarrow> instant \<Rightarrow> string option \<Rightarrow> status \<times> instant option" where
  "born g clock account =
     (if account \<noteq> None then (Awaiting_payment, Some (clock + AWAITING_PAYMENT_TTL))
      else if auto_confirm g then (Confirmed, None)
      else (Pending, Some (clock + pending_ttl_hours g * hour_us)))"

text \<open>The columns of the booking, and of its \<open>created\<close> event: a guest's event keeps what was ticked.\<close>

definition online_row ::
  "online \<Rightarrow> service \<Rightarrow> uuid \<Rightarrow> string \<Rightarrow> string option \<Rightarrow> uuid option \<Rightarrow> string option \<Rightarrow>
   status \<times> instant option \<Rightarrow> new_booking" where
  "online_row new s client phone message prover account st =
     \<lparr>nb_client = client, nb_worker = 0, nb_service = s, nb_starts_at = on_starts_at new,
      nb_status = fst st, nb_expires_at = snd st, nb_source = Booking_page, nb_worker_name = None,
      nb_client_name = Some (on_name new), nb_client_phone = Some phone,
      nb_client_message = message, nb_checkout = (account \<noteq> None), nb_booked_as = prover\<rparr>"

definition online_event :: "online \<Rightarrow> uuid option \<Rightarrow> event_args" where
  "online_event new prover =
     \<lparr>ea_ip = on_ip new, ea_user_agent = on_user_agent new,
      ea_policy_version = Some (on_policy_version new),
      ea_consents = Some (if prover \<noteq> None then on_consents new
                          else filter snd (on_consents new)),
      ea_actor = None, ea_details = None\<rparr>"

definition book_online ::
  "(string \<Rightarrow> string option) \<Rightarrow> bool \<Rightarrow> db \<Rightarrow> online \<Rightarrow> uuid option \<Rightarrow> bool \<Rightarrow>
   (db \<times> booking \<times> uuid \<times> string option) result" where
  "book_online number configured d new prover live =
     (case online_checks number configured d new prover live of
        Inl e \<Rightarrow> Inl e
      | Inr (s, phone, message, account) \<Rightarrow>
      (case online_client d new phone prover of
        Inl e \<Rightarrow> Inl e
      | Inr (d3, c) \<Rightarrow>
          let g = settings_of d;
              (hours, names) = candidates d (on_service new) (on_member new);
              (eligible, rows) = eligible_for d3 g (now d) hours (on_starts_at new)
                (s_duration_minutes s) (s_buffer_minutes s) None
          in if eligible = [] then Inl (ApiError 409 ''slot_unavailable'')
             else if too_many_pending d3 (c_id c) (on_ip new)
             then Inl (ApiError 429 ''rate_limited'')
             else
               let st = born g (now d) account;
                   waiting = by_load eligible rows (local_date (timezone g) (on_starts_at new))
                     (timezone g)
               in case place d3 g (online_row new s (c_id c) phone message prover account st) names
                         (online_event new prover) waiting of
                    Inl e \<Rightarrow> Inl e
                  | Inr (d4, b, worker) \<Rightarrow>
                      (case account of
                         Some _ \<Rightarrow>
                           Inr (fst (enqueue d4 Payment_settle (Settle_key (b_id b) Placed)
                                  [] (snd st)), b, worker, account)
                       | None \<Rightarrow>
                           Inr (announce d4 (b_id b) worker (fst st) (b_starts_at b) (now d), b, worker,
                                account))))"

section \<open>A member books by hand\<close>

record merchant_booking =
  mb_client :: "uuid option"
  mb_new_client :: "client_in option"
  mb_service :: uuid
  mb_member :: "uuid option"
  mb_starts_at :: instant
  mb_override :: bool

text \<open>Step 5: the named client while not erased, or a new one.\<close>

definition book_client ::
  "(string \<Rightarrow> string option) \<Rightarrow> db \<Rightarrow> signed_in \<Rightarrow> merchant_booking \<Rightarrow> (db \<times> uuid) result" where
  "book_client number d current new =
     (case mb_client new of
        Some i \<Rightarrow>
          if live_client d i = None then Inl (ApiError 422 ''unknown_client'') else Inr (d, i)
      | None \<Rightarrow>
          (case insert_client number d (the (mb_new_client new)) of
             Inl e \<Rightarrow> Inl e
           | Inr (d1, c) \<Rightarrow>
               Inr (record_audit d1 ''client_created'' (user_id current) (Some (Client (c_id c))),
                    c_id c)))"

definition worker_user :: "db \<Rightarrow> uuid \<Rightarrow> uuid list" where
  "worker_user d w = map m_user (filter (\<lambda>r. m_id r = w) (memberships d))"

definition told_of_booking :: "db \<Rightarrow> signed_in \<Rightarrow> booking \<Rightarrow> uuid \<Rightarrow> db" where
  "told_of_booking d current b worker =
     (if now d < b_starts_at b
      then
        let (d1, sent) = email d (b_id b) ''booking_confirmed'' None No_suffix
              [Starts_at (b_starts_at b)] True;
            d2 = (if sent then remind d1 (b_id b) (b_starts_at b) (now d) else d1)
        in tell_team d2 current (b_id b) (worker_user d2 worker) ''booking_new'' No_suffix
             [Starts_at (b_starts_at b)]
      else d)"

definition book ::
  "(string \<Rightarrow> string option) \<Rightarrow> db \<Rightarrow> signed_in \<Rightarrow> merchant_booking \<Rightarrow> ip option \<Rightarrow> string option \<Rightarrow>
   (db \<times> booking \<times> uuid) result" where
  "book number d current new ip agent =
     (if (mb_client new = None) = (mb_new_client new = None)
      then Inl (ApiError 422 ''invalid_request'')
      else case open_service d (mb_service new) of
        None \<Rightarrow> Inl (ApiError 404 ''not_found'')
      | Some s \<Rightarrow>
          if \<not> may_book_for d current (mb_member new) then Inl (ApiError 403 ''owner_only'')
          else if mb_override new \<and> mb_member new = None
          then Inl (ApiError 422 ''member_required'')
          else (case book_client number d current new of
             Inl e \<Rightarrow> Inl e
           | Inr (d1, client) \<Rightarrow>
          (case EXPIRE d1 of
             Inl e \<Rightarrow> Inl e
           | Inr (d2, _) \<Rightarrow>
               let (hours, names) = candidates d2 (mb_service new) (mb_member new);
                   g = settings_of d2;
                   (eligible, rows) = eligible_for d2 g (now d) hours (mb_starts_at new)
                     (s_duration_minutes s) (s_buffer_minutes s) None;
                   waiting = (if mb_override new then sort (map fst hours)
                     else by_load eligible rows (local_date (timezone g) (mb_starts_at new))
                            (timezone g));
                   nb = \<lparr>nb_client = client, nb_worker = 0, nb_service = s,
                     nb_starts_at = mb_starts_at new, nb_status = Confirmed, nb_expires_at = None,
                     nb_source = Merchant, nb_worker_name = None, nb_client_name = None,
                     nb_client_phone = None, nb_client_message = None, nb_checkout = False,
                     nb_booked_as = None\<rparr>;
                   args = no_args\<lparr>ea_ip := ip, ea_user_agent := agent,
                     ea_actor := Some (user_id current)\<rparr>
               in if hours = [] then Inl (ApiError 409 ''slot_unavailable'')
                  else if \<not> mb_override new \<and> eligible = []
                  then Inl (ApiError 409 ''slot_unavailable'')
                  else (case place d2 g nb names args waiting of
                     Inl e \<Rightarrow> Inl e
                   | Inr (d3, b, worker) \<Rightarrow>
                       Inr (record_audit (told_of_booking d3 current b worker) ''booking_created''
                              (user_id current) (Some (Booking (b_id b))), b, worker)))))"

section \<open>place keeps the table in order\<close>

text \<open>What the row of a placement says, whichever worker it lands on.\<close>

lemma place_Inr:
  assumes "place d g nb names args ws = Inr (d', b, w)" "bookings_ok d"
  shows "w \<in> set ws" "bookings_ok d'"
    "b = INSERT_BOOKING d g (nb\<lparr>nb_worker := w, nb_worker_name := dict_name names w\<rparr>)"
    "bookings d' = bookings d @ [b]" "now d' = now d" "memberships d' = memberships d"
    "events d' = events d @ [\<lparr>e_id = Suc (next_id d), e_booking = b_id b, e_kind = Created, e_args = args\<rparr>]"
    "settings_of d' = settings_of d"
proof -
  have "w \<in> set ws \<and> bookings_ok d' \<and>
    b = INSERT_BOOKING d g (nb\<lparr>nb_worker := w, nb_worker_name := dict_name names w\<rparr>) \<and>
    bookings d' = bookings d @ [b] \<and> now d' = now d \<and> memberships d' = memberships d \<and>
    events d' = events d @ [\<lparr>e_id = Suc (next_id d), e_booking = b_id b, e_kind = Created, e_args = args\<rparr>] \<and>
    settings_of d' = settings_of d"
    using assms
  proof (induction ws)
    case (Cons c ws)
    let ?b = "INSERT_BOOKING d g (nb\<lparr>nb_worker := c, nb_worker_name := dict_name names c\<rparr>)"
    show ?case
    proof (cases "insert_booking d ?b")
      case (Inl e)
      then have "place d g nb names args ws = Inr (d', b, w)"
        using Cons.prems(1) by (simp add: Let_def split: if_splits)
      then show ?thesis
        using Cons.IH Cons.prems(2) by simp
    next
      case (Inr d1)
      then have r: "w = c" "b = ?b" "d' = insert_event d1 (b_id ?b) Created args"
        using Cons.prems(1) by (auto simp: Let_def)
      have d1: "d1 = d\<lparr>bookings := bookings d @ [?b], next_id := Suc (next_id d)\<rparr>"
        using Inr by (auto simp: insert_booking_def split: if_splits)
      have "bookings_ok d1"
        using insert_booking_keeps [OF Inr Cons.prems(2)] by (simp add: INSERT_BOOKING_def paired_def)
      then have "bookings_ok d'"
        using r(3) by (simp add: bookings_ok_log [of d1])
      then show ?thesis
        using r d1 by simp
    qed
  qed simp
  then show "w \<in> set ws" "bookings_ok d'"
    "b = INSERT_BOOKING d g (nb\<lparr>nb_worker := w, nb_worker_name := dict_name names w\<rparr>)"
    "bookings d' = bookings d @ [b]" "now d' = now d" "memberships d' = memberships d"
    "events d' = events d @ [\<lparr>e_id = Suc (next_id d), e_booking = b_id b, e_kind = Created, e_args = args\<rparr>]"
    "settings_of d' = settings_of d"
    by blast+
qed

text \<open>The only refusal of the loop itself is that every candidate is gone; the rest is a constraint.\<close>

lemma place_Inl:
  assumes "place d g nb names args ws = Inl e"
  shows "e = ApiError 409 ''slot_taken'' \<or> e = Uncaught ''ck_bookings''"
  using assms
  by (induction ws) (auto simp: Let_def insert_booking_def split: if_splits sum.splits)

section \<open>An offered start is always placed\<close>

lemma candidates_mem:
  "m \<in> fst ` set (fst (candidates d s member)) \<longleftrightarrow> m \<in> fst ` set (candidate_rows d s member)"
  by (force simp: candidates_def Let_def)

lemma candidate_known:
  "m \<in> fst ` set (fst (candidates d s member)) \<Longrightarrow> m \<in> m_id ` set (memberships d)"
  unfolding candidates_mem by (auto simp: candidate_rows_mem)

lemma candidate_name:
  assumes "tables_ok d"
  shows "case dict_name (snd (candidates d s member)) m of
    None \<Rightarrow> True | Some t \<Rightarrow> 1 \<le> length t \<and> length t \<le> 60"
proof (cases "map_of (rev (snd (candidates d s member))) m")
  case None
  then show ?thesis by (simp add: dict_name_def)
next
  case (Some name)
  then have "(m, name) \<in> set (snd (candidates d s member))"
    by (auto dest: map_of_SomeD)
  then obtain w where "(m, name, w) \<in> set (candidate_rows d s member)"
    by (auto simp: candidates_def Let_def)
  then obtain r where "r \<in> set (memberships d)" "name = m_display_name r"
    by (auto simp: candidate_rows_mem)
  then show ?thesis
    using assms Some by (auto simp: tables_ok_def dict_name_def)
qed

lemma tables_ok_cong:
  assumes "tables_ok d" "settings_of d' = settings_of d" "services d' = services d"
    "time_offs d' = time_offs d" "opening_hours d' = opening_hours d"
    "working_hours d' = working_hours d" "service_workers d' = service_workers d"
    "memberships d' = memberships d" "\<And>b. b \<in> set (bookings d') \<Longrightarrow> booking_ok d b"
  shows "tables_ok d'"
proof -
  have "hours_of d' m = hours_of d m" for m
    using assms(6) by (simp add: hours_of_def)
  moreover have "services_ok d' = services_ok d" "blocks_ok d' = blocks_ok d"
    using assms by (simp_all add: services_ok_def blocks_ok_def)
  moreover have "booking_ok d' b = booking_ok d b" for b
    using assms(3) by (simp add: booking_ok_def)
  ultimately show ?thesis
    using assms unfolding tables_ok_def by simp
qed

text \<open>A worker found eligible is free of every live booking for the length of the service.\<close>

lemma eligible_forD:
  assumes ok: "tables_ok d" and m: "m \<in> set (fst (eligible_for d (settings_of d) clock
      (fst (candidates d s member)) starts duration ov exclude))"
    and len: "0 < duration" and buf: "0 \<le> buffer_for duration ov (buffer_pct (settings_of d))"
      "buffer_for duration ov (buffer_pct (settings_of d)) \<le> 720"
    and pad: "padded (timezone (settings_of d)) (local_date (timezone (settings_of d)) starts)
      (local_date (timezone (settings_of d)) starts)"
  shows "m \<in> fst ` set (fst (candidates d s member))"
    and "b \<in> set (bookings d) \<Longrightarrow> b_worker b = m \<Longrightarrow> counts d exclude b \<Longrightarrow>
      \<not> meets (b_starts_at b, b_ends_at b) (starts, starts + duration * minute_us)"
proof -
  let ?g = "settings_of d" and ?hours = "fst (candidates d s member)"
  let ?day = "local_date (timezone ?g) starts"
  let ?buf = "buffer_for duration ov (buffer_pct ?g)"
  obtain first final earliest where w: "window clock (timezone ?g) ?day ?day (min_notice_minutes ?g)
      (booking_horizon_days ?g) = (first, final, earliest)"
    by (metis prod_cases3)
  let ?slots = "fst (offered d (sort (map fst ?hours)) ?hours (envelope d) ?g first final earliest
      duration ?buf exclude)"
  have le: "first \<le> final" and day: "first = ?day" "final = ?day"
    and mem: "m \<in> set (map fst ?hours)" and slot: "starts \<in> set (dict_list ?slots m)"
    using m w by (auto simp: eligible_for_def Let_def case_prod_unfold window_def split: if_splits)
  obtain slots where ms: "(m, slots) \<in> set ?slots" "starts \<in> set slots"
    using dict_listD [OF slot] by blast
  show "m \<in> fst ` set ?hours" using mem by simp
  then have rows: "dict_list ?hours m = hours_of d m"
    by (intro candidate_hours [OF ok]) (simp add: candidates_mem)
  then have week: "week_ok (dict_list ?hours m)"
    using hours_ok [OF ok] by simp
  show "\<not> meets (b_starts_at b, b_ends_at b) (starts, starts + duration * minute_us)"
    if "b \<in> set (bookings d)" "b_worker b = m" "counts d exclude b"
  proof -
    have "\<not> meets (b_starts_at b, b_ends_at b) (starts, starts + (duration + ?buf) * minute_us)"
      by (rule offered_free_of_bookings(2) [OF ok week len buf ms _ that]) (use pad day in simp)
    then show ?thesis
      using buf(1) by (auto simp: meets_def distrib_right)
  qed
qed

lemma place_first:
  assumes ok: "bookings_ok d" and checks: "row_checks (INSERT_BOOKING d g
      (nb\<lparr>nb_worker := w, nb_worker_name := dict_name names w\<rparr>))"
    and known: "w \<in> m_id ` set (memberships d)"
    and free: "\<And>b. b \<in> set (bookings d) \<Longrightarrow> b_worker b = w \<Longrightarrow> b_status b \<in> set OCCUPYING \<Longrightarrow>
      \<not> meets (b_starts_at b, b_ends_at b)
        (nb_starts_at nb, nb_starts_at nb + s_duration_minutes (nb_service nb) * minute_us)"
  shows "\<exists>d' b. place d g nb names args (w # ws) = Inr (d', b, w)"
proof -
  let ?b = "INSERT_BOOKING d g (nb\<lparr>nb_worker := w, nb_worker_name := dict_name names w\<rparr>)"
  have "insert_booking d ?b = Inr (d\<lparr>bookings := bookings d @ [?b], next_id := Suc (next_id d)\<rparr>)"
    by (rule insert_booking_free [OF ok checks])
      (use known free in \<open>auto simp: worker_known_def clash_def INSERT_BOOKING_def\<close>)
  then show ?thesis
    by (simp add: Let_def)
qed

text \<open>What the steps before the placement leave alone.\<close>

definition same_tables :: "db \<Rightarrow> db \<Rightarrow> bool" where
  "same_tables d d' \<longleftrightarrow> memberships d' = memberships d \<and> settings_of d' = settings_of d \<and>
     services d' = services d \<and> time_offs d' = time_offs d \<and> opening_hours d' = opening_hours d \<and>
     working_hours d' = working_hours d \<and> service_workers d' = service_workers d \<and>
     now d' = now d \<and> next_id d \<le> next_id d' \<and> payments d' = payments d"

text \<open>A writer that leaves the payments alone, and no id free again.\<close>

definition leaves_payments :: "db \<Rightarrow> db \<Rightarrow> bool" where
  "leaves_payments d d' \<longleftrightarrow> payments d' = payments d \<and> next_id d \<le> next_id d'"

lemma leaves_payments_trans: "leaves_payments a b \<Longrightarrow> leaves_payments b c \<Longrightarrow> leaves_payments a c"
  by (simp add: leaves_payments_def)

lemma leaves_payments_kinds:
  "same_tables d d' \<Longrightarrow> leaves_payments d d'"
  "same_but_mail d d' \<Longrightarrow> leaves_payments d d'"
  "same_but_log d d' \<Longrightarrow> leaves_payments d d'"
  "update_bookings d p f = Inr (d', rs) \<Longrightarrow> leaves_payments d d'"
  using same_but_mailD(7,15) [of d d'] same_but_logD(7,16) [of d d']
  by (auto simp: leaves_payments_def same_tables_def update_bookings_Inr)

lemma same_tablesD:
  assumes "same_tables d d'"
  shows "candidates d' s member = candidates d s member" "envelope d' = envelope d"
    "settings_of d' = settings_of d" "now d' = now d" "memberships d' = memberships d"
  using assms by (auto simp: same_tables_def candidates_def candidate_rows_def envelope_def)

lemma same_tables_trans: "same_tables a b \<Longrightarrow> same_tables b c \<Longrightarrow> same_tables a c"
  by (simp add: same_tables_def)

lemma same_tables_refl [simp]: "same_tables d d"
  by (simp add: same_tables_def)

lemma same_tables_client:
  "find_or_create d name address phone locale user proven = (d', c) \<Longrightarrow> same_tables d d'"
  by (auto simp: same_tables_def dest: find_or_create_fields)

lemma consents_same:
  assumes "record_consents d client version purposes src = Inr d'"
  shows "same_tables d d' \<and> bookings d' = bookings d"
proof -
  have "same_tables d (fold (\<lambda>(p, g). add_consent client version texts src p g) ps d) \<and>
      bookings (fold (\<lambda>(p, g). add_consent client version texts src p g) ps d) = bookings d" for texts ps
  proof (induction ps arbitrary: d)
    case (Cons a ps)
    obtain p g where a: "a = (p, g)" by (cases a)
    have "same_tables d (add_consent client version texts src p g d)"
      "bookings (add_consent client version texts src p g d) = bookings d"
      by (simp_all add: add_consent_def same_tables_def)
    then show ?case
      using Cons.IH [of "add_consent client version texts src p g d"] a
      by (auto intro: same_tables_trans)
  qed simp
  then show ?thesis
    using assms by (auto simp: record_consents_def split: sum.splits)
qed

text \<open>The bookings afterwards: each as it was, or a hold marked expired.\<close>

definition lapses :: "db \<Rightarrow> db \<Rightarrow> bool" where
  "lapses d d' \<longleftrightarrow> (\<forall>x \<in> set (bookings d). x \<in> set (bookings d') \<or>
     b_status x \<in> set EXPIRING \<and> x\<lparr>b_status := Expired\<rparr> \<in> set (bookings d'))"

lemma lapses_same: "bookings a = bookings b \<Longrightarrow> lapses b c \<Longrightarrow> lapses a c"
  by (simp add: lapses_def)

lemma EXPIRE_same:
  assumes "bookings_ok d" "EXPIRE d = Inr (d', n)"
  shows "same_tables d d'" "bookings_ok d'" "clients d' = clients d"
    "b \<in> set (bookings d') \<Longrightarrow> \<exists>b0 \<in> set (bookings d). b = b0 \<or> b = b0\<lparr>b_status := Expired\<rparr>"
    "b \<in> set (bookings d') \<Longrightarrow> b_status b \<in> set EXPIRING \<Longrightarrow> unexpired d' b"
    "lapses d d'"
proof -
  let ?d = "d\<lparr>bookings := update_where (EXPIRE_where d) (\<lambda>b. b\<lparr>b_status := Expired\<rparr>) (bookings d)\<rparr>"
  obtain d2 where "EXPIRE d = Inr (d2, length (filter (EXPIRE_where d) (bookings d)))"
    "bookings_ok d2" "same_but_log ?d d2"
    using EXPIRE_spec [OF assms(1)] by metis
  moreover from this(1) have "d2 = d'" using assms(2) by simp
  ultimately have log: "bookings_ok d'" "same_but_log ?d d'" by simp_all
  note D = same_but_logD [OF log(2)]
  show "same_tables d d'" "clients d' = clients d"
    using D by (simp_all add: same_tables_def)
  show "bookings_ok d'" by (rule log)
  show "\<exists>b0 \<in> set (bookings d). b = b0 \<or> b = b0\<lparr>b_status := Expired\<rparr>" if "b \<in> set (bookings d')"
    using that D(1) by (auto split: if_splits)
  show "unexpired d' b" if "b \<in> set (bookings d')" "b_status b \<in> set EXPIRING"
    by (rule EXPIRE_leaves [OF assms(2) that assms(1)])
  show "lapses d d'"
    using D(1) by (auto simp: lapses_def EXPIRE_where_def)
qed

lemma booking_ok_expired: "booking_ok d b \<Longrightarrow> booking_ok d (b\<lparr>b_status := Expired\<rparr>)"
  by (simp add: booking_ok_def EXPIRING_def)

lemma EXPIRE_tables:
  assumes "tables_ok d" "bookings_ok d" "EXPIRE d = Inr (d', n)"
  shows "tables_ok d'"
proof (rule tables_ok_cong [OF assms(1)])
  show "booking_ok d b" if "b \<in> set (bookings d')" for b
    using EXPIRE_same(4) [OF assms(2,3) that] assms(1) booking_ok_expired
    by (auto simp: tables_ok_def)
qed (use EXPIRE_same(1) [OF assms(2,3)] in \<open>simp_all add: same_tables_def\<close>)

lemma same_tables_ok:
  assumes "tables_ok d" "same_tables d d'" "bookings d' = bookings d"
  shows "tables_ok d'"
  by (rule tables_ok_cong [OF assms(1)]) (use assms in \<open>simp_all add: same_tables_def tables_ok_def\<close>)

lemma online_client_Inr:
  assumes "online_client d new phone prover = Inr (d3, c)" "bookings_ok d"
  shows "same_tables d d3" "bookings_ok d3" "tables_ok d \<Longrightarrow> tables_ok d3"
    "b \<in> set (bookings d3) \<Longrightarrow> \<exists>b0 \<in> set (bookings d). b = b0 \<or> b = b0\<lparr>b_status := Expired\<rparr>"
    "b \<in> set (bookings d3) \<Longrightarrow> b_status b \<in> set EXPIRING \<Longrightarrow> unexpired d3 b" "lapses d d3"
proof -
  obtain d1 where found: "find_or_create d (on_name new) (Some (on_address new)) (Some phone)
      (on_locale new) prover (prover \<noteq> None) = (d1, c)"
    using assms(1) by (auto simp: online_client_def Let_def split: prod.splits sum.splits)
  note f = find_or_create_fields [OF found] same_tables_client [OF found]
  let ?w = "if prover \<noteq> None then filter (\<lambda>x. \<not> snd x) (on_consents new) else []"
  obtain d2 n where said: "(if ?w = [] then Inr d1
      else record_consents d1 (c_id c) (on_policy_version new) ?w Booking_page) = Inr d2"
    and ex: "EXPIRE d2 = Inr (d3, n)"
    using assms(1) unfolding online_client_def Let_def found
    by (simp split: sum.splits prod.splits)
  have "same_tables d1 d2 \<and> bookings d2 = bookings d1"
    using said consents_same [of d1 "c_id c" "on_policy_version new" ?w Booking_page d2]
    by (cases "?w = []") simp_all
  note d2 = this [THEN conjunct1] this [THEN conjunct2] ex
  have same2: "same_tables d d2"
    by (rule same_tables_trans [OF f(14) d2(1)])
  have ok2: "bookings_ok d2"
    by (rule bookings_ok_cong [OF assms(2)]) (use d2(2) f(1) same2 in \<open>simp_all add: same_tables_def\<close>)
  show "same_tables d d3"
    by (rule same_tables_trans [OF same2 EXPIRE_same(1) [OF ok2 d2(3)]])
  show "bookings_ok d3" by (rule EXPIRE_same(2) [OF ok2 d2(3)])
  show "tables_ok d3" if "tables_ok d"
    by (rule EXPIRE_tables [OF same_tables_ok [OF that same2] ok2 d2(3)]) (simp add: d2(2) f(1))
  show "\<exists>b0 \<in> set (bookings d). b = b0 \<or> b = b0\<lparr>b_status := Expired\<rparr>" if "b \<in> set (bookings d3)"
    using EXPIRE_same(4) [OF ok2 d2(3) that] d2(2) f(1) by simp
  show "unexpired d3 b" if "b \<in> set (bookings d3)" "b_status b \<in> set EXPIRING"
    by (rule EXPIRE_same(5) [OF ok2 d2(3) that])
  show "lapses d d3"
    using EXPIRE_same(6) [OF ok2 d2(3)] d2(2) f(1) by (simp add: lapses_def)
qed

text \<open>The steps before the placement never end in an exception.\<close>

lemma texts_for_subset:
  "texts_for v ps = Inr t \<Longrightarrow> set qs \<subseteq> set ps \<Longrightarrow> texts_for v qs = Inr t"
  by (auto simp: texts_for_def split: option.splits if_splits)

lemma online_client_total:
  assumes "bookings_ok d" "texts_for (on_policy_version new) (map fst (on_consents new)) = Inr t"
  shows "\<exists>d3 c. online_client d new phone prover = Inr (d3, c)"
proof -
  obtain d1 c where found: "find_or_create d (on_name new) (Some (on_address new)) (Some phone)
      (on_locale new) prover (prover \<noteq> None) = (d1, c)"
    by fastforce
  note f = find_or_create_fields [OF found] same_tables_client [OF found]
  let ?w = "if prover \<noteq> None then filter (\<lambda>x. \<not> snd x) (on_consents new) else []"
  have said: "texts_for (on_policy_version new) (map fst ?w) = Inr t"
    by (rule texts_for_subset [OF assms(2)]) auto
  have "\<exists>d2. (if w = [] then Inr d1
      else record_consents d1 (c_id c) (on_policy_version new) w Booking_page) = Inr d2"
    if "texts_for (on_policy_version new) (map fst w) = Inr t" for w
    using that by (simp add: record_consents_def)
  from this [OF said] obtain d2 where d2: "(if ?w = [] then Inr d1
      else record_consents d1 (c_id c) (on_policy_version new) ?w Booking_page) = Inr d2"
    by blast
  then have "same_tables d1 d2 \<and> bookings d2 = bookings d1"
    using consents_same [of d1 "c_id c" "on_policy_version new" ?w Booking_page d2]
    by (cases "?w = []") simp_all
  then have "bookings_ok d2"
    using assms(1) f same_tables_trans [of d d1 d2]
    by (intro bookings_ok_cong [OF assms(1)]) (simp_all add: same_tables_def)
  then obtain d3 n where "EXPIRE d2 = Inr (d3, n)"
    using EXPIRE_spec by metis
  then show ?thesis
    unfolding online_client_def Let_def found using d2 by (simp split: sum.splits)
qed

lemma online_checksD:
  assumes "online_checks number configured d new prover live = Inr (s, phone, message, account)"
  shows "open_service d (on_service new) = Some s" "published (settings_of d)"
    "on_shown_currency new \<in> {None, Some (s_currency s)}"
    "\<exists>t. texts_for (on_policy_version new) (map fst (on_consents new)) = Inr t"
    "number (on_phone new) = Some phone" "message_text (on_message new) = Inr message"
    "account = offer configured d (settings_of d) (s_price_minor s) (s_currency s)"
    "(account = None) = (on_payment new = None)" "prover = None \<or> live"
  using assms
  by (auto simp: online_checks_def Let_def e164_def split: option.splits sum.splits if_splits)

lemma online_checks_refuses:
  assumes "online_checks number configured d new prover live = Inl e"
  shows "\<exists>st. e = ApiError st (code e)" "e \<noteq> ApiError 409 ''slot_taken''"
  using assms
  by (auto simp: online_checks_def Let_def e164_def texts_for_def message_text_def
      split: option.splits sum.splits if_splits)

lemma born_checks:
  "fst (born g clock account) \<in> {Awaiting_payment, Pending} \<longrightarrow> snd (born g clock account) \<noteq> None"
  "fst (born g clock account) \<in> {Awaiting_payment, Pending, Confirmed}"
  by (auto simp: born_def)

lemma INSERT_BOOKING_checks:
  assumes "5 \<le> s_duration_minutes (nb_service nb)" "s_duration_minutes (nb_service nb) \<le> 720"
    "0 \<le> s_price_minor (nb_service nb)" "s_price_minor (nb_service nb) \<le> 1000000"
    "settings_ok g" "nb_status nb \<in> {Awaiting_payment, Pending} \<longrightarrow> nb_expires_at nb \<noteq> None"
    "case nb_worker_name nb of None \<Rightarrow> True | Some t \<Rightarrow> 1 \<le> length t \<and> length t \<le> 60"
  shows "row_checks (INSERT_BOOKING d g nb)"
  using assms by (simp add: row_checks_def INSERT_BOOKING_def settings_ok_def split: option.splits)

lemma by_load_set [simp]: "set (by_load ms rows day zone) = set ms"
  by (simp add: by_load_def Let_def)

lemma by_load_nonempty: "ms \<noteq> [] \<Longrightarrow> \<exists>w ws. by_load ms rows day zone = w # ws \<and> w \<in> set ms"
  by (cases "by_load ms rows day zone")
    (auto simp: set_empty [symmetric] simp del: set_empty dest: arg_cong [of _ _ set])

lemma dict_name_cons_checks:
  "tables_ok d \<Longrightarrow> case dict_name (snd (candidates d s member)) w of
     None \<Rightarrow> True | Some t \<Rightarrow> 1 \<le> length t \<and> length t \<le> 60"
  by (rule candidate_name)

text \<open>The placement of an online booking, over the table the earlier steps leave.\<close>

lemma online_placed:
  assumes tabs: "tables_ok d3" and ok: "bookings_ok d3"
    and live: "\<And>b. b \<in> set (bookings d3) \<Longrightarrow> b_status b \<in> set EXPIRING \<Longrightarrow> unexpired d3 b"
    and s: "s \<in> set (services d3)"
    and el: "fst (eligible_for d3 (settings_of d3) clock (fst (candidates d3 i member)) starts
      (s_duration_minutes s) (s_buffer_minutes s) None) \<noteq> []" (is "?el \<noteq> []")
    and nb: "nb_service nb = s" "nb_starts_at nb = starts"
      "nb_status nb \<in> {Awaiting_payment, Pending} \<longrightarrow> nb_expires_at nb \<noteq> None"
    and pad: "padded (timezone (settings_of d3)) (local_date (timezone (settings_of d3)) starts)
      (local_date (timezone (settings_of d3)) starts)"
  shows "\<exists>d4 b w. place d3 (settings_of d3) nb (snd (candidates d3 i member)) args
      (by_load ?el rows day zone) = Inr (d4, b, w) \<and> w \<in> set ?el"
proof -
  obtain w ws where q: "by_load ?el rows day zone = w # ws" "w \<in> set ?el"
    using by_load_nonempty [OF el] by blast
  note sb = service_bounds [OF tabs s]
  have len: "0 < s_duration_minutes s" using sb(1) by simp
  note free = eligible_forD [OF tabs q(2) len sb(5,6) pad]
  have "\<exists>d4 b. place d3 (settings_of d3) nb (snd (candidates d3 i member)) args (w # ws) = Inr (d4, b, w)"
  proof (rule place_first [OF ok])
    show "row_checks (INSERT_BOOKING d3 (settings_of d3)
        (nb\<lparr>nb_worker := w, nb_worker_name := dict_name (snd (candidates d3 i member)) w\<rparr>))"
      by (rule INSERT_BOOKING_checks)
        (use nb sb tabs candidate_name [OF tabs] in \<open>simp_all add: tables_ok_def\<close>)
    show "w \<in> m_id ` set (memberships d3)"
      by (rule candidate_known [OF free(1)])
    show "\<not> meets (b_starts_at b, b_ends_at b)
        (nb_starts_at nb, nb_starts_at nb + s_duration_minutes (nb_service nb) * minute_us)"
      if "b \<in> set (bookings d3)" "b_worker b = w" "b_status b \<in> set OCCUPYING" for b
      using free(2) [OF that(1,2)] live [OF that(1)] that(3) by (auto simp: counts_def nb(1,2))
  qed
  then show ?thesis using q by auto
qed

lemma place_clients:
  "place d g nb names args ws = Inr (d', b, w) \<Longrightarrow> clients d' = clients d \<and> consents d' = consents d"
proof (induction ws)
  case (Cons x ws)
  then show ?case
    by (auto simp: insert_booking_def insert_event_def Let_def split: if_splits sum.splits)
qed simp

lemma place_leaves: "place d g nb names args ws = Inr (d', b, w) \<Longrightarrow> leaves_payments d d'"
proof (induction ws)
  case (Cons x ws)
  then show ?case
    by (auto simp: insert_booking_def insert_event_def leaves_payments_def Let_def split: if_splits sum.splits)
qed simp

text \<open>Whatever the tables, an accepted online booking leaves them in order.\<close>

lemma book_online_Inr:
  assumes "book_online number configured d new prover live = Inr (d', b, w, account)" "bookings_ok d"
  obtains d3 phone c where "lapses d d3" "bookings d' = bookings d3 @ [b]" "bookings_ok d'"
    "online_client d new phone prover = Inr (d3, c)" "clients d' = clients d3" "consents d' = consents d3"
    "leaves_payments d d'"
proof -
  obtain s phone message where chk: "online_checks number configured d new prover live =
      Inr (s, phone, message, account)"
    using assms(1) by (auto simp: book_online_def Let_def split: sum.splits prod.splits if_splits option.splits)
  obtain d3 c where cl: "online_client d new phone prover = Inr (d3, c)"
    using assms(1) by (auto simp: book_online_def chk split: sum.splits)
  let ?g = "settings_of d" and ?cands = "candidates d (on_service new) (on_member new)"
  let ?st = "born ?g (now d) account"
  let ?el = "eligible_for d3 ?g (now d) (fst ?cands) (on_starts_at new)
    (s_duration_minutes s) (s_buffer_minutes s) None"
  let ?place = "place d3 ?g (online_row new s (c_id c) phone message prover account ?st) (snd ?cands)
    (online_event new prover) (by_load (fst ?el) (snd ?el)
        (local_date (timezone ?g) (on_starts_at new)) (timezone ?g))"
  let ?told = "\<lambda>d4. case account of Some _ \<Rightarrow> fst (enqueue d4 Payment_settle
        (Settle_key (b_id b) Placed) [] (snd ?st))
      | None \<Rightarrow> announce d4 (b_id b) w (fst ?st) (b_starts_at b) (now d)"
  obtain d4 where p: "?place = Inr (d4, b, w)" "d' = ?told d4"
    using assms(1)
    by (cases ?place; cases account)
      (auto simp: book_online_def chk cl Let_def case_prod_unfold split: if_splits)
  note p' = place_Inr [OF p(1) online_client_Inr(2) [OF cl assms(2)]]
  have mail: "same_but_mail d4 d'"
    unfolding p(2) by (auto simp: enqueue_mail split: option.splits)
  have "leaves_payments d d'"
    by (rule leaves_payments_trans [OF leaves_payments_kinds(1) [OF online_client_Inr(1) [OF cl assms(2)]]
          leaves_payments_trans [OF place_leaves [OF p(1)] leaves_payments_kinds(2) [OF mail]]])
  then show thesis
    using that [OF online_client_Inr(6) [OF cl assms(2)]] p'(4) same_but_mailD(1) [OF mail]
      bookings_ok_mail [OF p'(2) mail] cl place_clients [OF p(1)] same_but_mailD(4,16) [OF mail] by simp
qed

lemma book_online_cases:
  assumes tabs: "tables_ok d" and ok: "bookings_ok d"
    and pad: "padded (timezone (settings_of d)) (local_date (timezone (settings_of d)) (on_starts_at new))
      (local_date (timezone (settings_of d)) (on_starts_at new))"
  obtains (refused) e where "book_online number configured d new prover live = Inl e"
      "e = ApiError (status_code e) (code e)" "e \<noteq> ApiError 409 ''slot_taken''"
  | (placed) d' b w account s phone message d3 c where
      "book_online number configured d new prover live = Inr (d', b, w, account)"
      "online_checks number configured d new prover live = Inr (s, phone, message, account)"
      "online_client d new phone prover = Inr (d3, c)"
      "bookings d' = bookings d3 @ [b]" "bookings_ok d'"
      "w \<in> set (fst (eligible_for d3 (settings_of d) (now d) (fst (candidates d (on_service new)
        (on_member new))) (on_starts_at new) (s_duration_minutes s) (s_buffer_minutes s) None))"
      "b_worker b = w" "b_client b = c_id c" "b_service b = on_service new"
      "b_starts_at b = on_starts_at new"
      "b_ends_at b = on_starts_at new + s_duration_minutes s * minute_us"
      "(b_status b, b_expires_at b) = born (settings_of d) (now d) account"
      "\<not> too_many_pending d3 (c_id c) (on_ip new)"
proof (cases "online_checks number configured d new prover live")
  case (Inl e)
  moreover have "e = ApiError (status_code e) (code e)"
    using online_checks_refuses(1) [OF Inl] by (metis api_error.sel(1))
  ultimately show ?thesis
    using online_checks_refuses(2) [OF Inl] by (intro refused [of e]) (auto simp: book_online_def)
next
  case (Inr r)
  obtain s phone message account where r: "r = (s, phone, message, account)"
    by (metis prod_cases4)
  note chk = online_checksD [OF Inr [unfolded r]]
  obtain d3 c where cl: "online_client d new phone prover = Inr (d3, c)"
    using online_client_total [OF ok] chk(4) by metis
  note cl' = online_client_Inr [OF cl ok]
  note same = same_tablesD [OF cl'(1)]
  let ?g = "settings_of d"
  let ?cands = "candidates d (on_service new) (on_member new)"
  let ?el = "eligible_for d3 ?g (now d) (fst ?cands) (on_starts_at new)
    (s_duration_minutes s) (s_buffer_minutes s) None"
  let ?st = "born ?g (now d) account"
  show ?thesis
  proof (cases "fst ?el = [] \<or> too_many_pending d3 (c_id c) (on_ip new)")
    case True
    let ?e = "if fst ?el = [] then ApiError 409 ''slot_unavailable''
      else ApiError 429 ''rate_limited''"
    have "book_online number configured d new prover live = Inl ?e"
      using True
      by (cases "fst ?el = []") (simp_all add: book_online_def Inr r cl Let_def case_prod_unfold)
    then show ?thesis by (rule refused) auto
  next
    case False
    let ?nb = "online_row new s (c_id c) phone message prover account ?st"
    let ?args = "online_event new prover"
    let ?place = "place d3 ?g ?nb (snd ?cands) ?args (by_load (fst ?el) (snd ?el)
        (local_date (timezone ?g) (on_starts_at new)) (timezone ?g))"
    have s: "s \<in> set (services d3)"
      using open_serviceD [OF chk(1)] cl'(1) by (simp add: same_tables_def)
    have el: "fst (eligible_for d3 (settings_of d3) (now d) (fst (candidates d3 (on_service new)
        (on_member new))) (on_starts_at new) (s_duration_minutes s) (s_buffer_minutes s) None) \<noteq> []"
      using False same by simp
    obtain d4 b w where p: "?place = Inr (d4, b, w)" "w \<in> set (fst ?el)"
      using online_placed [OF cl'(3) [OF tabs] cl'(2,5) s el, of ?nb ?args "snd ?el"
          "local_date (timezone ?g) (on_starts_at new)" "timezone ?g"] born_checks(1) [of ?g "now d" account] pad
      unfolding same by (auto simp: online_row_def)
    note p' = place_Inr [OF p(1) cl'(2)]
    let ?d' = "case account of Some _ \<Rightarrow> fst (enqueue d4 Payment_settle
        (Settle_key (b_id b) Placed) [] (snd ?st))
      | None \<Rightarrow> announce d4 (b_id b) w (fst ?st) (b_starts_at b) (now d)"
    have d': "book_online number configured d new prover live = Inr (?d', b, w, account)"
      using False
      by (simp add: book_online_def Inr r cl Let_def case_prod_unfold p(1) split: option.splits)
    have mail: "same_but_mail d4 ?d'"
      by (auto simp: enqueue_mail split: option.splits)
    show ?thesis
      by (rule placed [OF d' Inr [unfolded r] cl])
        (use p' p(2) mail False bookings_ok_mail [OF p'(2) mail] same_but_mailD(1) [OF mail]
           open_serviceD [OF chk(1)] in \<open>simp_all add: INSERT_BOOKING_def online_row_def\<close>)
  qed
qed

section \<open>What a booking by hand leaves\<close>

lemma same_tables_audit [simp]: "same_tables d (record_audit d a u t)"
  by (simp add: record_audit_def same_tables_def)

lemma record_audit_bookings [simp]: "bookings (record_audit d a u t) = bookings d"
  "memberships (record_audit d a u t) = memberships d" "next_id (record_audit d a u t) = next_id d"
  "now (record_audit d a u t) = now d" "settings_of (record_audit d a u t) = settings_of d"
  "events (record_audit d a u t) = events d" "clients (record_audit d a u t) = clients d"
  "services (record_audit d a u t) = services d"
  by (simp_all add: record_audit_def)

lemma insert_client_Inr:
  assumes "insert_client number d new = Inr (d1, c)"
  shows "same_tables d d1" "bookings d1 = bookings d"
  using assms by (auto simp: insert_client_def Let_def same_tables_def split: option.splits sum.splits if_splits)

lemma book_client_Inr:
  assumes "book_client number d current new = Inr (d1, client)"
  shows "same_tables d d1" "bookings d1 = bookings d"
proof -
  have "same_tables d d1 \<and> bookings d1 = bookings d"
  proof (cases "mb_client new")
    case None
    then obtain d2 c where "insert_client number d (the (mb_new_client new)) = Inr (d2, c)"
      "d1 = record_audit d2 ''client_created'' (user_id current) (Some (Client (c_id c)))"
      using assms by (auto simp: book_client_def split: sum.splits)
    then show ?thesis
      using insert_client_Inr same_tables_trans same_tables_audit by fastforce
  next
    case (Some i)
    then show ?thesis using assms by (auto simp: book_client_def split: if_splits)
  qed
  then show "same_tables d d1" "bookings d1 = bookings d" by blast+
qed

lemma bookings_ok_same: "bookings_ok d \<Longrightarrow> same_tables d d' \<Longrightarrow> bookings d' = bookings d \<Longrightarrow> bookings_ok d'"
  using bookings_ok_cong [of d d'] by (simp add: same_tables_def)

lemma told_of_booking_mail [simp]: "same_but_mail d (told_of_booking d current b w)"
proof -
  have "same_but_mail d (tell_team (fst (email d i t u x y m)) current i ws t' x' y')"
    for i t u x y m ws t' x' y'
    by (rule email_then [of d i t u x y m]) simp
  moreover have "same_but_mail d (tell_team (remind (fst (email d i t u x y m)) i s c) current i ws t' x' y')"
    for i t u x y m s c ws t' x' y'
    by (rule email_then [of d i t u x y m], rule same_but_mail_trans [OF remind_mail [of _ i s c]]) simp
  ultimately show ?thesis
    unfolding told_of_booking_def Let_def case_prod_unfold
    by (simp split: if_split)
qed

lemma book_Inr:
  assumes "book number d current new ip agent = Inr (d', b, w)" "bookings_ok d"
  obtains s client d2 where
    "open_service d (mb_service new) = Some s" "may_book_for d current (mb_member new)"
    "mb_override new \<longrightarrow> mb_member new \<noteq> None"
    "bookings_ok d'" "bookings d' = bookings d2 @ [b]" "same_tables d d2" "lapses d d2"
    "\<And>x. x \<in> set (bookings d2) \<Longrightarrow> \<exists>x0 \<in> set (bookings d). x = x0 \<or> x = x0\<lparr>b_status := Expired\<rparr>"
    "b_client b = client" "b_service b = mb_service new" "b_starts_at b = mb_starts_at new"
    "b_ends_at b = mb_starts_at new + s_duration_minutes s * minute_us"
    "b_status b = Confirmed" "b_source b = Merchant" "b_worker b = w"
    "w \<in> fst ` set (fst (candidates d (mb_service new) (mb_member new)))"
    "mb_override new \<or> w \<in> set (fst (eligible_for d2 (settings_of d) (now d) (fst (candidates d
       (mb_service new) (mb_member new))) (mb_starts_at new) (s_duration_minutes s)
       (s_buffer_minutes s) None))"
    "leaves_payments d d'"
proof -
  obtain s where s: "open_service d (mb_service new) = Some s"
    using assms(1) by (auto simp: book_def split: option.splits if_splits)
  obtain d1 client where c: "book_client number d current new = Inr (d1, client)"
    using assms(1) s by (auto simp: book_def split: sum.splits if_splits)
  obtain d2 n where ex: "EXPIRE d1 = Inr (d2, n)"
    using assms(1) s c by (auto simp: book_def split: sum.splits if_splits)
  note c' = book_client_Inr [OF c]
  have ok1: "bookings_ok d1" by (rule bookings_ok_same [OF assms(2) c'])
  note e = EXPIRE_same [OF ok1 ex]
  have same: "same_tables d d2" by (rule same_tables_trans [OF c'(1) e(1)])
  note D = same_tablesD [OF same]
  let ?g = "settings_of d" and ?cands = "candidates d (mb_service new) (mb_member new)"
  let ?el = "eligible_for d2 ?g (now d) (fst ?cands) (mb_starts_at new) (s_duration_minutes s)
    (s_buffer_minutes s) None"
  let ?q = "if mb_override new then sort (map fst (fst ?cands))
    else by_load (fst ?el) (snd ?el) (local_date (timezone ?g) (mb_starts_at new)) (timezone ?g)"
  let ?nb = "\<lparr>nb_client = client, nb_worker = 0, nb_service = s,
     nb_starts_at = mb_starts_at new, nb_status = Confirmed, nb_expires_at = None,
     nb_source = Merchant, nb_worker_name = None, nb_client_name = None,
     nb_client_phone = None, nb_client_message = None, nb_checkout = False, nb_booked_as = None\<rparr>"
  let ?args = "no_args\<lparr>ea_ip := ip, ea_user_agent := agent, ea_actor := Some (user_id current)\<rparr>"
  obtain d3 where p: "place d2 ?g ?nb (snd ?cands) ?args ?q = Inr (d3, b, w)"
    "d' = record_audit (told_of_booking d3 current b w) ''booking_created''
       (user_id current) (Some (Booking (b_id b)))"
    using assms(1) s c ex
    by (auto simp: book_def Let_def case_prod_unfold D split: sum.splits if_splits)
  note p' = place_Inr [OF p(1) e(2)]
  have mail: "same_but_mail d3 (told_of_booking d3 current b w)" by simp
  have ok: "bookings_ok d'"
    unfolding p(2) by (rule bookings_ok_same [OF bookings_ok_mail [OF p'(2) mail]]) simp_all
  have mem: "w \<in> fst ` set (fst ?cands)"
    "mb_override new \<or> w \<in> set (fst ?el)"
    using p'(1) by (auto simp: eligible_for_def Let_def case_prod_unfold split: if_splits)
  have lapses: "lapses d d2"
    using e(6) c'(2) by (simp add: lapses_def)
  have "leaves_payments d d'"
    unfolding p(2)
    by (rule leaves_payments_trans [OF leaves_payments_kinds(1) [OF same] leaves_payments_trans
          [OF place_leaves [OF p(1)] leaves_payments_trans [OF leaves_payments_kinds(2) [OF mail]
            leaves_payments_kinds(1) [OF same_tables_audit]]]])
  note leaves = this
  show thesis
  proof (rule that [OF s _ _ ok _ same lapses _ _ _ _ _ _ _ _ mem leaves])
    show "may_book_for d current (mb_member new)" "mb_override new \<longrightarrow> mb_member new \<noteq> None"
      using assms(1) s by (auto simp: book_def split: if_splits)
    show "bookings d' = bookings d2 @ [b]"
      using p(2) p'(4) same_but_mailD(1) [OF mail] by simp
    show "\<exists>x0 \<in> set (bookings d). x = x0 \<or> x = x0\<lparr>b_status := Expired\<rparr>"
      if "x \<in> set (bookings d2)" for x
      using e(4) [OF that] c'(2) by simp
  qed (use p'(3) open_serviceD [OF s] in \<open>simp_all add: INSERT_BOOKING_def\<close>)
qed

section \<open>What the booking page promises\<close>

lemma sample_bookings_ok: "bookings_ok sample"
  by code_simp

definition sample_online :: online where
  "sample_online = \<lparr>on_service = 7, on_member = None, on_starts_at = 10 * hour_us, on_name = ''Dora'',
     on_address = ''dora@example.com'', on_phone = ''+31612345678'', on_locale = Some ''en'',
     on_policy_version = ''2026-10-20/en'', on_consents = [(Marketing_email, True)], on_ip = Some (V4 7),
     on_user_agent = None, on_message = None, on_payment = None, on_shown_currency = Some ''EUR''\<rparr>"

lemma sample_padded: "padded (timezone (settings_of sample))
  (local_date (timezone (settings_of sample)) (on_starts_at sample_online))
  (local_date (timezone (settings_of sample)) (on_starts_at sample_online))"
  by code_simp

lemma sample_online_books:
  "\<exists>d' b w account. book_online Some False sample sample_online None True = Inr (d', b, w, account)"
proof -
  have "isl (book_online Some False sample sample_online None True) = False"
    by code_simp
  then show ?thesis by (cases "book_online Some False sample sample_online None True") auto
qed





text \<open>
  A guest's booking leaves every existing client and every recorded consent as it was,
  and adds at most one client.
\<close>

lemma guest_never_changes_a_client:
  assumes "book_online number configured d new None live = Inr (d', b, w, account)" and "bookings_ok d"
  shows "\<exists>added. clients d' = clients d @ added \<and> length added \<le> 1 \<and> consents d' = consents d"
proof (rule book_online_Inr [OF assms])
  fix d3 phone c
  assume cl: "online_client d new phone None = Inr (d3, c)"
    and same: "clients d' = clients d3" "consents d' = consents d3"
  obtain d1 where found: "find_or_create d (on_name new) (Some (on_address new)) (Some phone)
      (on_locale new) None False = (d1, c)"
    using cl by (auto simp: online_client_def Let_def split: prod.splits sum.splits)
  obtain n where ex: "EXPIRE d1 = Inr (d3, n)"
    using cl unfolding online_client_def Let_def by (simp add: found split: sum.splits prod.splits)
  have ok1: "bookings_ok d1"
    by (rule bookings_ok_cong [OF assms(2)]) (use find_or_create_fields [OF found] in simp_all)
  have "consents d1 = consents d"
    using found by (auto simp: find_or_create_def Let_def split: option.splits)
  moreover have "clients d3 = clients d1 \<and> consents d3 = consents d1"
  proof (rule EXPIRE_spec [OF ok1])
    fix x assume x: "EXPIRE d1 = Inr (x, length (filter (EXPIRE_where d1) (bookings d1)))"
      "same_but_log (d1\<lparr>bookings := update_where (EXPIRE_where d1) (\<lambda>b. b\<lparr>b_status := Expired\<rparr>) (bookings d1)\<rparr>) x"
    have "x = d3" using x(1) ex by simp
    then show ?thesis using same_but_logD(4,17) [OF x(2)] by simp
  qed
  moreover obtain new where "clients d1 = clients d @ new" "length new \<le> 1"
    using find_or_create_guest(2) [OF found] by force
  ultimately show ?thesis using same by simp
qed

end
