(* ===== verification/CancellationRule.thy ===== *)
theory CancellationRule
  imports Prelude
begin

text \<open>
  \<open>backend/app/cancellation.py\<close>: what a client may still do with a booking. Shows the rule each answer
  follows, that the refund is anchored to the earliest start ever held, so no later move raises it
  again, and that waiting never helps the client.
\<close>

section \<open>The policy and the decision\<close>

record policy =
  free_hours :: int
  cutoff_hours :: int
  max_moves :: int

text \<open>\<open>copy_key\<close>; \<open>Of_request\<close> is the key \<open>pending\<close> of \<open>booking_links._decide\<close>.\<close>

datatype copy_key = Started | Full_refund bool | No_refund bool | Of_request

record decision =
  can_cancel :: bool
  can_reschedule :: bool
  refund_pct :: int
  charge_pct :: int
  key_of :: copy_key
  reschedules_left :: int

text \<open>\<open>Policy.__post_init__\<close> raises \<open>ValueError\<close> for a negative value.\<close>

definition policy :: "int \<Rightarrow> int \<Rightarrow> int \<Rightarrow> policy result" where
  "policy free cutoff most =
     (if free < 0 \<or> cutoff < 0 \<or> most < 0 then Inl (Uncaught ''ValueError'')
      else Inr \<lparr>free_hours = free, cutoff_hours = cutoff, max_moves = most\<rparr>)"

text \<open>
  A Python \<open>datetime\<close>: aware ones are read as the UTC instant they name (\<open>astimezone(UTC)\<close>), naive
  ones (\<open>utcoffset() is None\<close>) name none.
\<close>

datatype moment = Aware instant | Naive

definition decide_at ::
  "policy \<Rightarrow> instant \<Rightarrow> instant \<Rightarrow> int \<Rightarrow> instant option \<Rightarrow> instant option \<Rightarrow> decision" where
  "decide_at p starts clock count original earliest =
     (let lead = starts - clock in
      if lead \<le> 0
      then \<lparr>can_cancel = False, can_reschedule = False, refund_pct = 0, charge_pct = 0,
            key_of = Started, reschedules_left = 0\<rparr>
      else
        let anchor = (case earliest of None \<Rightarrow> starts | Some e \<Rightarrow> e);
            refund = (if free_hours p * hour_us \<le> anchor - clock then 100 else 0);
            left = max (max_moves p - count) 0;
            movable = (cutoff_hours p * hour_us \<le> lead \<and> 0 < left \<and> original \<noteq> None)
        in \<lparr>can_cancel = True, can_reschedule = movable, refund_pct = refund, charge_pct = 0,
            key_of = (if refund \<noteq> 0 then Full_refund movable else No_refund movable),
            reschedules_left = (if movable then left else 0)\<rparr>)"

definition decide ::
  "policy \<Rightarrow> moment \<Rightarrow> moment \<Rightarrow> int \<Rightarrow> instant option \<Rightarrow> instant option \<Rightarrow> decision result" where
  "decide p starts clock count original earliest =
     (case (starts, clock) of
        (Aware s, Aware n) \<Rightarrow> Inr (decide_at p s n count original earliest)
      | _ \<Rightarrow> Inl (Uncaught ''ValueError''))"

section \<open>What it decides\<close>

lemma decide_at_started: "starts \<le> clock \<Longrightarrow> decide_at p starts clock count original earliest =
   \<lparr>can_cancel = False, can_reschedule = False, refund_pct = 0, charge_pct = 0,
    key_of = Started, reschedules_left = 0\<rparr>"
  by (simp add: decide_at_def Let_def)

lemma decide_at_live:
  assumes "clock < starts"
  shows "can_cancel (decide_at p starts clock count original earliest)"
    and "can_reschedule (decide_at p starts clock count original earliest) \<longleftrightarrow>
           clock + cutoff_hours p * hour_us \<le> starts \<and> count < max_moves p \<and> original \<noteq> None"
    and "refund_pct (decide_at p starts clock count original earliest) =
           (if clock + free_hours p * hour_us \<le> (case earliest of None \<Rightarrow> starts | Some e \<Rightarrow> e)
            then 100 else 0)"
    and "reschedules_left (decide_at p starts clock count original earliest) =
           (if can_reschedule (decide_at p starts clock count original earliest)
            then max_moves p - count else 0)"
  using assms by (auto simp: decide_at_def Let_def split: option.splits)

lemma refund_range: "refund_pct (decide_at p starts clock count original earliest) \<in> {0, 100}"
  by (simp add: decide_at_def Let_def)

text \<open>
  Before the start, the decision allows a cancellation, refunds all or nothing by the
  lead to the earliest start ever held, and allows a move by the lead to the current start,
  the moves left and the presence of an original start.
\<close>

lemma decide_follows_the_policy:
  assumes "clock < starts"
  shows "let x = decide_at p starts clock moves original earliest in
    can_cancel x \<and> charge_pct x = 0 \<and>
    can_reschedule x = (clock + cutoff_hours p * hour_us \<le> starts \<and> moves < max_moves p \<and> original \<noteq> None) \<and>
    refund_pct x = (if clock + free_hours p * hour_us \<le> (case earliest of None \<Rightarrow> starts | Some e \<Rightarrow> e)
      then 100 else 0) \<and>
    reschedules_left x = (if can_reschedule x then max_moves p - moves else 0)"
  using decide_at_live [OF assms] assms by (simp add: Let_def decide_at_def)

text \<open>
  A client who waits never gets a higher refund, a right they did not have, or more
  moves.
\<close>

lemma waiting_never_helps:
  assumes "clock \<le> clock'" and "0 \<le> free_hours p" and "0 \<le> cutoff_hours p"
  shows "let x = decide_at p starts clock moves original earliest;
      y = decide_at p starts clock' moves original earliest in
    refund_pct y \<le> refund_pct x \<and> (can_cancel y \<longrightarrow> can_cancel x) \<and>
    (can_reschedule y \<longrightarrow> can_reschedule x) \<and> reschedules_left y \<le> reschedules_left x"
  using assms by (auto simp: Let_def decide_at_def)

end
