(* ===== verification/Transitions.thy ===== *)
theory Transitions
  imports Placing CancellationRule
begin

text \<open>
  What a member does with a booking (\<open>backend/app/bookings.py\<close>): \<open>TRANSITIONS\<close> and \<open>transition\<close>, \<open>reschedule\<close>,
  the sweep and the reads (\<open>pending\<close>, \<open>agenda\<close>, \<open>detail\<close>). Shows the life cycle of a booking's status
  as a step relation that every writer follows, which statuses are final, who may do what, and that
  no handler breaks the table.
\<close>

section \<open>The rules\<close>

record rule =
  sources :: "status list"
  past_only :: bool
  action :: string

definition TRANSITIONS :: "(status \<times> rule) list" where
  "TRANSITIONS =
     [(Confirmed, \<lparr>sources = [Pending, Completed], past_only = False, action = ''booking_confirmed''\<rparr>),
      (Declined, \<lparr>sources = [Pending], past_only = False, action = ''booking_declined''\<rparr>),
      (Cancelled_by_merchant, \<lparr>sources = [Pending, Confirmed, Completed], past_only = False,
         action = ''booking_cancelled_by_merchant''\<rparr>),
      (Completed, \<lparr>sources = [Confirmed], past_only = True, action = ''booking_completed''\<rparr>),
      (No_show, \<lparr>sources = [Confirmed, Completed], past_only = True,
         action = ''booking_no_show_recorded''\<rparr>)]"

definition REFUNDING :: "status list" where
  "REFUNDING = [Declined, Expired, Cancelled_by_merchant, Cancelled_by_client]"

definition OWNER_ONLY_SOURCES :: "status list" where
  "OWNER_ONLY_SOURCES = [Completed]"

text \<open>\<open>StatusChange\<close>: a target, a message with a decline only (\<open>DescriptionText\<close>), a start with an
  accept only.\<close>

record status_change =
  sc_status :: status
  sc_message :: "string option"
  sc_starts_at :: "instant option"

definition description_text :: "string \<Rightarrow> bool" where
  "description_text t \<longleftrightarrow> strip t = t \<and> 1 \<le> length t \<and> length t \<le> 1000 \<and> multiline t"

definition status_change_ok :: "status_change \<Rightarrow> bool" where
  "status_change_ok c \<longleftrightarrow> sc_status c \<in> fst ` set TRANSITIONS \<and>
     (sc_message c \<noteq> None \<longrightarrow> sc_status c = Declined \<and> description_text (the (sc_message c))) \<and>
     (sc_starts_at c \<noteq> None \<longrightarrow> sc_status c = Confirmed)"

text \<open>\<open>BOOKING\<close>: the booking and the user who works it.\<close>

definition booking_row :: "db \<Rightarrow> uuid \<Rightarrow> (booking \<times> uuid) option" where
  "booking_row d i =
     first_row [(b, m_user m). b \<leftarrow> bookings d, m \<leftarrow> memberships d, b_id b = i, m_id m = b_worker b]"

definition PAID_PAYMENT :: "db \<Rightarrow> uuid \<Rightarrow> bool" where
  "PAID_PAYMENT d i \<longleftrightarrow> list_ex (\<lambda>p. p_booking p = i \<and> p_status p = Paid) (payments d)"

section \<open>transition\<close>

text \<open>Steps 3 to 3d: who may make this change.\<close>

definition may_transition :: "db \<Rightarrow> signed_in \<Rightarrow> booking \<Rightarrow> uuid \<Rightarrow> status \<Rightarrow> bool" where
  "may_transition d current b worker_user_id goal \<longleftrightarrow>
     may_manage current worker_user_id \<and>
     \<not> (b_status b \<in> set OWNER_ONLY_SOURCES \<and> \<not> is_owner current) \<and>
     \<not> (b_status b = Pending \<and> \<not> is_owner current \<and> \<not> workers_answer_requests (settings_of d)) \<and>
     \<not> (goal \<in> set REFUNDING \<and> \<not> is_owner current \<and>
         (PAID_PAYMENT d (b_id b) \<or> goal = Cancelled_by_merchant \<and> b_starts_at b \<le> now d))"

text \<open>The emails of a change, by the status before it.\<close>

definition told_of_change :: "db \<Rightarrow> booking \<Rightarrow> status \<Rightarrow> db" where
  "told_of_change d b goal =
     (if goal = Confirmed \<and> b_status b = Pending
      then
        let (d1, sent) = email d (b_id b) ''booking_confirmed'' None No_suffix
              [Starts_at (b_starts_at b)] True
        in if sent then remind d1 (b_id b) (b_starts_at b) (now d) else d1
      else if goal = Declined
      then fst (email d (b_id b) ''booking_declined'' None No_suffix [] True)
      else if goal = Cancelled_by_merchant \<and> b_status b \<in> {Pending, Confirmed}
      then fst (email d (b_id b) ''booking_cancelled'' None No_suffix [] True)
      else d)"

definition transition ::
  "db \<Rightarrow> signed_in \<Rightarrow> uuid \<Rightarrow> status_change \<Rightarrow> ip option \<Rightarrow> string option \<Rightarrow> (db \<times> status) result" where
  "transition d current i change ip agent =
     (if \<not> status_change_ok change then Inl (ApiError 422 ''invalid_request'') else
      case booking_row d i of
        None \<Rightarrow> Inl (ApiError 404 ''not_found'')
      | Some (row, worker_user_id) \<Rightarrow>
          if \<not> may_transition d current row worker_user_id (sc_status change)
          then Inl (ApiError 403 ''owner_only'')
          else
            let rule = the (map_of TRANSITIONS (sc_status change)) in
            (case TRANSITION d i (sc_status change) (sc_message change) (sources rule)
                    (past_only rule) (sc_starts_at change) of
               Inl e \<Rightarrow> Inl e
             | Inr (d1, changed) \<Rightarrow>
                 (case first_row changed of
                    None \<Rightarrow>
                      if b_status row = Pending \<and>
                         sc_starts_at change \<notin> {None, Some (b_starts_at row)}
                      then Inl (ApiError 409 ''changed'')
                      else Inl (ApiError 409 ''invalid_transition'')
                  | Some b \<Rightarrow>
                      let d2 = insert_event d1 i (Became (sc_status change))
                            (no_args\<lparr>ea_ip := ip, ea_user_agent := agent,
                               ea_actor := Some (user_id current)\<rparr>);
                          d3 = told_of_change d2 row (sc_status change)
                      in Inr (record_audit d3 (action rule) (user_id current) (Some (Booking i)),
                              b_status b))))"

section \<open>reschedule\<close>

record reschedule_in =
  ri_starts_at :: instant
  ri_member :: "uuid option"
  ri_override :: bool

definition told_of_move ::
  "db \<Rightarrow> signed_in \<Rightarrow> booking \<Rightarrow> uuid \<Rightarrow> booking \<Rightarrow> db" where
  "told_of_move d current row worker_user_id moved =
     (if now d < b_starts_at moved
      then
        let stamp = Moved_at (now d); new = b_starts_at moved; i = b_id row;
            (d1, sent) = email d i ''booking_confirmed'' None stamp [Starts_at new] True;
            d2 = (if sent then remind d1 i new (now d) else d1);
            other = (b_worker moved \<noteq> b_worker row);
            d3 = tell_team d2 current i [worker_user_id] ''booking_moved_team'' stamp
              ([Starts_at new, Previous_starts_at (b_starts_at row)] @
               (if other then [Member_changed] else []))
        in if other
           then tell_team d3 current i (worker_user d3 (b_worker moved)) ''booking_new'' stamp
                  [Starts_at new]
           else d3
      else d)"

definition move_eligible :: "db \<Rightarrow> booking \<Rightarrow> uuid \<Rightarrow> instant \<Rightarrow> bool" where
  "move_eligible d row worker starts =
     (case open_service d (b_service row) of
        None \<Rightarrow> False
      | Some s \<Rightarrow>
          fst (eligible_for d (settings_of d) (now d)
            (fst (candidates d (b_service row) (Some worker))) starts
            ((b_ends_at row - b_starts_at row) div minute_us) (s_buffer_minutes s)
            (Some (b_id row))) \<noteq> [])"

definition reschedule ::
  "db \<Rightarrow> signed_in \<Rightarrow> uuid \<Rightarrow> reschedule_in \<Rightarrow> ip option \<Rightarrow> string option \<Rightarrow> (db \<times> booking) result" where
  "reschedule d current i change ip agent =
     (case booking_row d i of
        None \<Rightarrow> Inl (ApiError 404 ''not_found'')
      | Some (row, worker_user_id) \<Rightarrow>
          if \<not> may_manage current worker_user_id then Inl (ApiError 403 ''owner_only'')
          else
            let worker = (case ri_member change of None \<Rightarrow> b_worker row | Some m \<Rightarrow> m) in
            if worker \<noteq> b_worker row \<and> \<not> may_book_for d current (Some worker)
            then Inl (ApiError 403 ''owner_only'')
            else if b_status row \<noteq> Confirmed then Inl (ApiError 409 ''invalid_transition'')
            else if ri_starts_at change = b_starts_at row \<and> worker = b_worker row
            then Inl (ApiError 422 ''unchanged'')
            else (case EXPIRE d of
               Inl e \<Rightarrow> Inl e
             | Inr (d1, _) \<Rightarrow>
                 let (hours, names) = candidates d1 (b_service row) (Some worker) in
                 if hours = [] then Inl (ApiError 409 ''slot_unavailable'')
                 else if \<not> ri_override change \<and> \<not> move_eligible d1 row worker (ri_starts_at change)
                 then Inl (ApiError 409 ''slot_unavailable'')
                 else (case MOVE d1 i (ri_starts_at change) worker (dict_name names worker) of
                    Inl e \<Rightarrow>
                      if e = Uncaught OVERLAP then Inl (ApiError 409 ''slot_taken'')
                      else if e = Uncaught BOOKINGS_WORKER
                      then Inl (ApiError 409 ''slot_unavailable'')
                      else Inl e
                  | Inr (d2, rows) \<Rightarrow>
                      (case first_row rows of
                         None \<Rightarrow> Inl (ApiError 409 ''invalid_transition'')
                       | Some moved \<Rightarrow>
                           let d3 = insert_event d2 i Rescheduled
                                 (no_args\<lparr>ea_ip := ip, ea_user_agent := agent,
                                    ea_actor := Some (user_id current),
                                    ea_details := Some (Moved (b_starts_at row) (b_starts_at moved))\<rparr>);
                               d4 = told_of_move d3 current row worker_user_id moved
                           in Inr (record_audit d4 ''booking_rescheduled'' (user_id current)
                                     (Some (Booking i)), moved)))))"

section \<open>The reads\<close>

definition MAX_AGENDA_WINDOW :: int where "MAX_AGENDA_WINDOW = 8 * day_us"

text \<open>
  Whose bookings a member sees. \<open>worker_id = (SELECT id FROM memberships WHERE user_id = me)\<close>: the
  table has one membership per user and business.
\<close>

definition sees :: "db \<Rightarrow> signed_in \<Rightarrow> booking \<Rightarrow> bool" where
  "sees d current b \<longleftrightarrow> is_owner current \<or>
     (case first_row (filter (\<lambda>m. m_user m = user_id current) (memberships d)) of
        None \<Rightarrow> False | Some m \<Rightarrow> b_worker b = m_id m)"

definition pending :: "db \<Rightarrow> signed_in \<Rightarrow> nat \<Rightarrow> booking list result" where
  "pending d current limit =
     (if limit < 1 \<or> 100 < limit then Inl (ApiError 422 ''invalid_request'')
      else Inr (take limit (sort_key (\<lambda>b. (b_starts_at b, b_id b))
        (filter (\<lambda>b. b_status b = Pending \<and> unexpired d b \<and> sees d current b) (bookings d)))))"

definition AGENDA :: "status list" where
  "AGENDA = filter (\<lambda>s. s \<noteq> Awaiting_payment) OCCUPYING @ [No_show]"

definition agenda :: "db \<Rightarrow> signed_in \<Rightarrow> instant \<Rightarrow> instant \<Rightarrow> booking list result" where
  "agenda d current since til =
     (if til \<le> since \<or> MAX_AGENDA_WINDOW < til - since
      then Inl (ApiError 422 ''invalid_window'')
      else Inr (sort_key (\<lambda>b. (b_starts_at b, b_id b))
        (filter (\<lambda>b. b_starts_at b < til \<and> since < b_ends_at b \<and>
           since - 12 * hour_us < b_starts_at b \<and> b_status b \<in> set AGENDA \<and>
           \<not> (b_status b \<in> set EXPIRING \<and> lapsed d b) \<and> sees d current b) (bookings d))))"

datatype actor = By_client | By_team | By_system

definition SYSTEM_EVENTS :: "event_kind list" where
  "SYSTEM_EVENTS = [Became Expired, Payment_checked, Payment_paid, Refunded, Refund_failed]"

definition actor_of :: "event_kind \<Rightarrow> uuid option \<Rightarrow> source \<Rightarrow> actor" where
  "actor_of k user src =
     (if user \<noteq> None \<or> (\<exists>s \<in> fst ` set TRANSITIONS. k = Became s) then By_team
      else if k = Created then (if src = Merchant then By_team else By_client)
      else if k \<in> set SYSTEM_EVENTS then By_system else By_client)"

text \<open>\<open>detail\<close>: the booking, its history in order, its client's contact as the panel shows it.\<close>

definition detail ::
  "db \<Rightarrow> signed_in \<Rightarrow> uuid \<Rightarrow> (booking \<times> bool \<times> (event \<times> actor) list) result" where
  "detail d current i =
     (case booking_row d i of
        None \<Rightarrow> Inl (ApiError 404 ''not_found'')
      | Some (b, worker_user_id) \<Rightarrow>
          if \<not> may_manage current worker_user_id then Inl (ApiError 403 ''owner_only'')
          else Inr (b, b_status b \<in> set EXPIRING \<and> lapsed d b,
            map (\<lambda>e. (e, actor_of (e_kind e) (ea_actor (e_args e)) (b_source b)))
              (sort_key e_id (filter (\<lambda>e. e_booking e = i) (events d)))))"

section \<open>The life cycle of a status\<close>

inductive status_step :: "status \<Rightarrow> status \<Rightarrow> bool" where
  Lapse: "s \<in> set EXPIRING \<Longrightarrow> status_step s Expired"
| Check_confirmed: "status_step Awaiting_payment Confirmed"
| Check_pending: "status_step Awaiting_payment Pending"
| Member: "(t, r) \<in> set TRANSITIONS \<Longrightarrow> s \<in> set (sources r) \<Longrightarrow> status_step s t"
| Client: "s \<in> {Pending, Confirmed} \<Longrightarrow> status_step s Cancelled_by_client"
| Erasure: "s \<in> {Pending, Confirmed} \<Longrightarrow> status_step s Cancelled_by_merchant"

inductive_simps status_step_simps: "status_step s t"

definition TERMINAL :: "status list" where
  "TERMINAL = [Declined, Expired, Cancelled_by_merchant, Cancelled_by_client, No_show]"

lemma terminal_stuck: "s \<in> set TERMINAL \<Longrightarrow> \<not> status_step s t"
  by (auto simp: status_step_simps TERMINAL_def EXPIRING_def TRANSITIONS_def)

lemma terminal_final:
  assumes "status_step\<^sup>*\<^sup>* s t" "s \<in> set TERMINAL"
  shows "t = s"
  using assms by (induction rule: rtranclp_induct) (auto dest: terminal_stuck)

text \<open>A slot once given up is never taken back: no step enters the occupying statuses from outside.\<close>

lemma step_occupying: "status_step s t \<Longrightarrow> t \<in> set OCCUPYING \<Longrightarrow> s \<in> set OCCUPYING"
  by (auto simp: status_step_simps EXPIRING_def OCCUPYING_def TRANSITIONS_def)

lemma steps_occupying: "status_step\<^sup>*\<^sup>* s t \<Longrightarrow> t \<in> set OCCUPYING \<Longrightarrow> s \<in> set OCCUPYING"
  by (induction rule: rtranclp_induct) (auto dest: step_occupying)

text \<open>What a booking keeps for life: the evidence of what was sold, to whom, on which terms.\<close>

definition snapshot where
  "snapshot b = (b_client b, b_service b, b_source b, b_service_name b, b_price_minor b,
     b_price_currency b, b_duration_minutes b, b_policy_text b, b_auto_confirm b, b_free_hours b,
     b_cutoff_hours b, b_max_reschedules b, b_booked_as b)"

definition follows :: "booking \<Rightarrow> booking \<Rightarrow> bool" where
  "follows b b' \<longleftrightarrow> b_id b' = b_id b \<and> snapshot b' = snapshot b \<and>
     b_ends_at b' - b_starts_at b' = b_ends_at b - b_starts_at b \<and>
     status_step\<^sup>*\<^sup>* (b_status b) (b_status b')"

definition evolves :: "db \<Rightarrow> db \<Rightarrow> bool" where
  "evolves d d' \<longleftrightarrow> (\<forall>b \<in> set (bookings d). \<exists>b' \<in> set (bookings d'). follows b b')"

lemma follows_refl [simp]: "follows b b"
  by (simp add: follows_def)

lemma follows_trans: "follows a b \<Longrightarrow> follows b c \<Longrightarrow> follows a c"
  by (auto simp: follows_def)

lemma evolves_trans: "evolves a b \<Longrightarrow> evolves b c \<Longrightarrow> evolves a c"
  unfolding evolves_def by (meson follows_trans)

lemma evolves_same: "bookings d' = bookings d \<Longrightarrow> evolves d d'"
  unfolding evolves_def by (metis follows_refl)

lemma evolves_add: "bookings d' = bookings d @ bs \<Longrightarrow> evolves d d'"
  unfolding evolves_def by (metis follows_refl UnCI set_append)

lemma evolves_update:
  assumes "update_bookings d p f = Inr (d', rs)"
    and "\<And>b. b \<in> set (bookings d) \<Longrightarrow> p b \<Longrightarrow> follows b (f b)"
  shows "evolves d d'"
  unfolding evolves_def
proof
  fix b assume b: "b \<in> set (bookings d)"
  have "(if p b then f b else b) \<in> set (bookings d')"
    using assms(1) b by (auto simp: update_bookings_Inr)
  then show "\<exists>b' \<in> set (bookings d'). follows b b'"
    by (rule rev_bexI) (use assms(2) b in simp)
qed

lemma follows_status:
  "status_step (b_status b) t \<Longrightarrow> follows b (b\<lparr>b_status := t\<rparr>)"
  by (simp add: follows_def snapshot_def)

lemma EXPIRE_evolves:
  assumes "EXPIRE d = Inr (d', n)"
  shows "evolves d d'"
proof -
  obtain d1 gone where u: "update_bookings d (EXPIRE_where d) (\<lambda>b. b\<lparr>b_status := Expired\<rparr>) = Inr (d1, gone)"
    "d' = log_all (Became Expired) no_args gone d1"
    using assms by (auto simp: EXPIRE_def split: sum.splits)
  have "evolves d d1"
    by (rule evolves_update [OF u(1)]) (auto simp: EXPIRE_where_def intro: follows_status Lapse)
  then show ?thesis
    using evolves_same [of d' d1] same_but_logD(1) [OF log_all_log, of "Became Expired" no_args gone d1] u(2)
    by (auto intro: evolves_trans)
qed

lemma EXPIRE_ONE_evolves:
  assumes "EXPIRE_ONE d i = Inr (d', n)"
  shows "evolves d d'" "bookings_ok d \<Longrightarrow> bookings_ok d'"
proof -
  obtain d1 gone where u: "update_bookings d (EXPIRE_ONE_where i) (\<lambda>b. b\<lparr>b_status := Expired\<rparr>) = Inr (d1, gone)"
    "d' = log_all (Became Expired) no_args gone d1"
    using assms by (auto simp: EXPIRE_ONE_def split: sum.splits)
  have "evolves d d1"
    by (rule evolves_update [OF u(1)])
      (auto simp: EXPIRE_ONE_where_def EXPIRING_def intro!: follows_status Lapse)
  then show "evolves d d'"
    using evolves_same [of d' d1] same_but_logD(1) [OF log_all_log, of "Became Expired" no_args gone d1] u(2)
    by (auto intro: evolves_trans)
  show "bookings_ok d'" if "bookings_ok d"
    using expire_one.keeps_table [OF u(1) that] u(2) by (simp add: bookings_ok_log [of d1])
qed

lemma PAID_follows: "b_status b = Awaiting_payment \<Longrightarrow> follows b (PAID_set d ttl b)"
  by (simp add: PAID_set_def follows_def snapshot_def r_into_rtranclp Check_confirmed Check_pending)

lemma PAID_evolves:
  assumes "PAID d i ttl = Inr (d', rs)"
  shows "evolves d d'" "bookings_ok d \<Longrightarrow> bookings_ok d'"
proof -
  note u = assms [unfolded PAID_def]
  show "evolves d d'"
    by (rule evolves_update [OF u]) (simp add: PAID_where_def PAID_follows)
  show "bookings_ok d \<Longrightarrow> bookings_ok d'"
    by (rule paid.keeps_table [OF u])
qed

lemma CLIENT_CANCEL_evolves:
  assumes "CLIENT_CANCEL d i = Inr (d', rs)"
  shows "evolves d d'" "bookings_ok d \<Longrightarrow> bookings_ok d'"
proof -
  note u = assms [unfolded CLIENT_CANCEL_def]
  show "evolves d d'"
    by (rule evolves_update [OF u]) (auto simp: CLIENT_CANCEL_where_def intro!: follows_status Client)
  show "bookings_ok d \<Longrightarrow> bookings_ok d'"
    by (rule client_cancel.keeps_table [OF u])
qed

lemma END_follows:
  "b_status b \<in> {Confirmed, Pending, Awaiting_payment} \<Longrightarrow> follows b (END_set b)"
  by (auto simp: END_set_def follows_def snapshot_def EXPIRING_def
      intro!: r_into_rtranclp Lapse Erasure)

lemma erasure_evolves:
  assumes "end_for_erasure d client reason at actor = Inr (d', ids)"
  shows "evolves d d'" "bookings_ok d \<Longrightarrow> bookings_ok d'"
proof -
  obtain d1 ended where u: "update_bookings d (END_where d client at) END_set = Inr (d1, ended)"
    "d' = fold (\<lambda>b d. insert_event d (b_id b) (Became (b_status b))
                 (no_args\<lparr>ea_actor := actor, ea_details := Some (Erasure reason at)\<rparr>)) ended d1"
    using assms by (auto simp: end_for_erasure_def split: sum.splits)
  have log: "same_but_log d1 d'"
    unfolding u(2) by (rule fold_log) simp
  have "b_status b \<in> {Confirmed, Pending, Awaiting_payment}" if "END_where d client at b" for b
    using that by (auto simp: END_where_def Let_def)
  then have "evolves d d1"
    by (intro evolves_update [OF u(1)] END_follows)
  then show "evolves d d'"
    using evolves_same [OF same_but_logD(1) [OF log]] by (rule evolves_trans)
  show "bookings_ok d'" if "bookings_ok d"
    by (rule bookings_ok_log [OF erasure.keeps_table [OF u(1) that] log])
qed

lemma moving_follows:
  "follows b (RESCHEDULE_set new b)" "follows b (PENDING_MOVE_set new b)"
  "follows b (MOVE_set new worker name b)"
  by (simp_all add: follows_def snapshot_def RESCHEDULE_set_def PENDING_MOVE_set_def MOVE_set_def
      move_to_def)

lemma RESCHEDULE_evolves:
  assumes "RESCHEDULE d i new seen = Inr (d', rs)"
  shows "evolves d d'" "bookings_ok d \<Longrightarrow> bookings_ok d'"
  by (rule evolves_update [OF assms [unfolded RESCHEDULE_def]], rule moving_follows)
    (rule reschedule.keeps_table [OF assms [unfolded RESCHEDULE_def]])

lemma PENDING_MOVE_evolves:
  assumes "PENDING_MOVE d i new = Inr (d', rs)"
  shows "evolves d d'" "bookings_ok d \<Longrightarrow> bookings_ok d'"
  by (rule evolves_update [OF assms [unfolded PENDING_MOVE_def]], rule moving_follows)
    (rule pending_move.keeps_table [OF assms [unfolded PENDING_MOVE_def]])

lemma MOVE_evolves:
  assumes "MOVE d i new worker name = Inr (d', rs)"
  shows "evolves d d'" "bookings_ok d \<Longrightarrow> bookings_ok d'"
  by (rule evolves_update [OF assms [unfolded MOVE_def]], rule moving_follows)
    (rule move.keeps_table [OF assms [unfolded MOVE_def]])

section \<open>transition and reschedule\<close>

lemma filter_one:
  "distinct xs \<Longrightarrow> x \<in> set xs \<Longrightarrow> (\<And>y. y \<in> set xs \<Longrightarrow> P y \<longleftrightarrow> y = x) \<Longrightarrow> filter P xs = [x]"
  by (induction xs) (auto simp: filter_empty_conv)

lemma booking_rowD:
  assumes "booking_row d i = Some (b, u)"
  shows "b \<in> set (bookings d)" "b_id b = i"
    "\<exists>m \<in> set (memberships d). m_id m = b_worker b \<and> u = m_user m"
  using first_row_in [OF assms [unfolded booking_row_def]] by (auto split: if_splits)

lemma booking_row_only:
  assumes "bookings_ok d" "booking_row d i = Some (b, u)" "x \<in> set (bookings d)" "b_id x = i"
  shows "x = b"
  using assms booking_rowD(1,2) [OF assms(2)]
  by (auto simp: bookings_ok_def distinct_map dest: inj_onD)

lemma TRANSITION_always_legal:
  assumes "status_change_ok c" "map_of TRANSITIONS (sc_status c) = Some r"
  shows "TRANSITION_legal (sc_status c) (sc_message c) (sources r)"
proof -
  have "(sc_status c, r) \<in> set TRANSITIONS"
    using assms(2) by (rule map_of_SomeD)
  moreover have "sc_message c = Some t \<Longrightarrow> sc_status c = Declined \<and> 1 \<le> length t \<and> length t \<le> 1000" for t
    using assms(1) by (auto simp: status_change_ok_def description_text_def)
  ultimately show ?thesis
    by (auto simp: TRANSITION_legal_def TRANSITIONS_def OCCUPYING_def split: option.splits)
qed

lemma target_rule:
  "status_change_ok c \<Longrightarrow> \<exists>r. map_of TRANSITIONS (sc_status c) = Some r \<and> (sc_status c, r) \<in> set TRANSITIONS"
  by (auto simp: status_change_ok_def TRANSITIONS_def)

lemma told_of_change_mail [simp]: "same_but_mail d (told_of_change d b s)"
proof -
  have "same_but_mail d (remind (fst (email d i t u x y m)) i' s' c)" for i t u x y m i' s' c
    by (rule email_then [of d i t u x y m]) simp
  then show ?thesis
    by (simp add: told_of_change_def Let_def case_prod_unfold)
qed

lemma TRANSITION_where_id: "TRANSITION_where d i srcs past seen x \<Longrightarrow> b_id x = i"
  by (simp add: TRANSITION_where_def)

text \<open>The UPDATE of a transition, on a table in order: it is never refused, and takes one row at most.\<close>

lemma TRANSITION_result:
  assumes ok: "bookings_ok d" and c: "status_change_ok c" and r: "map_of TRANSITIONS (sc_status c) = Some r"
    and row: "booking_row d i = Some (b, u)"
  shows "\<exists>d1 rows. TRANSITION d i (sc_status c) (sc_message c) (sources r) (past_only r) (sc_starts_at c) =
      Inr (d1, rows) \<and> bookings_ok d1 \<and>
      d1 = d\<lparr>bookings := update_where (TRANSITION_where d i (sources r) (past_only r) (sc_starts_at c))
        (TRANSITION_set (sc_status c) (sc_message c)) (bookings d)\<rparr> \<and>
      first_row rows = (if TRANSITION_where d i (sources r) (past_only r) (sc_starts_at c) b
        then Some (TRANSITION_set (sc_status c) (sc_message c) b) else None)"
proof -
  let ?p = "TRANSITION_where d i (sources r) (past_only r) (sc_starts_at c)"
  let ?f = "TRANSITION_set (sc_status c) (sc_message c)"
  have legal: "TRANSITION_legal (sc_status c) (sc_message c) (sources r)"
    by (rule TRANSITION_always_legal [OF c r])
  let ?d = "d\<lparr>bookings := update_where ?p ?f (bookings d)\<rparr>" and ?rows = "returning ?p ?f (bookings d)"
  have u: "update_bookings d ?p ?f = Inr (?d, ?rows)"
    by (rule transition.never_refused [OF legal ok])
  have "filter ?p (bookings d) = (if ?p b then [b] else [])"
  proof (cases "?p b")
    case True
    have "distinct (bookings d)"
      using ok by (simp add: bookings_ok_def distinct_map)
    then have "filter ?p (bookings d) = [b]"
    proof (rule filter_one [OF _ booking_rowD(1) [OF row]])
      show "?p x \<longleftrightarrow> x = b" if "x \<in> set (bookings d)" for x
        using booking_row_only [OF ok row that] TRANSITION_where_id True by blast
    qed
    then show ?thesis using True by simp
  next
    case False
    then have "\<not> ?p x" if "x \<in> set (bookings d)" for x
      using booking_row_only [OF ok row that] TRANSITION_where_id by blast
    then show ?thesis using False by (auto simp: filter_empty_conv)
  qed
  then have "first_row ?rows = (if ?p b then Some (?f b) else None)"
    by (simp add: returning_def)
  moreover have "bookings_ok ?d"
    by (rule transition.keeps_table [OF u ok])
  ultimately show ?thesis
    using u by (auto simp: TRANSITION_def)
qed

lemma transition_cases:
  assumes "bookings_ok d" and c: "status_change_ok change" and row: "booking_row d i = Some (b, u)"
    and may: "may_transition d current b u (sc_status change)"
  defines "r \<equiv> the (map_of TRANSITIONS (sc_status change))"
  shows "if TRANSITION_where d i (sources r) (past_only r) (sc_starts_at change) b
    then \<exists>d'. transition d current i change ip agent = Inr (d', sc_status change) \<and> bookings_ok d' \<and>
      bookings d' = update_where (TRANSITION_where d i (sources r) (past_only r) (sc_starts_at change))
        (TRANSITION_set (sc_status change) (sc_message change)) (bookings d) \<and>
      (\<exists>e. events d' = events d @ [e] \<and> e_booking e = i \<and> e_kind e = Became (sc_status change) \<and>
         ea_actor (e_args e) = Some (user_id current))
    else transition d current i change ip agent =
      Inl (if b_status b = Pending \<and> sc_starts_at change \<notin> {None, Some (b_starts_at b)}
           then ApiError 409 ''changed'' else ApiError 409 ''invalid_transition'')"
proof -
  have r: "map_of TRANSITIONS (sc_status change) = Some r"
    using target_rule [OF c] by (auto simp: r_def)
  obtain d1 rows where t: "TRANSITION d i (sc_status change) (sc_message change) (sources r) (past_only r)
      (sc_starts_at change) = Inr (d1, rows)" "bookings_ok d1"
    "d1 = d\<lparr>bookings := update_where (TRANSITION_where d i (sources r) (past_only r) (sc_starts_at change))
        (TRANSITION_set (sc_status change) (sc_message change)) (bookings d)\<rparr>"
    "first_row rows = (if TRANSITION_where d i (sources r) (past_only r) (sc_starts_at change) b
        then Some (TRANSITION_set (sc_status change) (sc_message change) b) else None)"
    using TRANSITION_result [OF assms(1) c r row] by blast
  note eq = transition_def [of d current i change ip agent] c row may r t(1,4)
  show ?thesis
  proof (cases "TRANSITION_where d i (sources r) (past_only r) (sc_starts_at change) b")
    case False
    then show ?thesis
      using c row may t(1,4) by (simp add: transition_def Let_def r_def [symmetric])
  next
    case True
    let ?args = "no_args\<lparr>ea_ip := ip, ea_user_agent := agent, ea_actor := Some (user_id current)\<rparr>"
    let ?d2 = "insert_event d1 i (Became (sc_status change)) ?args"
    let ?d3 = "told_of_change ?d2 b (sc_status change)"
    let ?d4 = "record_audit ?d3 (action r) (user_id current) (Some (Booking i))"
    have "transition d current i change ip agent = Inr (?d4, sc_status change)"
      using True c row may t(1,4)
      by (simp add: transition_def Let_def r_def [symmetric] TRANSITION_set_def)
    moreover have mail: "same_but_mail ?d2 ?d3" by simp
    moreover have "bookings_ok ?d4"
      using bookings_ok_mail [OF bookings_ok_log [OF t(2) insert_event_log] mail]
      by (rule bookings_ok_same) simp_all
    ultimately show ?thesis
      using True same_but_mailD(1,8) [OF mail] t(3) by simp
  qed
qed

lemma transition_Inr:
  assumes "transition d current i change ip agent = Inr (d', s)" "bookings_ok d"
  obtains b u r where "status_change_ok change" "booking_row d i = Some (b, u)"
    "may_transition d current b u (sc_status change)" "s = sc_status change"
    "map_of TRANSITIONS s = Some r" "bookings_ok d'"
    "TRANSITION_where d i (sources r) (past_only r) (sc_starts_at change) b"
    "bookings d' = update_where (TRANSITION_where d i (sources r) (past_only r) (sc_starts_at change))
      (TRANSITION_set s (sc_message change)) (bookings d)"
proof -
  have c: "status_change_ok change"
    using assms(1) by (auto simp: transition_def split: if_splits)
  obtain b u where row: "booking_row d i = Some (b, u)"
    and may: "may_transition d current b u (sc_status change)"
    using assms(1) c by (auto simp: transition_def Let_def split: option.splits if_splits)
  obtain r where r: "map_of TRANSITIONS (sc_status change) = Some r"
    using target_rule [OF c] by blast
  show thesis
    using transition_cases [OF assms(2) c row may, of ip agent] assms(1) r
    by (intro that [OF c row may]) (auto split: if_splits)
qed

lemma transition_evolves:
  assumes "transition d current i change ip agent = Inr (d', s)" "bookings_ok d"
  shows "evolves d d'" "bookings_ok d'"
proof -
  obtain b u r where t: "map_of TRANSITIONS s = Some r" "bookings_ok d'"
    "bookings d' = update_where (TRANSITION_where d i (sources r) (past_only r) (sc_starts_at change))
      (TRANSITION_set s (sc_message change)) (bookings d)"
    using transition_Inr [OF assms] by metis
  show "bookings_ok d'" by (rule t(2))
  let ?p = "TRANSITION_where d i (sources r) (past_only r) (sc_starts_at change)"
  let ?f = "TRANSITION_set s (sc_message change)"
  have step: "follows x (?f x)" if "?p x" for x
    using that Member [OF map_of_SomeD [OF t(1)], of "b_status x"]
    by (auto simp: TRANSITION_where_def TRANSITION_set_def follows_def snapshot_def)
  show "evolves d d'"
    unfolding evolves_def
  proof
    fix x assume "x \<in> set (bookings d)"
    then have "(if ?p x then ?f x else x) \<in> set (bookings d')"
      unfolding t(3) by auto
    then show "\<exists>b' \<in> set (bookings d'). follows x b'"
      by (rule rev_bexI) (use step in simp)
  qed
qed

lemma transition_leaves:
  assumes "transition d current i change ip agent = Inr (d', s)"
  shows "leaves_payments d d'"
proof -
  let ?args = "no_args\<lparr>ea_ip := ip, ea_user_agent := agent, ea_actor := Some (user_id current)\<rparr>"
  let ?r = "the (map_of TRANSITIONS (sc_status change))"
  have c: "status_change_ok change"
    using assms by (auto simp: transition_def split: if_splits)
  obtain b u where row: "booking_row d i = Some (b, u)" "may_transition d current b u (sc_status change)"
    using assms c by (auto simp: transition_def Let_def split: option.splits if_splits)
  obtain d1 rows where t1: "TRANSITION d i (sc_status change) (sc_message change) (sources ?r) (past_only ?r)
      (sc_starts_at change) = Inr (d1, rows)"
    using assms c row by (auto simp: transition_def Let_def split: sum.splits)
  have "d' = record_audit (told_of_change (insert_event d1 i (Became (sc_status change)) ?args) b
       (sc_status change)) (action ?r) (user_id current) (Some (Booking i))"
    using assms c row t1 by (auto simp: transition_def Let_def split: option.splits if_splits)
  note t = t1 this
  show ?thesis
    unfolding t(2)
    by (rule leaves_payments_trans [OF leaves_payments_kinds(4) [OF t(1) [unfolded TRANSITION_def]]
        leaves_payments_trans [OF leaves_payments_kinds(3) [OF insert_event_log] leaves_payments_trans
          [OF leaves_payments_kinds(2) [OF told_of_change_mail] leaves_payments_kinds(1) [OF same_tables_audit]]]])
qed

lemma mail_then:
  "same_but_mail d x \<Longrightarrow> same_but_mail d (tell_team x c i us t s es)"
  "same_but_mail d x \<Longrightarrow> same_but_mail d (remind x i st cl)"
  "same_but_mail d x \<Longrightarrow> same_but_mail d (fst (email x i t u s es m))"
  by (auto intro: same_but_mail_trans)

lemma told_of_move_mail [simp]: "same_but_mail d (told_of_move d current row u moved)"
  unfolding told_of_move_def Let_def case_prod_unfold
  by (auto intro!: mail_then simp del: tell_team_mail remind_mail email_mail)

lemma reschedule_Inr:
  assumes "reschedule d current i change ip agent = Inr (d', moved)" "bookings_ok d"
  obtains row u d1 d2 rows worker where
    "booking_row d i = Some (row, u)" "may_manage current u" "b_status row = Confirmed"
    "worker = (case ri_member change of None \<Rightarrow> b_worker row | Some m \<Rightarrow> m)"
    "worker = b_worker row \<or> may_book_for d current (Some worker)"
    "bookings_ok d1" "same_tables d d1" "evolves d d1" "lapses d d1"
    "\<And>x. x \<in> set (bookings d1) \<Longrightarrow> b_status x \<in> set EXPIRING \<Longrightarrow> unexpired d1 x"
    "worker \<in> fst ` set (fst (candidates d (b_service row) (Some worker)))"
    "ri_override change \<or> move_eligible d1 row worker (ri_starts_at change)"
    "MOVE d1 i (ri_starts_at change) worker (dict_name (snd (candidates d (b_service row) (Some worker))) worker)
       = Inr (d2, rows)" "first_row rows = Some moved"
    "bookings d' = bookings d2" "bookings_ok d'" "leaves_payments d d'"
proof -
  obtain row u where row: "booking_row d i = Some (row, u)"
    using assms(1) by (auto simp: reschedule_def split: option.splits)
  obtain w where w: "w = (case ri_member change of None \<Rightarrow> b_worker row | Some m \<Rightarrow> m)"
    by blast
  have guards: "may_manage current u" "w = b_worker row \<or> may_book_for d current (Some w)"
    "b_status row = Confirmed" "\<not> (ri_starts_at change = b_starts_at row \<and> w = b_worker row)"
    using assms(1) row by (auto simp: reschedule_def Let_def w [symmetric] split: if_splits)
  obtain d1 n where ex: "EXPIRE d = Inr (d1, n)"
    using EXPIRE_spec [OF assms(2)] by metis
  note e = EXPIRE_same [OF assms(2) ex]
  note D = same_tablesD [OF e(1)]
  let ?cands = "candidates d (b_service row) (Some w)"
  let ?name = "dict_name (snd ?cands) w"
  have rest: "reschedule d current i change ip agent =
      (if fst ?cands = [] then Inl (ApiError 409 ''slot_unavailable'')
       else if \<not> ri_override change \<and> \<not> move_eligible d1 row w (ri_starts_at change)
       then Inl (ApiError 409 ''slot_unavailable'')
       else (case MOVE d1 i (ri_starts_at change) w ?name of
          Inl e \<Rightarrow> if e = Uncaught OVERLAP then Inl (ApiError 409 ''slot_taken'')
             else if e = Uncaught BOOKINGS_WORKER then Inl (ApiError 409 ''slot_unavailable'')
             else Inl e
        | Inr (d2, rows) \<Rightarrow> (case first_row rows of
             None \<Rightarrow> Inl (ApiError 409 ''invalid_transition'')
           | Some moved \<Rightarrow>
               let d3 = insert_event d2 i Rescheduled
                     (no_args\<lparr>ea_ip := ip, ea_user_agent := agent, ea_actor := Some (user_id current),
                        ea_details := Some (Moved (b_starts_at row) (b_starts_at moved))\<rparr>)
               in Inr (record_audit (told_of_move d3 current row u moved) ''booking_rescheduled''
                         (user_id current) (Some (Booking i)), moved))))"
    unfolding reschedule_def row option.case prod.case Let_def w [symmetric] ex sum.case D
      case_prod_unfold fst_conv snd_conv
    using guards by auto
  have nonempty: "fst ?cands \<noteq> []" and el: "ri_override change \<or> move_eligible d1 row w (ri_starts_at change)"
    using assms(1) unfolding rest by (auto split: if_splits)
  obtain d2 rows where mv: "MOVE d1 i (ri_starts_at change) w ?name = Inr (d2, rows)"
    using assms(1) nonempty el unfolding rest
    by (cases "MOVE d1 i (ri_starts_at change) w ?name") (auto split: if_splits)
  let ?d3 = "insert_event d2 i Rescheduled
     (no_args\<lparr>ea_ip := ip, ea_user_agent := agent, ea_actor := Some (user_id current),
        ea_details := Some (Moved (b_starts_at row) (b_starts_at moved))\<rparr>)"
  have fin: "first_row rows = Some moved"
    "d' = record_audit (told_of_move ?d3 current row u moved) ''booking_rescheduled''
                         (user_id current) (Some (Booking i))"
    using assms(1) nonempty el mv unfolding rest
    by (auto simp: Let_def simp del: first_row.simps split: option.splits)
  have mail: "same_but_mail ?d3 (told_of_move ?d3 current row u moved)" by simp
  have ok2: "bookings_ok d2" by (rule MOVE_evolves(2) [OF mv e(2)])
  have "bookings_ok d'"
    unfolding fin(2)
    by (rule bookings_ok_same [OF bookings_ok_mail [OF bookings_ok_log [OF ok2 insert_event_log] mail]])
      simp_all
  moreover have "bookings d' = bookings d2"
    unfolding fin(2) using same_but_mailD(1) [OF mail] by simp
  moreover have "w \<in> fst ` set (fst ?cands)"
  proof -
    obtain x xs where x: "fst ?cands = x # xs" using nonempty by (cases "fst ?cands") auto
    then have "fst x \<in> fst ` set (fst ?cands)" by simp
    moreover from this have "fst x = w"
      unfolding candidates_mem by (auto simp: candidate_rows_mem)
    ultimately show ?thesis by simp
  qed
  moreover have "leaves_payments d d'"
    unfolding fin(2)
    by (rule leaves_payments_trans [OF leaves_payments_kinds(1) [OF e(1)] leaves_payments_trans
          [OF leaves_payments_kinds(4) [OF mv [unfolded MOVE_def]] leaves_payments_trans
            [OF leaves_payments_kinds(3) [OF insert_event_log] leaves_payments_trans
              [OF leaves_payments_kinds(2) [OF mail] leaves_payments_kinds(1) [OF same_tables_audit]]]]])
  ultimately show thesis
    by (intro that [OF row guards(1,3) w guards(2) e(2,1) EXPIRE_evolves [OF ex] e(6) e(5) _ el mv fin(1)])
qed

lemma reschedule_evolves:
  assumes "reschedule d current i change ip agent = Inr (d', moved)" "bookings_ok d"
  shows "evolves d d'" "bookings_ok d'"
proof -
  obtain d1 d2 rows w name where r: "evolves d d1" "bookings_ok d1"
    "MOVE d1 i (ri_starts_at change) w name = Inr (d2, rows)" "bookings d' = bookings d2" "bookings_ok d'"
    using reschedule_Inr [OF assms] by metis
  show "bookings_ok d'" by (rule r(5))
  show "evolves d d'"
    using r(1) MOVE_evolves(1) [OF r(3)] evolves_same [OF r(4)] by (blast intro: evolves_trans)
qed

section \<open>What the life cycle promises\<close>

text \<open>One step of the sample's history: the owner accepts the request.\<close>

definition sample_accept :: status_change where
  "sample_accept = \<lparr>sc_status = Confirmed, sc_message = None, sc_starts_at = Some (14 * hour_us)\<rparr>"

definition sample_accepted :: db where
  "sample_accepted = fst (projr (transition sample sample_owner 21 sample_accept None None))"

lemma sample_accepts: "transition sample sample_owner 21 sample_accept None None = Inr (sample_accepted, Confirmed)"
proof -
  have "isl (transition sample sample_owner 21 sample_accept None None) = False"
    "snd (projr (transition sample sample_owner 21 sample_accept None None)) = Confirmed"
    by code_simp+
  then show ?thesis
    by (cases "transition sample sample_owner 21 sample_accept None None") (auto simp: sample_accepted_def)
qed

text \<open>
  C30: For a member who may make a change: the change happens exactly when the rule for its
  target allows the current status, a provisional booking has not lapsed, an outcome is
  recorded after the start, and the start the member saw still stands; then the row has the
  new status and message and one event names the actor, otherwise the answer is changed or
  invalid_transition and never an exception.
\<close>

theorem transition_exact:
  assumes "bookings_ok d" and "status_change_ok change" and "booking_row d i = Some (b, u)"
    and "may_transition d current b u (sc_status change)"
    and "map_of TRANSITIONS (sc_status change) = Some r"
  shows "if b_status b \<in> set (sources r) \<and> (b_status b = Pending \<longrightarrow> unexpired d b) \<and>
        (past_only r \<longrightarrow> b_starts_at b \<le> now d) \<and> sc_starts_at change \<in> {None, Some (b_starts_at b)}
    then \<exists>d'. transition d current i change ip agent = Inr (d', sc_status change) \<and> bookings_ok d' \<and>
      bookings d' = update_where (\<lambda>x. b_id x = i)
        (\<lambda>x. x\<lparr>b_status := sc_status change, b_decline_message := sc_message change\<rparr>) (bookings d) \<and>
      (\<exists>e. events d' = events d @ [e] \<and> e_booking e = i \<and> e_kind e = Became (sc_status change) \<and>
         ea_actor (e_args e) = Some (user_id current))
    else transition d current i change ip agent =
      Inl (if b_status b = Pending \<and> sc_starts_at change \<notin> {None, Some (b_starts_at b)}
           then ApiError 409 ''changed'' else ApiError 409 ''invalid_transition'')"
proof -
  have r: "the (map_of TRANSITIONS (sc_status change)) = r" using assms(5) by simp
  have src: "Awaiting_payment \<notin> set (sources r)"
    using assms(5) by (auto simp: TRANSITIONS_def split: if_splits)
  let ?w = "TRANSITION_where d i (sources r) (past_only r) (sc_starts_at change)"
  have id: "b_id b = i" using booking_rowD [OF assms(3)] by blast
  have wb: "?w b \<longleftrightarrow> b_status b \<in> set (sources r) \<and> (b_status b = Pending \<longrightarrow> unexpired d b) \<and>
        (past_only r \<longrightarrow> b_starts_at b \<le> now d) \<and> sc_starts_at change \<in> {None, Some (b_starts_at b)}"
    using src id by (auto simp: TRANSITION_where_def split: option.splits)
  have same: "update_where ?w f (bookings d) = update_where (\<lambda>x. b_id x = i) f (bookings d)" if "?w b" for f
    unfolding update_where_def
  proof (rule map_cong [OF refl])
    fix x assume x: "x \<in> set (bookings d)"
    have "?w x \<longleftrightarrow> b_id x = i"
      using TRANSITION_where_id booking_row_only [OF assms(1,3) x] that by blast
    then show "(if ?w x then f x else x) = (if b_id x = i then f x else x)" by simp
  qed
  have set: "TRANSITION_set (sc_status change) (sc_message change) =
      (\<lambda>x. x\<lparr>b_status := sc_status change, b_decline_message := sc_message change\<rparr>)"
    by (rule ext) (simp add: TRANSITION_set_def)
  show ?thesis
    using transition_cases [OF assms(1-4), unfolded r, of ip agent] same
    unfolding wb [symmetric] set by (simp split: if_splits)
qed

theorem transition_exact_witness:
  "transition sample sample_owner 21 \<lparr>sc_status = Completed, sc_message = None, sc_starts_at = None\<rparr> None None
    = Inl (ApiError 409 ''invalid_transition'')"
proof -
  let ?c = "\<lparr>sc_status = Completed, sc_message = None, sc_starts_at = None\<rparr>"
  have h: "status_change_ok ?c" "booking_row sample 21 = Some (sample_booking 21 (14 * hour_us) Pending, 11)"
    "may_transition sample sample_owner (sample_booking 21 (14 * hour_us) Pending) 11 (sc_status ?c)"
    "map_of TRANSITIONS (sc_status ?c) = Some \<lparr>sources = [Confirmed], past_only = True, action = ''booking_completed''\<rparr>"
    by code_simp+
  have p: "b_status (sample_booking 21 (14 * hour_us) Pending) = Pending" by code_simp
  show ?thesis using transition_exact [OF sample_bookings_ok h, of None None] p by simp
qed

text \<open>
  C31: A member who is not an owner changes only bookings they work, never one already
  completed, answers requests only where the business lets workers, never refunds a paid
  payment, and never cancels a booking that has started.
\<close>

theorem transition_authority:
  assumes "transition d current i change ip agent = Inr (d', s)" and "bookings_ok d"
  shows "\<exists>b u. booking_row d i = Some (b, u) \<and> s = sc_status change \<and>
    (is_owner current \<or> u = user_id current \<and> b_status b \<noteq> Completed \<and>
      (b_status b = Pending \<longrightarrow> workers_answer_requests (settings_of d)) \<and>
      (s \<in> set REFUNDING \<longrightarrow> \<not> PAID_PAYMENT d i) \<and>
      (s = Cancelled_by_merchant \<longrightarrow> now d < b_starts_at b))"
proof (rule transition_Inr [OF assms])
  fix b u r
  assume b: "booking_row d i = Some (b, u)" "may_transition d current b u (sc_status change)" "s = sc_status change"
  have id: "b_id b = i" using booking_rowD [OF b(1)] by blast
  have ref: "Cancelled_by_merchant \<in> set REFUNDING" by (simp add: REFUNDING_def)
  have "is_owner current \<or> u = user_id current \<and> b_status b \<noteq> Completed \<and>
      (b_status b = Pending \<longrightarrow> workers_answer_requests (settings_of d)) \<and>
      (s \<in> set REFUNDING \<longrightarrow> \<not> PAID_PAYMENT d i) \<and>
      (s = Cancelled_by_merchant \<longrightarrow> now d < b_starts_at b)"
    using b(2) id ref unfolding b(3)
    by (auto simp: may_transition_def may_manage_def OWNER_ONLY_SOURCES_def)
  then show ?thesis using b(1,3) by blast
qed

theorem transition_authority_witness:
  "\<exists>b u. booking_row sample 21 = Some (b, u) \<and> Confirmed = sc_status sample_accept"
  using transition_authority [OF sample_accepts sample_bookings_ok] by blast

text \<open>
  The sweep never fails, expires exactly the provisional bookings whose deadline has
  passed, writes one event for each, and leaves none to expire.
\<close>

lemma sweep_expires_exactly_the_lapsed:
  assumes "bookings_ok d"
  shows "\<exists>d'. EXPIRE d = Inr (d', length (filter (EXPIRE_where d) (bookings d))) \<and> bookings_ok d' \<and>
    bookings d' = map (\<lambda>b. if b_status b \<in> {Pending, Awaiting_payment} \<and> lapsed d b
      then b\<lparr>b_status := Expired\<rparr> else b) (bookings d) \<and>
    map (\<lambda>e. (e_booking e, e_kind e)) (events d') = map (\<lambda>e. (e_booking e, e_kind e)) (events d) @
      map (\<lambda>b. (b_id b, Became Expired)) (filter (EXPIRE_where d) (bookings d)) \<and>
    list_all (\<lambda>b. \<not> EXPIRE_where d' b) (bookings d')"
proof (rule EXPIRE_spec [OF assms])
  fix d' assume e: "EXPIRE d = Inr (d', length (filter (EXPIRE_where d) (bookings d)))" "bookings_ok d'"
    "same_but_log (d\<lparr>bookings := update_where (EXPIRE_where d) (\<lambda>b. b\<lparr>b_status := Expired\<rparr>) (bookings d)\<rparr>) d'"
    "map (\<lambda>e. (e_booking e, e_kind e)) (events d') = map (\<lambda>e. (e_booking e, e_kind e)) (events d) @
       map (\<lambda>b. (b_id b, Became Expired)) (filter (EXPIRE_where d) (bookings d))"
  have w: "EXPIRE_where d b \<longleftrightarrow> b_status b \<in> {Pending, Awaiting_payment} \<and> lapsed d b" for b
    by (auto simp: EXPIRE_where_def EXPIRING_def)
  have bs: "bookings d' = map (\<lambda>b. if b_status b \<in> {Pending, Awaiting_payment} \<and> lapsed d b
      then b\<lparr>b_status := Expired\<rparr> else b) (bookings d)"
    using same_but_logD(1) [OF e(3)] by (simp add: update_where_def w)
  have "\<not> EXPIRE_where d' b" if "b \<in> set (bookings d')" for b
    using EXPIRE_leaves [OF e(1) that _ assms]
    by (auto simp: EXPIRE_where_def unexpired_def lapsed_def split: option.splits)
  then show ?thesis using e bs by (auto simp: list_all_iff)
qed

text \<open>
  Within the client's allowance, the statement behind their move is refused exactly when
  the moved booking would overlap another, and by no other constraint.
\<close>

lemma client_move_refused_only_by_an_overlap:
  assumes "bookings_ok d" and "RESCHEDULE_legal i d"
  shows "(\<exists>d' rows. RESCHEDULE d i new seen = Inr (d', rows)) =
      no_clash (update_where (RESCHEDULE_where d i seen) (RESCHEDULE_set new) (bookings d)) \<and>
    RESCHEDULE d i new seen \<noteq> Inl (Uncaught ''ck_bookings'') \<and>
    RESCHEDULE d i new seen \<noteq> Inl (Uncaught ''original_starts_at_while_pending'')"
proof -
  have iff: "(\<exists>d' rows. RESCHEDULE d i new seen = Inr (d', rows)) =
      no_clash (update_where (RESCHEDULE_where d i seen) (RESCHEDULE_set new) (bookings d))"
    unfolding RESCHEDULE_def by (rule reschedule.accepted_iff [OF assms(2,1)])
  have "e = Uncaught OVERLAP" if "RESCHEDULE d i new seen = Inl e" for e
    using that unfolding RESCHEDULE_def by (rule reschedule.only_overlap [OF assms(2,1)])
  moreover have "Uncaught ''ck_bookings'' \<noteq> Uncaught OVERLAP"
    "Uncaught ''original_starts_at_while_pending'' \<noteq> Uncaught OVERLAP"
    by (simp_all add: OVERLAP_def)
  ultimately show ?thesis using iff by blast
qed

text \<open>
  A member's accepted move leaves the same confirmed booking at the asked start and
  worker with its length, without spending the client's allowance, and hands it to a colleague
  only when the member may book for them.
\<close>

lemma member_move_stands_as_asked:
  assumes "reschedule d current i change ip agent = Inr (d', moved)" and "bookings_ok d"
  shows "\<exists>row u. booking_row d i = Some (row, u) \<and> may_manage current u \<and> b_status row = Confirmed \<and>
    bookings_ok d' \<and> moved \<in> set (bookings d') \<and> b_id moved = i \<and> b_status moved = Confirmed \<and>
    b_starts_at moved = ri_starts_at change \<and>
    b_ends_at moved - b_starts_at moved = b_ends_at row - b_starts_at row \<and>
    b_reschedule_count moved = b_reschedule_count row \<and>
    b_worker moved = (case ri_member change of None \<Rightarrow> b_worker row | Some m \<Rightarrow> m) \<and>
    (b_worker moved = b_worker row \<or> may_book_for d current (Some (b_worker moved)))"
proof (rule reschedule_Inr [OF assms])
  fix row u d1 d2 rows w
  assume row: "booking_row d i = Some (row, u)" and may: "may_manage current u"
    and st: "b_status row = Confirmed"
    and w: "w = (case ri_member change of None \<Rightarrow> b_worker row | Some m \<Rightarrow> m)"
      "w = b_worker row \<or> may_book_for d current (Some w)"
    and ok1: "bookings_ok d1" and lap: "lapses d d1"
    and mv: "MOVE d1 i (ri_starts_at change) w (dict_name (snd (candidates d (b_service row) (Some w))) w)
       = Inr (d2, rows)" "first_row rows = Some moved"
    and fin: "bookings d' = bookings d2" "bookings_ok d'"
  have r: "row \<in> set (bookings d)" "b_id row = i" using booking_rowD [OF row] by auto
  have row1: "row \<in> set (bookings d1)" using lap r(1) st by (auto simp: lapses_def EXPIRING_def)
  obtain b where b: "b \<in> set (bookings d1)" "MOVE_where d1 i b" "moved \<in> set (bookings d2)"
    "moved = MOVE_set (ri_starts_at change) w (dict_name (snd (candidates d (b_service row) (Some w))) w) b"
    using move.moved_row [OF mv(1) [unfolded MOVE_def] first_row_in [OF mv(2)]] by blast
  have "b = row"
    using ok1 b(1,2) row1 r(2) by (auto simp: bookings_ok_def distinct_map MOVE_where_def dest: inj_onD)
  then show ?thesis
    using row may st w b(3,4) fin r(2) by (auto simp: MOVE_set_def move_to_def)
qed

lemma sample_moves:
  "\<exists>d' moved. reschedule sample sample_owner 20 \<lparr>ri_starts_at = 10 * hour_us, ri_member = None, ri_override = False\<rparr>
     None None = Inr (d', moved)"
proof -
  have "isl (reschedule sample sample_owner 20 \<lparr>ri_starts_at = 10 * hour_us, ri_member = None, ri_override = False\<rparr>
     None None) = False"
    by code_simp
  then show ?thesis
    by (cases "reschedule sample sample_owner 20 \<lparr>ri_starts_at = 10 * hour_us, ri_member = None, ri_override = False\<rparr>
     None None") auto
qed

text \<open>
  Moving a confirmed booking, by the client or by a member, never raises the refund the
  client gets at a given moment.
\<close>

lemma moving_never_raises_the_refund:
  assumes "RESCHEDULE_where d i seen b \<or> MOVE_where d i b" and "row_checks b"
    and "b' \<in> {RESCHEDULE_set new b, MOVE_set new who nm b}"
    and "b_earliest_starts_at b = Some e" and "clock < b_starts_at b" and "clock < b_starts_at b'"
  shows "refund_pct (decide_at p (b_starts_at b') clock (b_reschedule_count b') (b_original_starts_at b')
      (b_earliest_starts_at b'))
    \<le> refund_pct (decide_at p (b_starts_at b) clock (b_reschedule_count b) (b_original_starts_at b)
      (b_earliest_starts_at b))"
proof -
  have "b_earliest_starts_at b' = Some (min e new)"
    using assms(3,4) by (auto simp: RESCHEDULE_set_def MOVE_set_def move_to_def least_def min.commute)
  then show ?thesis
    using decide_at_live(3) [OF assms(5)] decide_at_live(3) [OF assms(6)] assms(4) by auto
qed

end
