(* ===== verification/Payments.thy ===== *)
theory Payments
  imports PaymentRows Fees Transitions
begin

text \<open>
  \<open>backend/app/payments.py\<close>: the payment a booking waits for, what Stripe says of it, and the money an
  ended booking sends back. A route reads, calls Stripe with no transaction open, then writes.
\<close>

section \<open>Rules\<close>

definition landed :: "intent_state \<Rightarrow> payment_kind \<Rightarrow> bool" where
  "landed st kind \<longleftrightarrow> is_status st =
     (if kind = Check \<and> is_type st = Payment_intent then ''requires_capture'' else ''succeeded'')"

definition upper_char :: "char \<Rightarrow> char" where
  "upper_char c = (let n = (of_char c :: nat)
     in if 97 \<le> n \<and> n \<le> 122 then char_of (n - 32) else c)"

text \<open>The intent is for this payment's amount and currency; a SetupIntent has none.\<close>

definition matches :: "intent_state \<Rightarrow> payment \<Rightarrow> bool" where
  "matches st row \<longleftrightarrow> is_type st = Setup_intent \<or>
     is_amount st = Some (p_amount_minor row) \<and>
     map upper_char (case is_currency st of None \<Rightarrow> '''' | Some c \<Rightarrow> c) = p_currency row"

text \<open>A payment has an account: \<open>INSERT_PAYMENT\<close> asks for one and none is ever deleted.\<close>

definition account_of :: "db \<Rightarrow> string" where
  "account_of d = (case payment_account d of None \<Rightarrow> '''' | Some a \<Rightarrow> pa_account a)"

definition READ_PAYMENT :: "db \<Rightarrow> string \<Rightarrow> payment option" where
  "READ_PAYMENT d intent = first_row (filter (\<lambda>p. p_intent p = intent) (payments d))"

section \<open>Reconciling\<close>

definition record_event :: "db \<Rightarrow> uuid \<Rightarrow> event_kind \<Rightarrow> details \<Rightarrow> db" where
  "record_event d booking k ds = insert_event d booking k (no_args\<lparr>ea_details := Some ds\<rparr>)"

definition settle_job :: "db \<Rightarrow> uuid \<Rightarrow> settle_reason \<Rightarrow> db" where
  "settle_job d booking why = fst (enqueue d Payment_settle (Settle_key booking why) [] None)"

text \<open>\<open>_live\<close>: a checkout still live becomes a request or confirmed, and is announced now.\<close>

definition book_live :: "db \<Rightarrow> uuid \<Rightarrow> event_kind \<Rightarrow> details \<Rightarrow> (db \<times> booking option) result" where
  "book_live d booking k ds =
     (case PAID d booking (pending_ttl_hours (settings_of d)) of
        Inl e \<Rightarrow> Inl e
      | Inr (d1, rows) \<Rightarrow>
          (case first_row rows of
             None \<Rightarrow> Inr (d1, None)
           | Some b \<Rightarrow> Inr (announce (record_event d1 booking k ds) (b_id b) (b_worker b) (b_status b)
               (b_starts_at b) (now d), Some b)))"

text \<open>\<open>_paid\<close> and \<open>_checked\<close>.\<close>

definition paid_in :: "db \<Rightarrow> payment \<Rightarrow> db result" where
  "paid_in d row =
     (case MARK_PAID d (p_id row) of
        Inl e \<Rightarrow> Inl e
      | Inr (d1, _) \<Rightarrow>
          (case book_live d1 (p_booking row) Payment_paid (Amount (p_amount_minor row) (p_currency row)) of
             Inl e \<Rightarrow> Inl e
           | Inr (d2, Some _) \<Rightarrow> Inr d2
           | Inr (d2, None) \<Rightarrow> Inr (settle_job d2 (p_booking row) (Late_payment (p_id row)))))"

definition checked_in :: "db \<Rightarrow> payment \<Rightarrow> intent_state \<Rightarrow> db result" where
  "checked_in d row st =
     (let by_setup = (is_type st = Setup_intent) in
      case MARK_CHECKED d (p_id row) by_setup of
        Inl e \<Rightarrow> Inl e
      | Inr (d1, _) \<Rightarrow>
          let d2 = (if by_setup then d1 else settle_job d1 (p_booking row) Check_landed) in
          (case book_live d2 (p_booking row) Payment_checked
                  (Amount (p_amount_minor row) (p_currency row)) of
             Inl e \<Rightarrow> Inl e
           | Inr (d3, _) \<Rightarrow> Inr d3))"

text \<open>The transaction of \<open>reconcile\<close>, on the row it read and what Stripe said since.\<close>

definition reconcile_write :: "payment \<Rightarrow> intent_state \<Rightarrow> db \<Rightarrow> (db \<times> unit) result" where
  "reconcile_write row st d =
     (case LOCK_PAYMENT d (p_id row) of
        None \<Rightarrow> Inl (Uncaught ''NoResultFound'')
      | Some current \<Rightarrow>
          (case (case is_stripe_fee st of
                   None \<Rightarrow> Inr d
                 | Some fee \<Rightarrow> map_sum id fst (FILL_FEE d (p_id row) fee)) of
             Inl e \<Rightarrow> Inl e
           | Inr d1 \<Rightarrow>
               if current \<noteq> Open \<or> \<not> matches st row then Inr (d1, ())
               else if landed st (p_kind row)
               then map_sum id (\<lambda>d2. (d2, ()))
                 (if p_kind row = Check then checked_in d1 row st else paid_in d1 row)
               else if is_status st = ''canceled''
               then map_sum id (\<lambda>(d2, _). (d2, ())) (MARK_CANCELED d1 (p_id row))
               else Inr (d1, ())))"

definition reconcile :: "'s gateway \<Rightarrow> string \<Rightarrow> ('s, intent_state option) program" where
  "reconcile gw intent_id = read_db (\<lambda>d.
     case READ_PAYMENT d intent_id of
       None \<Rightarrow> give None
     | Some row \<Rightarrow> ask (retrieve_intent gw (account_of d) intent_id) (\<lambda>st.
         and_then (transaction (reconcile_write row st)) (\<lambda>_. give (Some st))))"

section \<open>Settling\<close>

definition UNSETTLED :: "db \<Rightarrow> (uuid \<times> status) list" where
  "UNSETTLED d = remdups [(b_id b, b_status b). p \<leftarrow> payments d, b \<leftarrow> bookings d,
     b_id b = p_booking p, p_settled_at p = None,
     p_status p = Open \<and> \<not> (b_status b = Awaiting_payment \<and> unexpired d b) \<or>
     p_status p = Checked \<or> p_status p = Paid \<and> b_status b \<in> set REFUNDING]"

text \<open>\<open>hour()\<close>: the sweep's generation, from the process's clock.\<close>

definition hour_of :: "instant \<Rightarrow> int" where
  "hour_of clock = clock div hour_us"

definition enqueue_unsettled :: "instant \<Rightarrow> db \<Rightarrow> db" where
  "enqueue_unsettled clock d =
     fold (\<lambda>(i, st) d. settle_job d i (Hourly st (hour_of clock))) (UNSETTLED d) d"

definition UNSETTLED_OF :: "db \<Rightarrow> uuid list \<Rightarrow> uuid list" where
  "UNSETTLED_OF d ids = remdups (map p_booking
     (filter (\<lambda>p. p_booking p \<in> set ids \<and> p_settled_at p = None) (payments d)))"

definition settle_ended :: "uuid list \<Rightarrow> db \<Rightarrow> db" where
  "settle_ended ids d = fold (\<lambda>i d. settle_job d i Erased_client) (UNSETTLED_OF d ids) d"

text \<open>\<open>SETTLE_ROWS\<close>: a payment not yet settled, with what its booking's end says of its money.\<close>

record settle_row =
  sr_payment :: payment
  sr_live :: bool
  sr_booking_status :: status
  sr_ending :: status
  sr_client_pct :: "int option"
  sr_was_booked :: bool
  sr_reapplied :: bool
  sr_reapplied_at :: "instant option"
  sr_account :: string

definition events_of :: "db \<Rightarrow> uuid \<Rightarrow> event list" where
  "events_of d i = filter (\<lambda>e. e_booking e = i) (events d)"

fun refund_pct_in :: "details option \<Rightarrow> int option" where
  "refund_pct_in (Some (Refund_pct pct)) = Some pct"
| "refund_pct_in _ = None"

fun reapplied_in :: "details option \<Rightarrow> bool" where
  "reapplied_in (Some (Erasure why _)) = (why = Erasure_reapplied)"
| "reapplied_in _ = False"

fun erased_at_in :: "details option \<Rightarrow> instant option" where
  "erased_at_in (Some (Erasure _ at)) = at"
| "erased_at_in _ = None"

text \<open>\<open>ORDER BY e.id DESC LIMIT 1\<close>: events are appended with growing ids.\<close>

definition last_event :: "(event \<Rightarrow> bool) \<Rightarrow> event list \<Rightarrow> event option" where
  "last_event P es = first_row (rev (filter P es))"

definition client_pct :: "db \<Rightarrow> uuid \<Rightarrow> int option" where
  "client_pct d i = (case last_event (\<lambda>e. e_kind e = Became Cancelled_by_client) (events_of d i) of
     None \<Rightarrow> None | Some e \<Rightarrow> refund_pct_in (ea_details (e_args e)))"

definition settle_row_of :: "db \<Rightarrow> payment \<Rightarrow> booking \<Rightarrow> settle_row" where
  "settle_row_of d p b =
     (let reapplied = (\<lambda>e. reapplied_in (ea_details (e_args e))); es = events_of d (p_booking p) in
      \<lparr>sr_payment = p,
       sr_live = (b_status b = Awaiting_payment \<and> unexpired d b),
       sr_booking_status = b_status b,
       sr_ending = (if b_status b = Awaiting_payment \<and> lapsed d b then Expired else b_status b),
       sr_client_pct = client_pct d (p_booking p),
       sr_was_booked = list_ex (\<lambda>e. e_kind e = Payment_paid) es,
       sr_reapplied = list_ex reapplied es,
       sr_reapplied_at = (case last_event reapplied es of
          None \<Rightarrow> None | Some e \<Rightarrow> erased_at_in (ea_details (e_args e))),
       sr_account = account_of d\<rparr>)"

definition SETTLE_ROWS :: "db \<Rightarrow> uuid \<Rightarrow> settle_row list" where
  "SETTLE_ROWS d i = [settle_row_of d p b. p \<leftarrow> payments d, b \<leftarrow> bookings d,
     b_id b = p_booking p, p_booking p = i, p_settled_at p = None]"

section \<open>Refunds\<close>

text \<open>One event per failed refund; a refused create has no id, and never finds itself told.\<close>

definition TELL_REFUND_FAILED ::
  "db \<Rightarrow> uuid \<Rightarrow> string option \<Rightarrow> int \<Rightarrow> db \<times> uuid option" where
  "TELL_REFUND_FAILED d booking refund_id amount =
     (let told = (\<lambda>e. e_kind e = Refund_failed \<and> refund_id \<noteq> None \<and>
            (\<exists>a \<in> set_option (ea_details (e_args e)).
               case a of Failed_refund _ r \<Rightarrow> r = refund_id | _ \<Rightarrow> False))
      in if list_ex told (events_of d booking) then (d, None)
         else (record_event d booking Refund_failed (Failed_refund amount refund_id), Some (next_id d)))"

definition mail_refund_failed :: "db \<Rightarrow> uuid \<Rightarrow> uuid \<Rightarrow> db" where
  "mail_refund_failed d booking event_id =
     (if ERASED_CLIENT d booking
      then fst (email d booking ''booking_refund_failed'' None (Of_event event_id)
             [Failed_event event_id] False)
      else d)"

text \<open>The percentage the ending owes; None when the client's cancel recorded none.\<close>

definition owed_pct :: "settle_row \<Rightarrow> int option" where
  "owed_pct row = (if sr_ending row = Cancelled_by_client then sr_client_pct row else Some 100)"

text \<open>A booking a re-applied erasure ended, charged before that erasure, is paid no more.\<close>

definition held_back :: "settle_row \<Rightarrow> int \<Rightarrow> intent_state \<Rightarrow> bool" where
  "held_back row due st \<longleftrightarrow> sr_reapplied row \<and> is_amount_refunded st < due \<and>
     (case (sr_reapplied_at row, is_charged_at st) of
        (Some erased, Some charged) \<Rightarrow> charged < erased
      | _ \<Rightarrow> True)"

text \<open>\<open>refund_application_fee\<close>: sent only when there is one to decide about.\<close>

definition fee_back :: "settle_row \<Rightarrow> bool option" where
  "fee_back row = (if 0 < p_application_fee (sr_payment row)
     then Some (sr_ending row \<noteq> Cancelled_by_client) else None)"

text \<open>The transaction of \<open>_refund\<close>; True when this run wrote the record.\<close>

definition refund_write ::
  "settle_row \<Rightarrow> int \<Rightarrow> string option \<Rightarrow> intent_state \<Rightarrow> bool \<Rightarrow> bool \<Rightarrow> db \<Rightarrow> (db \<times> bool) result" where
  "refund_write row due refund_id st held refused d =
     (let p = sr_payment row; i = p_booking p in
      case REFUNDED d (p_id p) due refund_id (is_stripe_fee st) of
        Inl e \<Rightarrow> Inl e
      | Inr (d1, []) \<Rightarrow> Inr (d1, False)
      | Inr (d1, _ # _) \<Rightarrow>
          (case (if sr_booking_status row = Awaiting_payment then map_sum id fst (EXPIRE_ONE d1 i)
                 else Inr d1) of
             Inl e \<Rightarrow> Inl e
           | Inr d2 \<Rightarrow>
               if held
               then map_sum id (\<lambda>(d3, _). (d3, True))
                 (SET_REFUND_FLAG d2 (p_intent p) (is_amount_refunded st))
               else if refused
               then (case SET_REFUND_FLAG d2 (p_intent p) (is_amount_refunded st) of
                       Inl e \<Rightarrow> Inl e
                     | Inr (d3, _) \<Rightarrow>
                         (case TELL_REFUND_FAILED d3 i None (due - is_amount_refunded st) of
                            (d4, None) \<Rightarrow> Inl (Uncaught ''NoResultFound'')
                          | (d4, Some told) \<Rightarrow> Inr (mail_refund_failed d4 i told, True)))
               else if 0 < due
               then let d3 = record_event d2 i Refunded (Amount due (p_currency p))
                    in Inr (if sr_ending row = Expired
                         then fst (email d3 i ''booking_expired'' None No_suffix
                                (if sr_was_booked row then [] else [Late]) False)
                         else d3, True)
               else Inr (d2, True)))"

definition refund_changed_write ::
  "string \<Rightarrow> refund_state \<Rightarrow> string \<Rightarrow> int \<Rightarrow> db \<Rightarrow> (db \<times> unit) result" where
  "refund_changed_write refund_id rf intent refunded d =
     (case READ_PAYMENT d intent of
        None \<Rightarrow> Inr (d, ())
      | Some p \<Rightarrow>
          (case (if rf_status rf = ''failed''
                 then
                   let (d1, told) = TELL_REFUND_FAILED d (p_booking p) (Some refund_id) (rf_amount rf)
                   in (case SET_REFUND_ID d1 intent refund_id of
                         Inl e \<Rightarrow> Inl e
                       | Inr (d2, _) \<Rightarrow> Inr (case told of
                            None \<Rightarrow> d2 | Some event_id \<Rightarrow> mail_refund_failed d2 (p_booking p) event_id))
                 else Inr d) of
             Inl e \<Rightarrow> Inl e
           | Inr d3 \<Rightarrow> map_sum id (\<lambda>(d4, _). (d4, ())) (SET_REFUND_FLAG d3 intent refunded)))"

definition refund_changed :: "'s gateway \<Rightarrow> string \<Rightarrow> ('s, unit) program" where
  "refund_changed gw refund_id = read_db (\<lambda>d.
     case payment_account d of
       None \<Rightarrow> give ()
     | Some a \<Rightarrow> ask (retrieve_refund gw (pa_account a) refund_id) (\<lambda>rf.
         case rf_payment_intent rf of
           None \<Rightarrow> give ()
         | Some intent \<Rightarrow> ask (retrieve_intent gw (pa_account a) intent) (\<lambda>st.
             transaction (refund_changed_write refund_id rf intent (is_amount_refunded st)))))"

text \<open>\<open>_refund\<close> after its decision: the record, then the refund's own news.\<close>

definition refund_record ::
  "'s gateway \<Rightarrow> settle_row \<Rightarrow> int \<Rightarrow> string option \<Rightarrow> intent_state \<Rightarrow> bool \<Rightarrow> bool \<Rightarrow> ('s, unit) program"
  where
  "refund_record gw row due refund_id st held refused =
     and_then (transaction (refund_write row due refund_id st held refused)) (\<lambda>done.
       case refund_id of
         Some r \<Rightarrow> if done \<and> \<not> held \<and> \<not> refused then refund_changed gw r else give ()
       | None \<Rightarrow> give ())"

definition refund_payment :: "'s gateway \<Rightarrow> settle_row \<Rightarrow> ('s, unit) program" where
  "refund_payment gw row =
     (let p = sr_payment row; account = sr_account row in
      ask (retrieve_intent gw account (p_intent p)) (\<lambda>st.
        case owed_pct row of
          None \<Rightarrow> fail RuntimeError
        | Some pct \<Rightarrow>
            (case refund_due (p_amount_minor p) pct (sr_ending row) (is_stripe_fee st) of
               None \<Rightarrow> fail RuntimeError
             | Some due \<Rightarrow>
                 let held = held_back row due st in
                 if is_amount_refunded st < due \<and> \<not> held
                 then asking (refund_intent gw account (p_intent p) (due - is_amount_refunded st)
                          (fee_back row) (Refund_key (p_id p))) (\<lambda>r.
                        case r of
                          Inr refund_id \<Rightarrow> refund_record gw row due (Some refund_id) st False False
                        | Inl Invalid \<Rightarrow> ask (retrieve_intent gw account (p_intent p)) (\<lambda>st'.
                            refund_record gw row due None st' False (is_amount_refunded st' < due))
                        | Inl _ \<Rightarrow> fail FAILED)
                 else refund_record gw row due None st held False)))"

text \<open>\<open>_write\<close>: one qualified statement in its own transaction.\<close>

definition write_settled :: "(db \<Rightarrow> (db \<times> payment list) result) \<Rightarrow> ('s, unit) program" where
  "write_settled statement = transaction (\<lambda>d. map_sum id (\<lambda>(d', _). (d', ())) (statement d))"

text \<open>One row of \<open>_settle_pass\<close>; True when a reconcile ran.\<close>

definition settle_one :: "'s gateway \<Rightarrow> bool \<Rightarrow> settle_row \<Rightarrow> ('s, bool) program" where
  "settle_one gw final row =
     (let p = sr_payment row in
      if p_status p = Open \<and> \<not> sr_live row
      then ask (cancel_intent gw (sr_account row) (p_intent p)) (\<lambda>st.
        if st = ''canceled''
        then and_then (write_settled (\<lambda>d. MARK_CANCELED d (p_id p))) (\<lambda>_. give False)
        else if final then fail RuntimeError
        else and_then (reconcile gw (p_intent p)) (\<lambda>_. give True))
      else if p_status p = Checked \<and> prefixed ''pi_'' (p_intent p)
      then ask (cancel_intent gw (sr_account row) (p_intent p)) (\<lambda>st.
        if st \<noteq> ''canceled'' then fail RuntimeError
        else and_then (write_settled (\<lambda>d. RELEASED d (p_id p))) (\<lambda>_. give False))
      else if p_status p = Paid \<and> sr_ending row \<in> set REFUNDING
      then and_then (refund_payment gw row) (\<lambda>_. give False)
      else give False)"

fun settle_each :: "'s gateway \<Rightarrow> bool \<Rightarrow> settle_row list \<Rightarrow> ('s, bool) program" where
  "settle_each gw final [] = give False"
| "settle_each gw final (row # rows) =
     and_then (settle_one gw final row) (\<lambda>again.
       and_then (settle_each gw final rows) (\<lambda>more. give (again \<or> more)))"

definition settle_pass :: "'s gateway \<Rightarrow> bool \<Rightarrow> uuid \<Rightarrow> ('s, bool) program" where
  "settle_pass gw final i = read_db (\<lambda>d. settle_each gw final (SETTLE_ROWS d i))"

text \<open>\<open>settle\<close>; \<open>ready\<close> is \<open>secret_ready()\<close>.\<close>

definition settle :: "'s gateway \<Rightarrow> bool \<Rightarrow> uuid \<Rightarrow> ('s, unit) program" where
  "settle gw ready i =
     (if \<not> ready then fail RuntimeError
      else and_then (settle_pass gw False i) (\<lambda>again.
        if again then and_then (settle_pass gw True i) (\<lambda>_. give ()) else give ()))"

section \<open>Starting a payment\<close>

record payment_start =
  ps_client_secret :: string
  ps_type :: intent_type
  ps_expires_at :: "instant option"

definition busy :: api_error where "busy = ApiError 503 ''busy''"

text \<open>
  \<open>_create\<close>: the intent with the fee policy it was made under, read before Stripe is called. A check
  is an authorisation (\<open>CHECK_WITH\<close>).
\<close>

definition create_intent ::
  "'s gateway \<Rightarrow> payment_kind \<Rightarrow> string \<Rightarrow> booking \<Rightarrow> nat \<Rightarrow> ('s, intent \<times> int \<times> fee_mode) program" where
  "create_intent gw kind account b n = read_db (\<lambda>d.
     let key = Intent_key (b_id b) n kind;
         mode = (case payment_account d of None \<Rightarrow> Business_pays | Some a \<Rightarrow> pa_fee_mode a);
         fee = (case payment_account d of None \<Rightarrow> 0 | Some a \<Rightarrow>
           application_fee mode (pa_fee_bp a) (pa_fee_fixed a) (b_price_minor b))
     in if kind = Check
        then ask (create_check gw account (b_id b) (b_price_minor b) (b_price_currency b) key)
               (\<lambda>made. give (made, 0, mode))
        else ask (create_payment gw account (b_id b) (b_price_minor b) (b_price_currency b) fee key)
               (\<lambda>made. give (made, fee, mode)))"

definition started :: "intent \<Rightarrow> instant option \<Rightarrow> payment_start" where
  "started made expires =
     \<lparr>ps_client_secret = in_client_secret made, ps_type = in_type made, ps_expires_at = expires\<rparr>"

definition insert_row ::
  "booking \<Rightarrow> string \<Rightarrow> payment_kind \<Rightarrow> int \<Rightarrow> fee_mode \<Rightarrow> db \<Rightarrow> (db \<times> unit) result" where
  "insert_row b intent_id kind fee mode d =
     (case INSERT_PAYMENT d (b_id b) kind intent_id (b_price_minor b) (b_price_currency b) mode fee of
        Inl e \<Rightarrow> Inl e
      | Inr (d', stored) \<Rightarrow> if stored then Inr (d', ()) else Inl (Uncaught ''LookupError''))"

text \<open>\<open>_give_back\<close>: the hold ends now; if this fails too, its deadline ends it.\<close>

definition give_back_hold :: "uuid \<Rightarrow> ('s, unit) program" where
  "give_back_hold i = best_effort (transaction (\<lambda>d. map_sum id (\<lambda>(d', _). (d', ())) (EXPIRE_ONE d i)))"

definition start_payment ::
  "'s gateway \<Rightarrow> string \<Rightarrow> booking \<Rightarrow> payment_kind \<Rightarrow> ('s, payment_start) program" where
  "start_payment gw account b kind =
     attempt (create_intent gw kind account b 1) (\<lambda>r. case r of
        Inl e \<Rightarrow> and_then (give_back_hold (b_id b)) (\<lambda>_. fail (ApiError 503 ''payments_unavailable''))
      | Inr (made, fee, mode) \<Rightarrow>
          attempt (transaction (insert_row b (in_id made) kind fee mode)) (\<lambda>q. case q of
             Inl e \<Rightarrow> and_then (give_back_hold (b_id b)) (\<lambda>_. fail busy)
           | Inr _ \<Rightarrow> give (started made (b_expires_at b))))"

section \<open>The browser that placed the booking\<close>

text \<open>
  \<open>_placed_by\<close>: the request's secret hashes to the one the booking keeps. \<open>secret_ok\<close> is that
  comparison; a booking without a hash is nobody's. \<open>n\<close> counts the booking's payments.
\<close>

definition placed_by :: "(uuid \<Rightarrow> bool) \<Rightarrow> booking \<Rightarrow> bool" where
  "placed_by secret_ok b \<longleftrightarrow> b_checkout b \<and> secret_ok (b_id b)"

text \<open>\<open>LIVE_PAYMENT\<close>: the booking's live payment, else its newest, and how many it has.\<close>

definition LIVE_PAYMENT :: "db \<Rightarrow> uuid \<Rightarrow> (payment \<times> nat) option" where
  "LIVE_PAYMENT d i =
     (let ps = filter (\<lambda>p. p_booking p = i) (payments d)
      in map_option (\<lambda>p. (p, length ps))
           (first_row (rev (filter (\<lambda>p. p_status p \<noteq> Canceled) ps) @
                       rev (filter (\<lambda>p. p_status p = Canceled) ps))))"

definition LIVE_BOOKING :: "db \<Rightarrow> booking \<Rightarrow> bool" where
  "LIVE_BOOKING d b \<longleftrightarrow> b_status b = Awaiting_payment \<and> unexpired d b"

text \<open>\<open>CHECKOUT\<close> and \<open>_checkout\<close>: a hold that ran out reads as expired.\<close>

definition CHECKOUT :: "db \<Rightarrow> uuid \<Rightarrow> booking option" where
  "CHECKOUT d i = first_row (filter (\<lambda>b. b_id b = i \<and> b_source b = Booking_page) (bookings d))"

definition checkout ::
  "(uuid \<Rightarrow> bool) \<Rightarrow> db \<Rightarrow> uuid \<Rightarrow> (booking \<times> (payment \<times> nat) option) option" where
  "checkout secret_ok d i =
     (case CHECKOUT d i of
        None \<Rightarrow> None
      | Some b \<Rightarrow> if placed_by secret_ok b then Some (b, LIVE_PAYMENT d i) else None)"

definition checkout_status :: "db \<Rightarrow> booking \<Rightarrow> status" where
  "checkout_status d b = (if b_status b = Awaiting_payment \<and> lapsed d b then Expired else b_status b)"

text \<open>\<open>_enter\<close>: the limit first; \<open>show\<close> writes a booking's id.\<close>

definition PAYMENT_LIMIT :: int where "PAYMENT_LIMIT = 60"
definition PAYMENT_TOTAL_LIMIT :: int where "PAYMENT_TOTAL_LIMIT = 600"
definition PAYMENT_WINDOW :: int where "PAYMENT_WINDOW = hour_us"

definition payment_over ::
  "(uuid \<Rightarrow> string) \<Rightarrow> instant \<Rightarrow> (string \<times> bucket \<Rightarrow> bool) \<Rightarrow> uuid \<Rightarrow> ip option \<Rightarrow>
   (string \<times> bucket) table \<Rightarrow> ((string \<times> bucket) table \<times> bool) result" where
  "payment_over show_id clock purged booking host =
     hit clock purged [(ip_key (''booking_payment:'' @ show_id booking) host, PAYMENT_LIMIT),
       (ip_key ''booking_payment'' host, PAYMENT_TOTAL_LIMIT)] PAYMENT_WINDOW"

definition payment_enter ::
  "(uuid \<Rightarrow> string) \<Rightarrow> instant \<Rightarrow> (string \<times> bucket \<Rightarrow> bool) \<Rightarrow> uuid \<Rightarrow> ip option \<Rightarrow> ('s, 'a) program \<Rightarrow>
   (string \<times> bucket) table \<Rightarrow> (string \<times> bucket) table \<times> ('s, 'a) program" where
  "payment_enter show_id clock purged booking host handler t =
     (case payment_over show_id clock purged booking host t of
        Inl e \<Rightarrow> (t, fail e)
      | Inr (t', over) \<Rightarrow> (t', if over then fail (ApiError 429 ''rate_limited'') else handler))"

definition not_found :: api_error where "not_found = ApiError 404 ''not_found''"
definition payment_settled :: api_error where "payment_settled = ApiError 409 ''payment_settled''"

text \<open>What the page sees of a payment: the row's status, or that Stripe is still at it.\<close>

datatype shown_state = Stored payment_status | Processing

record sync_out =
  so_booking :: booking
  so_status :: status
  so_kind :: payment_kind
  so_state :: shown_state
  so_failed :: bool

definition sync_answer :: "db \<Rightarrow> booking \<Rightarrow> payment \<Rightarrow> intent_state option \<Rightarrow> sync_out" where
  "sync_answer d b p st =
     \<lparr>so_booking = b, so_status = checkout_status d b, so_kind = p_kind p,
      so_state = (case st of
         Some s \<Rightarrow> if p_status p = Open \<and> is_status s = ''processing'' then Processing
           else Stored (p_status p)
       | None \<Rightarrow> Stored (p_status p)),
      so_failed = (p_status p = Open \<and> (case st of None \<Rightarrow> False | Some s \<Rightarrow> is_failed s))\<rparr>"

definition sync_payment :: "'s gateway \<Rightarrow> (uuid \<Rightarrow> bool) \<Rightarrow> uuid \<Rightarrow> ('s, sync_out) program" where
  "sync_payment gw secret_ok i = read_db (\<lambda>d.
     case checkout secret_ok d i of
       Some (b, Some (p, _)) \<Rightarrow>
         if p_status p \<noteq> Open then give (sync_answer d b p None)
         else and_then (or_unavailable (reconcile gw (p_intent p))) (\<lambda>st. read_db (\<lambda>d'.
           case checkout secret_ok d' i of
             Some (b', Some (p', _)) \<Rightarrow> give (sync_answer d' b' p' st)
           | _ \<Rightarrow> fail (Uncaught ''AssertionError'')))
     | _ \<Rightarrow> fail not_found)"

text \<open>\<open>_orphan\<close>: nobody can see this intent.\<close>

definition orphan :: "'s gateway \<Rightarrow> string \<Rightarrow> string \<Rightarrow> ('s, unit) program" where
  "orphan gw account intent_id = asking (cancel_intent gw account intent_id) (\<lambda>_. give ())"

section \<open>resume\<close>

text \<open>
  Before a new intent is made: None to go on, or the open intent's own secret. Finished or under way
  at Stripe, the payment is settled instead.
\<close>

definition look_again :: "'s gateway \<Rightarrow> string \<Rightarrow> ('s, 'a) program" where
  "look_again gw intent_id = and_then (reconcile gw intent_id) (\<lambda>_. fail payment_settled)"

definition resume_open ::
  "'s gateway \<Rightarrow> string \<Rightarrow> booking \<Rightarrow> payment \<Rightarrow> bool \<Rightarrow> ('s, payment_start option) program" where
  "resume_open gw account b p switching =
     ask (retrieve_intent gw account (p_intent p)) (\<lambda>st.
       if landed st (p_kind p) then look_again gw (p_intent p)
       else if is_status st = ''canceled'' then give None
       else if switching
       then ask (cancel_intent gw account (p_intent p)) (\<lambda>s.
         if s \<noteq> ''canceled'' then look_again gw (p_intent p) else give None)
       else give (Some \<lparr>ps_client_secret = is_client_secret st, ps_type = is_type st,
              ps_expires_at = b_expires_at b\<rparr>))"

text \<open>The second transaction: True when the hold has ended meanwhile.\<close>

definition resume_write ::
  "booking \<Rightarrow> payment \<Rightarrow> payment_kind \<Rightarrow> string \<Rightarrow> int \<Rightarrow> fee_mode \<Rightarrow> db \<Rightarrow> (db \<times> bool) result" where
  "resume_write b p kind intent_id fee mode d =
     (if \<not> list_ex (\<lambda>x. b_id x = b_id b \<and> LIVE_BOOKING d x) (bookings d) then Inr (d, True)
      else case MARK_CANCELED d (p_id p) of
        Inl e \<Rightarrow> Inl e
      | Inr (d1, _) \<Rightarrow>
          (case INSERT_PAYMENT d1 (b_id b) kind intent_id (b_price_minor b) (b_price_currency b) mode fee of
             Inl e \<Rightarrow> Inl e
           | Inr (d2, _) \<Rightarrow> Inr (d2, False)))"

text \<open>A concurrent resume or switch got its row in first.\<close>

definition resume_beaten ::
  "'s gateway \<Rightarrow> (uuid \<Rightarrow> bool) \<Rightarrow> string \<Rightarrow> booking \<Rightarrow> payment_kind \<Rightarrow> bool \<Rightarrow> intent \<Rightarrow>
   ('s, payment_start) program" where
  "resume_beaten gw secret_ok account b kind switching made = read_db (\<lambda>d.
     let alive = Option.bind (checkout secret_ok d (b_id b)) snd in
     case alive of
       Some (q, _) \<Rightarrow>
         if p_intent q = in_id made
         then and_then (or_unavailable (ask (retrieve_intent gw account (in_id made))
                  (\<lambda>st. give (landed st kind)))) (\<lambda>done.
                if p_status q \<noteq> Open \<or> done then look_again gw (in_id made)
                else give (started made (b_expires_at b)))
         else and_then (orphan gw account (in_id made)) (\<lambda>_.
                if switching \<or> p_status q \<in> {Checked, Paid} then fail payment_settled else fail busy)
     | None \<Rightarrow> and_then (orphan gw account (in_id made)) (\<lambda>_. fail payment_settled))"

definition resume_payment ::
  "'s gateway \<Rightarrow> bool \<Rightarrow> (uuid \<Rightarrow> bool) \<Rightarrow> bool \<Rightarrow> uuid \<Rightarrow> payment_kind \<Rightarrow> ('s, payment_start) program" where
  "resume_payment gw configured secret_ok contended i kind = read_db (\<lambda>d.
     case checkout secret_ok d i of
       Some (b, Some (p, n)) \<Rightarrow>
         let account = account_of d; switching = (kind \<noteq> p_kind p) in
         if p_status p \<in> {Checked, Paid} then fail payment_settled
         else if \<not> LIVE_BOOKING d b then fail not_found
         else if switching \<and>
           offer configured d (settings_of d) (b_price_minor b) (b_price_currency b) = None
         then fail (ApiError 422 ''payment_not_offered'')
         else and_then (or_unavailable (and_then
             (if p_status p = Open then resume_open gw account b p switching else give None) (\<lambda>r.
               case r of
                 Some out \<Rightarrow> give (Inl out)
               | None \<Rightarrow> and_then (create_intent gw kind account b (n + 1)) (\<lambda>x. give (Inr x))))) (\<lambda>r.
           case r of
             Inl out \<Rightarrow> give out
           | Inr (made, fee, mode) \<Rightarrow>
               if contended then fail busy
               else attempt (transaction (resume_write b p kind (in_id made) fee mode)) (\<lambda>q. case q of
                   Inl _ \<Rightarrow> resume_beaten gw secret_ok account b kind switching made
                 | Inr gone \<Rightarrow>
                     if gone then and_then (orphan gw account (in_id made)) (\<lambda>_. fail not_found)
                     else give (started made (b_expires_at b))))
     | _ \<Rightarrow> fail not_found)"

section \<open>abandon\<close>

definition abandon_write :: "uuid \<Rightarrow> payment option \<Rightarrow> db \<Rightarrow> (db \<times> unit) result" where
  "abandon_write i p d =
     (case EXPIRE_ONE d i of
        Inl e \<Rightarrow> Inl e
      | Inr (d1, 0) \<Rightarrow> Inl payment_settled
      | Inr (d1, Suc _) \<Rightarrow>
          (case p of
             None \<Rightarrow> Inr (d1, ())
           | Some q \<Rightarrow> map_sum id (\<lambda>(d2, _). (d2, ())) (MARK_CANCELED d1 (p_id q))))"

definition abandon_payment :: "'s gateway \<Rightarrow> (uuid \<Rightarrow> bool) \<Rightarrow> uuid \<Rightarrow> ('s, unit) program" where
  "abandon_payment gw secret_ok i = read_db (\<lambda>d.
     case checkout secret_ok d i of
       None \<Rightarrow> fail not_found
     | Some (b, pn) \<Rightarrow>
         if \<not> LIVE_BOOKING d b then fail not_found
         else
           let p = map_option fst pn in
           and_then (or_unavailable (case p of
               Some q \<Rightarrow>
                 if p_status q = Open
                 then ask (cancel_intent gw (account_of d) (p_intent q)) (\<lambda>s.
                   if s \<noteq> ''canceled'' then look_again gw (p_intent q) else give ())
                 else give ()
             | None \<Rightarrow> give ()))
             (\<lambda>_. transaction (abandon_write i p)))"

section \<open>The business's account\<close>

definition refresh_account :: "'s gateway \<Rightarrow> ('s, unit) program" where
  "refresh_account gw = read_db (\<lambda>d.
     case payment_account d of
       None \<Rightarrow> give ()
     | Some a \<Rightarrow> ask (retrieve_account gw (pa_account a)) (\<lambda>sa. transaction (\<lambda>d.
         Inr (d\<lparr>payment_account := map_option (\<lambda>a. if pa_account a = sa_id sa
                then a\<lparr>pa_enabled := sa_charges_enabled sa\<rparr> else a) (payment_account d)\<rparr>, ()))))"

definition STRIPE_CURRENCIES :: "(string \<times> string list) list" where
  "STRIPE_CURRENCIES = [(''NL'', [''EUR'']), (''PT'', [''EUR'']), (''BR'', []), (''GB'', [''GBP'']),
     (''US'', [''USD''])]"

definition settled_in :: "string \<Rightarrow> string list" where
  "settled_in country = (case map_of STRIPE_CURRENCIES country of None \<Rightarrow> [] | Some cs \<Rightarrow> cs)"

datatype account_state = Off | Unconnected | Onboarding | Ready

record account_out =
  ao_state :: account_state
  ao_country_supported :: bool
  ao_currency_supported :: bool
  ao_min_amount_minor :: "int option"
  ao_currency :: string

definition account_answer :: "db \<Rightarrow> account_state \<Rightarrow> account_out" where
  "account_answer d state =
     \<lparr>ao_state = state, ao_country_supported = (settled_in (tenant_country d) \<noteq> []),
      ao_currency_supported = (tenant_currency d \<in> set (settled_in (tenant_country d))),
      ao_min_amount_minor = map_of MIN_CHARGE (tenant_currency d), ao_currency = tenant_currency d\<rparr>"

text \<open>A read answers from the row when Stripe is limited or fails.\<close>

definition read_account :: "'s gateway \<Rightarrow> bool \<Rightarrow> bool \<Rightarrow> ('s, account_out) program" where
  "read_account gw configured limited = read_db (\<lambda>d.
     let out = (\<lambda>enabled. give (account_answer d (if enabled then Ready else Onboarding))) in
     if \<not> configured then give (account_answer d Off)
     else case payment_account d of
       None \<Rightarrow> give (account_answer d Unconnected)
     | Some a \<Rightarrow>
         if pa_enabled a \<or> limited then out (pa_enabled a)
         else asking (retrieve_account gw (pa_account a)) (\<lambda>r.
           case r of
             Inl _ \<Rightarrow> out False
           | Inr sa \<Rightarrow>
               if sa_charges_enabled sa
               then and_then (transaction (\<lambda>d. Inr (d\<lparr>payment_account := map_option (\<lambda>x.
                      if pa_account x = pa_account a then x\<lparr>pa_enabled := True\<rparr> else x)
                      (payment_account d)\<rparr>, ()))) (\<lambda>_. out True)
               else out False))"

text \<open>
  \<open>connect\<close>: the row is written with the currency the account was made in; the business's may have
  changed since. The stored account is onboarded, never an unused one.
\<close>

definition ACCOUNT_CURRENCY :: string where
  "ACCOUNT_CURRENCY = ''fk_payment_accounts_tenant_id_currency_tenants''"

definition connect_write ::
  "uuid \<Rightarrow> string \<Rightarrow> string \<Rightarrow> db \<Rightarrow> (db \<times> string) result" where
  "connect_write user account currency d =
     (case payment_account d of
        Some a \<Rightarrow> Inr (d, pa_account a)
      | None \<Rightarrow>
          if currency \<noteq> tenant_currency d then Inl (Uncaught ACCOUNT_CURRENCY)
          else Inr (record_audit (d\<lparr>payment_account := Some \<lparr>pa_account = account, pa_enabled = False,
                 pa_fee_mode = Business_pays, pa_fee_bp = 0, pa_fee_fixed = 0, pa_currency = currency\<rparr>\<rparr>)
                 ''payment_account_created'' user (Some (Payment_account account)), account))"

definition connect_account ::
  "'s gateway \<Rightarrow> bool \<Rightarrow> bool \<Rightarrow> string \<Rightarrow> string \<Rightarrow> signed_in \<Rightarrow> ('s, string) program" where
  "connect_account gw configured limited host url current = read_db (\<lambda>d.
     if \<not> is_owner current then fail (ApiError 403 ''owner_only'')
     else if \<not> configured then fail (ApiError 503 ''payments_unavailable'')
     else if settled_in (tenant_country d) = [] then fail (ApiError 409 ''payments_unavailable_country'')
     else if payment_account d = None \<and> tenant_currency d \<notin> set (settled_in (tenant_country d))
     then fail (ApiError 409 ''payments_unavailable_currency'')
     else if limited then fail (ApiError 429 ''rate_limited'')
     else or_unavailable (and_then
       (case payment_account d of
          Some a \<Rightarrow> give (pa_account a)
        | None \<Rightarrow> ask (create_account gw (Account_key (tenant d) (tenant_currency d)) (tenant_country d)
              (tenant_currency d) False) (\<lambda>made.
            attempt (transaction (connect_write (user_id current) (sa_id made) (tenant_currency d))) (\<lambda>r.
              case r of
                Inl e \<Rightarrow> fail (if e = Uncaught ACCOUNT_CURRENCY
                   then ApiError 409 ''currency_changed'' else e)
              | Inr account \<Rightarrow> give account)))
       (\<lambda>account. asking (register_domain gw account host) (\<lambda>_.
          ask (onboarding_link gw account url) give))))"

definition dashboard :: "'s gateway \<Rightarrow> bool \<Rightarrow> bool \<Rightarrow> signed_in \<Rightarrow> ('s, string) program" where
  "dashboard gw configured limited current = read_db (\<lambda>d.
     if \<not> is_owner current then fail (ApiError 403 ''owner_only'')
     else if \<not> configured then fail (ApiError 503 ''payments_unavailable'')
     else case payment_account d of
       None \<Rightarrow> fail (ApiError 409 ''payments_not_connected'')
     | Some a \<Rightarrow>
         if limited then fail (ApiError 429 ''rate_limited'')
         else or_unavailable (ask (login_link gw (pa_account a)) give))"

section \<open>Stripe's events\<close>

definition INTENT_EVENTS :: "string list" where
  "INTENT_EVENTS = [''payment_intent.amount_capturable_updated'', ''payment_intent.succeeded'',
     ''payment_intent.processing'', ''payment_intent.payment_failed'', ''payment_intent.canceled'',
     ''setup_intent.succeeded'', ''setup_intent.setup_failed'']"

definition REFUND_EVENTS :: "string list" where
  "REFUND_EVENTS = [''charge.refund.updated'', ''refund.updated'', ''refund.created'', ''refund.failed'']"

definition HANDLED :: "string list" where
  "HANDLED = ''account.updated'' # INTENT_EVENTS @ REFUND_EVENTS"

datatype accepted = Ignored | Enqueued | Duplicate

text \<open>\<open>_accept\<close>, with \<open>stripe_account_tenant\<close> as \<open>whose\<close>, over the businesses' databases.\<close>

definition accept_event ::
  "(string \<Rightarrow> uuid option) \<Rightarrow> stripe_event \<Rightarrow> (uuid \<Rightarrow> db) \<Rightarrow> (uuid \<Rightarrow> db) \<times> accepted" where
  "accept_event whose ev business =
     (case Option.bind (sv_account ev) whose of
        None \<Rightarrow> (business, Ignored)
      | Some ten \<Rightarrow>
          if sv_type ev \<notin> set HANDLED then (business, Ignored)
          else (case enqueue (business ten) Stripe_event (Stripe_key (sv_id ev))
                       [Event_type (sv_type ev), Object_id (sv_object_id ev)] None of
                  (d, added) \<Rightarrow> (business(ten := d), if added then Enqueued else Duplicate)))"

definition webhook ::
  "bool \<Rightarrow> (string \<Rightarrow> uuid option) \<Rightarrow> stripe_event option \<Rightarrow> (uuid \<Rightarrow> db) \<Rightarrow> (uuid \<Rightarrow> db) \<times> accepted result" where
  "webhook configured whose signed business =
     (if \<not> configured then (business, Inl (ApiError 503 ''payments_unavailable''))
      else case signed of
        None \<Rightarrow> (business, Inl (ApiError 400 ''bad_signature''))
      | Some ev \<Rightarrow> (case accept_event whose ev business of (b', r) \<Rightarrow> (b', Inr r)))"

definition handle_event :: "'s gateway \<Rightarrow> bool \<Rightarrow> string \<Rightarrow> string option \<Rightarrow> ('s, unit) program" where
  "handle_event gw ready kind object_id =
     (if \<not> ready then fail RuntimeError
      else if kind = ''account.updated'' then refresh_account gw
      else case object_id of
        None \<Rightarrow> give ()
      | Some i \<Rightarrow>
          if kind \<in> set INTENT_EVENTS then and_then (reconcile gw i) (\<lambda>_. give ())
          else if kind \<in> set REFUND_EVENTS then refund_changed gw i
          else give ())"

text \<open>
  \<open>bookings.sweep\<close> of one business: lapsed holds end, then the money still owed is asked for again,
  and the old table of unproven addresses is emptied.
\<close>

definition SWEEP_HOLDS :: "db \<Rightarrow> db" where
  "SWEEP_HOLDS d = d\<lparr>booking_holds :=
     filter (\<lambda>(_, created). \<not> created \<le> now d - 24 * hour_us) (booking_holds d)\<rparr>"

definition sweep_business :: "instant \<Rightarrow> db \<Rightarrow> (db \<times> nat) result" where
  "sweep_business clock d =
     (case EXPIRE d of
        Inl e \<Rightarrow> Inl e
      | Inr (d1, n) \<Rightarrow> Inr (SWEEP_HOLDS (enqueue_unsettled clock d1), n))"

text \<open>
  Every business in turn, each in its own transaction: one that fails holds back no other, and the
  sweep raises only once all have had their turn.
\<close>

fun sweep_each ::
  "instant \<Rightarrow> uuid list \<Rightarrow> (uuid \<Rightarrow> db) \<Rightarrow> (uuid \<Rightarrow> db) \<times> nat \<times> nat" where
  "sweep_each clock [] business = (business, 0, 0)"
| "sweep_each clock (t # ts) business =
     (case sweep_business clock (business t) of
        Inl _ \<Rightarrow> (case sweep_each clock ts business of (b', n, failed) \<Rightarrow> (b', n, Suc failed))
      | Inr (d, k) \<Rightarrow>
          (case sweep_each clock ts (business(t := d)) of (b', n, failed) \<Rightarrow> (b', k + n, failed)))"

definition sweep ::
  "instant \<Rightarrow> uuid list \<Rightarrow> (uuid \<Rightarrow> db) \<Rightarrow> (uuid \<Rightarrow> db) \<times> nat result" where
  "sweep clock ids business =
     (case sweep_each clock ids business of
        (b', n, failed) \<Rightarrow> (b', if failed = 0 then Inr n else Inl RuntimeError))"

end
