(* ===== verification/BookingLinks.thy ===== *)
theory BookingLinks
  imports Transitions Fees
begin

text \<open>
  \<open>backend/app/booking_links.py\<close>: a client views, cancels or moves one booking from the link in their
  email, and confirms the consents they ticked. Shows that a cancellation ends exactly the link's
  booking on the terms the client was shown, that a link dies with it, that a move the page offered is
  never refused by a race, and that a confirmation counts once.
\<close>

section \<open>The link\<close>

text \<open>
  The tokens' limits, and \<open>invites.SECRET\<close>. \<open>uuid_of\<close> stands for \<open>UUID(text)\<close> (None when it raises),
  \<open>digest\<close> for SHA-256 of the secret's bytes.
\<close>

definition OPEN_LIMIT :: int where "OPEN_LIMIT = 10"
definition OPEN_WINDOW :: int where "OPEN_WINDOW = 15 * minute_us"
definition READ_LIMIT :: int where "READ_LIMIT = 60"
definition READ_WINDOW :: int where "READ_WINDOW = minute_us"
definition WRITE_LIMIT :: int where "WRITE_LIMIT = 20"
definition WRITE_WINDOW :: int where "WRITE_WINDOW = hour_us"

definition secret_char :: "char \<Rightarrow> bool" where
  "secret_char c \<longleftrightarrow> (let n = (of_char c :: nat)
     in 65 \<le> n \<and> n \<le> 90 \<or> 97 \<le> n \<and> n \<le> 122 \<or> 48 \<le> n \<and> n \<le> 57 \<or> n = 95 \<or> n = 45)"

definition SECRET :: "string \<Rightarrow> bool" where
  "SECRET s \<longleftrightarrow> length s = 43 \<and> list_all secret_char s"

definition link_expired :: "'a result" where "link_expired = Inl (ApiError 404 ''link_expired'')"

definition parse_token ::
  "(string \<Rightarrow> uuid option) \<Rightarrow> (string \<Rightarrow> string) \<Rightarrow> string \<Rightarrow> (uuid \<times> string) result" where
  "parse_token uuid_of digest token =
     (case uuid_of (takeWhile (\<lambda>c. c \<noteq> CHR ''.'') token) of
        None \<Rightarrow> link_expired
      | Some ten \<Rightarrow>
          (let secret = drop 1 (dropWhile (\<lambda>c. c \<noteq> CHR ''.'') token)
           in if SECRET secret then Inr (ten, digest secret) else link_expired))"

text \<open>\<open>_enter\<close>: the limit of the caller's address first, then \<open>refuse\<close>, then the token or the cookie.\<close>

definition enter_link ::
  "(string \<Rightarrow> uuid option) \<Rightarrow> (string \<Rightarrow> string) \<Rightarrow> instant \<Rightarrow> (string \<times> bucket \<Rightarrow> bool) \<Rightarrow> string \<Rightarrow> int \<Rightarrow>
   int \<Rightarrow> api_error option \<Rightarrow> string option \<Rightarrow> string option \<Rightarrow> ip option \<Rightarrow> (string \<times> bucket) table \<Rightarrow>
   (string \<times> bucket) table \<times> (uuid \<times> string) result" where
  "enter_link uuid_of digest clock purged key limit win refuse token cookie host t =
     (case hit clock purged [(ip_key key host, limit)] win t of
        Inl e \<Rightarrow> (t, Inl e)
      | Inr (t', over) \<Rightarrow>
          (t', if over then Inl (ApiError 429 ''rate_limited'')
               else case refuse of
                 Some e \<Rightarrow> Inl e
               | None \<Rightarrow> parse_token uuid_of digest
                   (case token of
                      Some x \<Rightarrow> x
                    | None \<Rightarrow> (case cookie of None \<Rightarrow> '''' | Some c \<Rightarrow> c))))"

text \<open>\<open>RESOLVE\<close>: the live booking of a link, its paid payment and how often it was moved.\<close>

record link_row =
  lr_booking :: booking
  lr_paid :: "int option"
  lr_fee :: "int option"
  lr_moves :: int

definition link_live :: "db \<Rightarrow> booking \<Rightarrow> bool" where
  "link_live d b \<longleftrightarrow> now d < b_starts_at b \<and>
     (b_status b = Confirmed \<or> b_status b = Pending \<and> unexpired d b)"

definition paid_payment :: "db \<Rightarrow> uuid \<Rightarrow> payment option" where
  "paid_payment d i = first_row (filter (\<lambda>p. p_booking p = i \<and> p_status p = Paid) (payments d))"

definition moves_of :: "db \<Rightarrow> uuid \<Rightarrow> int" where
  "moves_of d i = int (length (filter (\<lambda>e. e_booking e = i \<and> e_kind e = Rescheduled) (events d)))"

definition resolve :: "db \<Rightarrow> string \<Rightarrow> link_row result" where
  "resolve d token_hash =
     (case first_row [b. (h, i) \<leftarrow> links d, b \<leftarrow> bookings d, h = token_hash, b_id b = i, link_live d b] of
        None \<Rightarrow> link_expired
      | Some b \<Rightarrow> Inr \<lparr>lr_booking = b,
          lr_paid = map_option p_amount_minor (paid_payment d (b_id b)),
          lr_fee = Option.bind (paid_payment d (b_id b)) p_stripe_fee,
          lr_moves = moves_of d (b_id b)\<rparr>)"

section \<open>What the client may do\<close>

definition PENDING_MOVES :: int where "PENDING_MOVES = 3"

definition link_policy :: "booking \<Rightarrow> policy result" where
  "link_policy b = policy (b_free_hours b) (b_cutoff_hours b) (b_max_reschedules b)"

definition link_decision :: "instant \<Rightarrow> link_row \<Rightarrow> decision result" where
  "link_decision clock row =
     (let b = lr_booking row in
      case link_policy b of
        Inl e \<Rightarrow> Inl e
      | Inr p \<Rightarrow>
          (let x = decide_at p (b_starts_at b) clock (b_reschedule_count b) (b_original_starts_at b)
                (b_earliest_starts_at b)
           in if b_status b = Pending
              then
                let left = (if can_cancel x then PENDING_MOVES - lr_moves row else 0)
                in Inr \<lparr>can_cancel = can_cancel x, can_reschedule = 0 < left,
                     refund_pct = (if lr_paid row \<notin> {None, Some 0} then 100 else 0),
                     charge_pct = 0, key_of = Of_request, reschedules_left = max left 0\<rparr>
              else Inr x))"

text \<open>
  \<open>pending_consents\<close>: granted when the booking was placed, not withdrawn since. The clocks of the two
  rows are compared; their ids are handed out in that order.
\<close>

definition created_event :: "db \<Rightarrow> uuid \<Rightarrow> event option" where
  "created_event d i = first_row (filter (\<lambda>e. e_booking e = i \<and> e_kind e = Created) (events d))"

definition pending_consents :: "db \<Rightarrow> uuid \<Rightarrow> uuid \<Rightarrow> purpose list" where
  "pending_consents d i client =
     (if list_ex (\<lambda>e. e_booking e = i \<and> e_kind e = Consent_confirmed) (events d) then []
      else case created_event d i of
        None \<Rightarrow> []
      | Some e \<Rightarrow>
          (case ea_consents (e_args e) of
             None \<Rightarrow> []
           | Some ps \<Rightarrow>
               let granted = map fst (filter snd ps);
                   withdrawn = (\<lambda>p. list_ex (\<lambda>n. n_client n = client \<and> n_purpose n = p \<and>
                     \<not> n_granted n \<and> e_id e < n_id n) (consents d))
               in sort_key rank (remdups (filter (\<lambda>p. \<not> withdrawn p) granted))))"

text \<open>
  \<open>_view\<close>: what the page shows, less the business's name and contact address. The client's own data
  and the ids of others are not in it.
\<close>

record link_view =
  v_booking :: uuid
  v_status :: status
  v_starts_at :: instant
  v_ends_at :: instant
  v_original_starts_at :: "instant option"
  v_timezone :: zone
  v_service_name :: string
  v_price :: "int \<times> string"
  v_worker_name :: "string option"
  v_policy_text :: "string option"
  v_paid :: "int option"
  v_card_fee :: "int option"
  v_engine :: decision
  v_refund_minor :: "int option"
  v_reschedule_count :: int
  v_free_until :: "instant option"
  v_pending_consents :: "purpose list"

definition view_of :: "link_row \<Rightarrow> decision \<Rightarrow> settings \<Rightarrow> purpose list \<Rightarrow> link_view" where
  "view_of row x g ps =
     (let b = lr_booking row in
      \<lparr>v_booking = b_id b, v_status = b_status b, v_starts_at = b_starts_at b, v_ends_at = b_ends_at b,
       v_original_starts_at = b_original_starts_at b, v_timezone = timezone g,
       v_service_name = b_service_name b, v_price = (b_price_minor b, b_price_currency b),
       v_worker_name = b_worker_name b, v_policy_text = b_policy_text b, v_paid = lr_paid row,
       v_card_fee = (if KEEP_CARD_FEE_ON_CLIENT_CANCEL then lr_fee row else None),
       v_engine = x,
       v_refund_minor = (case lr_paid row of
          None \<Rightarrow> None | Some paid \<Rightarrow> refund_due paid (refund_pct x) Cancelled_by_client (lr_fee row)),
       v_reschedule_count = b_reschedule_count b,
       v_free_until = (if can_cancel x \<and> refund_pct x \<noteq> 0 \<and> b_status b \<noteq> Pending
          then Some ((case b_earliest_starts_at b of None \<Rightarrow> b_starts_at b | Some e \<Rightarrow> e) -
                 b_free_hours b * hour_us)
          else None),
       v_pending_consents = ps\<rparr>)"

section \<open>Handlers\<close>

text \<open>
  Each handler runs in the business's transaction (\<open>tenant_context\<close>), on the state of the business the
  token names. \<open>with_link\<close> is the frame they share: the limit, the token, that business, and
  \<open>OperationalError\<close> (\<open>contended\<close>) as 503.
\<close>

definition with_link ::
  "(string \<times> bucket) table \<times> (uuid \<times> string) result \<Rightarrow> bool \<Rightarrow> (db \<Rightarrow> string \<Rightarrow> (db \<times> 'a) result) \<Rightarrow>
   (uuid \<Rightarrow> db) \<Rightarrow> (string \<times> bucket) table \<times> (uuid \<Rightarrow> db) \<times> 'a result" where
  "with_link entered contended handler business =
     (case entered of
        (t, Inl e) \<Rightarrow> (t, business, Inl e)
      | (t, Inr (ten, token_hash)) \<Rightarrow>
          if contended then (t, business, Inl (ApiError 503 ''busy''))
          else (case handler (business ten) token_hash of
                  Inl e \<Rightarrow> (t, business, Inl e)
                | Inr (d', a) \<Rightarrow> (t, business(ten := d'), Inr a)))"

text \<open>The answer of \<open>open_session\<close> is the cookie it sets: the token it was given.\<close>

definition open_session :: "string \<Rightarrow> db \<Rightarrow> string \<Rightarrow> (db \<times> string) result" where
  "open_session token d token_hash =
     (case resolve d token_hash of Inl e \<Rightarrow> Inl e | Inr _ \<Rightarrow> Inr (d, token))"

definition read_link :: "db \<Rightarrow> string \<Rightarrow> (db \<times> link_view) result" where
  "read_link d token_hash =
     (case resolve d token_hash of
        Inl e \<Rightarrow> Inl e
      | Inr row \<Rightarrow>
          (case link_decision (now d) row of
             Inl e \<Rightarrow> Inl e
           | Inr x \<Rightarrow> Inr (d, view_of row x (settings_of d)
               (pending_consents d (b_id (lr_booking row)) (b_client (lr_booking row))))))"

definition link_slots ::
  "db \<Rightarrow> settings \<Rightarrow> booking \<Rightarrow> instant \<Rightarrow> day \<Rightarrow> day \<Rightarrow> instant list option" where
  "link_slots d g b clock since til =
     (case open_service d (b_service b) of
        None \<Rightarrow> None
      | Some s \<Rightarrow>
          let hours = fst (candidates d (b_service b) (Some (b_worker b)));
              (first, final, earliest) = window clock (timezone g) since til (min_notice_minutes g)
                (booking_horizon_days g);
              duration = (b_ends_at b - b_starts_at b) div minute_us
          in Some (dict_list (fst (offered d [b_worker b] hours (envelope d) g first final earliest
               duration (buffer_for duration (s_buffer_minutes s) (buffer_pct g)) (Some (b_id b))))
             (b_worker b)))"

definition link_range_ok :: "day \<Rightarrow> day \<Rightarrow> bool" where
  "link_range_ok since til \<longleftrightarrow> since \<le> til \<and> til - since < MAX_DAYS"

definition read_link_availability ::
  "instant \<Rightarrow> day \<Rightarrow> day \<Rightarrow> db \<Rightarrow> string \<Rightarrow> (db \<times> instant list) result" where
  "read_link_availability clock since til d token_hash =
     (case resolve d token_hash of
        Inl e \<Rightarrow> Inl e
      | Inr row \<Rightarrow>
          (case link_decision (now d) row of
             Inl e \<Rightarrow> Inl e
           | Inr x \<Rightarrow>
               Inr (d, if can_reschedule x
                 then (case link_slots d (settings_of d) (lr_booking row) clock since til of
                         None \<Rightarrow> [] | Some ts \<Rightarrow> sort ts)
                 else [])))"

definition client_event :: "ip option \<Rightarrow> string option \<Rightarrow> details option \<Rightarrow> event_args" where
  "client_event host agent ds = no_args\<lparr>ea_ip := host, ea_user_agent := agent, ea_details := ds\<rparr>"

definition cancel_link ::
  "uuid \<Rightarrow> int \<Rightarrow> ip option \<Rightarrow> string option \<Rightarrow> db \<Rightarrow> string \<Rightarrow> (db \<times> link_view) result" where
  "cancel_link booking_id shown_pct host agent d token_hash =
     (case resolve d token_hash of
        Inl e \<Rightarrow> Inl e
      | Inr row \<Rightarrow>
          let i = b_id (lr_booking row) in
          if booking_id \<noteq> i then Inl (ApiError 409 ''link_changed'')
          else (case link_decision (now d) row of
            Inl e \<Rightarrow> Inl e
          | Inr x \<Rightarrow>
              if \<not> can_cancel x then Inl (ApiError 409 ''not_allowed'')
              else if shown_pct \<noteq> refund_pct x then Inl (ApiError 409 ''terms_changed'')
              else (case CLIENT_CANCEL d i of
                Inl e \<Rightarrow> Inl e
              | Inr (d1, rows) \<Rightarrow>
                  (case first_row rows of
                     None \<Rightarrow> link_expired
                   | Some b \<Rightarrow>
                       let d2 = insert_event d1 i (Became Cancelled_by_client)
                             (client_event host agent (Some (Refund_pct (refund_pct x))));
                           d3 = fst (email d2 i ''booking_cancelled_by_client'' None No_suffix [] False);
                           d4 = email_merchants d3 i (b_worker (lr_booking row))
                             ''booking_client_cancelled'' No_suffix []
                       in Inr (d4, view_of
                            (row\<lparr>lr_booking := (lr_booking row)\<lparr>b_status := b_status b\<rparr>\<rparr>)
                            \<lparr>can_cancel = False, can_reschedule = False, refund_pct = refund_pct x,
                             charge_pct = 0, key_of = key_of x, reschedules_left = 0\<rparr> (settings_of d4) [])))))"

record move_in =
  mv_booking :: uuid
  mv_starts_at :: instant
  mv_reschedule_count :: int
  mv_seen_starts_at :: "instant option"

text \<open>The emails of a move, with the event it logs before them.\<close>

definition told_of_client_move ::
  "db \<Rightarrow> link_row \<Rightarrow> booking \<Rightarrow> db" where
  "told_of_client_move d row moved =
     (let b = lr_booking row; i = b_id b; requested = (b_status b = Pending);
          suffix = (if requested then Move_no (lr_moves row + 1)
                    else Reschedule_no (b_reschedule_count moved));
          new = b_starts_at moved;
          (d1, queued) = email d i (if requested then ''booking_received'' else ''booking_confirmed'')
            None suffix [Starts_at new] False;
          d2 = email_merchants d1 i (b_worker b) ''booking_client_rescheduled'' suffix
            [Starts_at new, Previous_starts_at (b_starts_at b)]
      in if \<not> requested \<and> queued then remind d2 i new (now d) else d2)"

text \<open>The row of the answer: the moved times, and the anchors \<open>PENDING_MOVE\<close> and \<open>RESCHEDULE\<close> leave.\<close>

definition moved_row :: "link_row \<Rightarrow> booking \<Rightarrow> link_row" where
  "moved_row row moved =
     (let b = lr_booking row; requested = (b_status b = Pending)
      in row\<lparr>lr_booking := b\<lparr>b_starts_at := b_starts_at moved, b_ends_at := b_ends_at moved,
               b_reschedule_count := b_reschedule_count moved,
               b_original_starts_at := (if requested then Some (b_starts_at moved)
                                        else b_original_starts_at b),
               b_earliest_starts_at := Some (if requested then b_starts_at moved
                 else min (case b_earliest_starts_at b of None \<Rightarrow> b_starts_at b | Some e \<Rightarrow> e)
                        (b_starts_at moved))\<rparr>,
             lr_moves := lr_moves row + 1\<rparr>)"

definition reschedule_link ::
  "move_in \<Rightarrow> ip option \<Rightarrow> string option \<Rightarrow> db \<Rightarrow> string \<Rightarrow> (db \<times> link_view) result" where
  "reschedule_link change host agent d token_hash =
     (case resolve d token_hash of
        Inl e \<Rightarrow> Inl e
      | Inr row \<Rightarrow>
          let b = lr_booking row; i = b_id b; g = settings_of d; new = mv_starts_at change;
              requested = (b_status b = Pending) in
          if mv_booking change \<noteq> i then Inl (ApiError 409 ''link_changed'')
          else (case link_decision (now d) row of
            Inl e \<Rightarrow> Inl e
          | Inr x \<Rightarrow>
              if \<not> can_reschedule x then Inl (ApiError 409 ''not_allowed'')
              else if \<not> (if requested then mv_seen_starts_at change = Some (b_starts_at b)
                         else mv_reschedule_count change = b_reschedule_count b)
              then Inl (ApiError 409 ''changed'')
              else
                let day = local_date (timezone g) new;
                    slots = link_slots d g b (now d) day day in
                if slots = None \<or> new \<notin> set (the slots) then Inl (ApiError 409 ''slot_unavailable'')
                else (case EXPIRE d of
                  Inl e \<Rightarrow> Inl e
                | Inr (d1, _) \<Rightarrow>
                    (case (if requested then PENDING_MOVE d1 i new
                           else RESCHEDULE d1 i new (mv_reschedule_count change)) of
                       Inl e \<Rightarrow> if e = Uncaught OVERLAP then Inl (ApiError 409 ''slot_taken'') else Inl e
                     | Inr (d2, rows) \<Rightarrow>
                         (case first_row rows of
                            None \<Rightarrow> Inl (ApiError 409 ''changed'')
                          | Some moved \<Rightarrow>
                              let d3 = insert_event d2 i Rescheduled (client_event host agent
                                    (Some (Moved (b_starts_at b) (b_starts_at moved))));
                                  d4 = told_of_client_move d3 row moved;
                                  row' = moved_row row moved
                              in (case link_decision (now d) row' of
                                    Inl e \<Rightarrow> Inl e
                                  | Inr y \<Rightarrow> Inr (d4, view_of row' y g
                                      (pending_consents d4 i (b_client b)))))))))"

definition confirm_consents ::
  "uuid \<Rightarrow> ip option \<Rightarrow> string option \<Rightarrow> db \<Rightarrow> string \<Rightarrow> (db \<times> link_view) result" where
  "confirm_consents booking_id host agent d token_hash =
     (case resolve d token_hash of
        Inl e \<Rightarrow> Inl e
      | Inr row \<Rightarrow>
          let b = lr_booking row; i = b_id b; ps = pending_consents d i (b_client b) in
          if booking_id \<noteq> i then Inl (ApiError 409 ''link_changed'')
          else (case created_event d i of
            None \<Rightarrow> Inl (ApiError 409 ''nothing_to_confirm'')
          | Some e \<Rightarrow>
              if ps = [] then Inl (ApiError 409 ''nothing_to_confirm'')
              else (case (case ea_policy_version (e_args e) of
                            None \<Rightarrow> Inl (ApiError 422 ''unknown_policy_version'')
                          | Some version \<Rightarrow> record_consents d (b_client b) version
                              (map (\<lambda>p. (p, True)) ps) Booking_page) of
                Inl e \<Rightarrow> Inl e
              | Inr d1 \<Rightarrow>
                  let d2 = insert_event d1 i Consent_confirmed (client_event host agent None)
                  in (case link_decision (now d) row of
                        Inl e \<Rightarrow> Inl e
                      | Inr x \<Rightarrow> Inr (d2, view_of row x (settings_of d2) [])))))"

section \<open>Routes\<close>

text \<open>What a request brings besides its body; the reads do not catch \<open>OperationalError\<close>.\<close>

record link_request =
  lq_cookie :: "string option"
  lq_host :: "ip option"
  lq_agent :: "string option"
  lq_clock :: instant
  lq_purged :: "string \<times> bucket \<Rightarrow> bool"
  lq_contended :: bool

type_synonym 'a route =
  "(string \<times> bucket) table \<Rightarrow> (uuid \<Rightarrow> db) \<Rightarrow> (string \<times> bucket) table \<times> (uuid \<Rightarrow> db) \<times> 'a result"

definition link_write ::
  "(string \<Rightarrow> uuid option) \<Rightarrow> (string \<Rightarrow> string) \<Rightarrow> link_request \<Rightarrow>
   (db \<Rightarrow> string \<Rightarrow> (db \<times> 'a) result) \<Rightarrow> 'a route" where
  "link_write uuid_of digest q handler t business =
     with_link (enter_link uuid_of digest (lq_clock q) (lq_purged q) ''booking_link_write'' WRITE_LIMIT
         WRITE_WINDOW None None (lq_cookie q) (lq_host q) t)
       (lq_contended q) handler business"

definition link_reads ::
  "(string \<Rightarrow> uuid option) \<Rightarrow> (string \<Rightarrow> string) \<Rightarrow> link_request \<Rightarrow> api_error option \<Rightarrow>
   (db \<Rightarrow> string \<Rightarrow> (db \<times> 'a) result) \<Rightarrow> 'a route" where
  "link_reads uuid_of digest q refuse handler t business =
     with_link (enter_link uuid_of digest (lq_clock q) (lq_purged q) ''booking_link_read'' READ_LIMIT
         READ_WINDOW refuse None (lq_cookie q) (lq_host q) t)
       False handler business"

definition session_route ::
  "(string \<Rightarrow> uuid option) \<Rightarrow> (string \<Rightarrow> string) \<Rightarrow> link_request \<Rightarrow> string \<Rightarrow> string route" where
  "session_route uuid_of digest q token t business =
     with_link (enter_link uuid_of digest (lq_clock q) (lq_purged q) ''booking_link_open'' OPEN_LIMIT
         OPEN_WINDOW None (Some token) (lq_cookie q) (lq_host q) t)
       False (open_session token) business"

definition read_route where
  "read_route uuid_of digest q = link_reads uuid_of digest q None read_link"

definition availability_route where
  "availability_route uuid_of digest q since til =
     link_reads uuid_of digest q
       (if link_range_ok since til then None else Some (ApiError 422 ''invalid_range''))
       (read_link_availability (lq_clock q) since til)"

definition cancel_route where
  "cancel_route uuid_of digest q booking_id shown_pct =
     link_write uuid_of digest q (cancel_link booking_id shown_pct (lq_host q) (lq_agent q))"

definition reschedule_route where
  "reschedule_route uuid_of digest q change =
     link_write uuid_of digest q (reschedule_link change (lq_host q) (lq_agent q))"

definition consents_route where
  "consents_route uuid_of digest q booking_id =
     link_write uuid_of digest q (confirm_consents booking_id (lq_host q) (lq_agent q))"

section \<open>A link shows a live booking\<close>

lemma resolve_Inr:
  assumes "resolve d h = Inr row"
  shows "lr_booking row \<in> set (bookings d)" "(h, b_id (lr_booking row)) \<in> set (links d)"
    "link_live d (lr_booking row)" "lr_moves row = moves_of d (b_id (lr_booking row))"
    "lr_paid row = map_option p_amount_minor (paid_payment d (b_id (lr_booking row)))"
  using assms by (auto simp: resolve_def link_expired_def dest!: first_row_in split: option.splits if_splits)

lemma resolve_Inl: "resolve d h = Inl e \<Longrightarrow> e = ApiError 404 ''link_expired''"
  by (auto simp: resolve_def link_expired_def split: option.splits)

text \<open>The only answer to a link that shows nothing live.\<close>

lemma resolve_dead:
  assumes "\<And>b. (h, b_id b) \<in> set (links d) \<Longrightarrow> b \<in> set (bookings d) \<Longrightarrow> \<not> link_live d b"
  shows "resolve d h = link_expired"
proof (cases "resolve d h")
  case (Inl e)
  then show ?thesis by (simp add: resolve_Inl link_expired_def)
next
  case (Inr row)
  then show ?thesis using resolve_Inr [OF Inr] assms by blast
qed

lemma link_decision_total:
  assumes "row_checks (lr_booking row)"
  shows "\<exists>x. link_decision clock row = Inr x"
  using assms by (simp add: link_decision_def link_policy_def policy_def row_checks_def Let_def)

lemma cancel_link_Inr:
  assumes "cancel_link i pct host agent d h = Inr (d', v)"
  obtains row x d1 rows b where "resolve d h = Inr row" "i = b_id (lr_booking row)"
    "link_decision (now d) row = Inr x" "can_cancel x" "refund_pct x = pct"
    "CLIENT_CANCEL d i = Inr (d1, rows)" "first_row rows = Some b"
    "same_but_mail (insert_event d1 i (Became Cancelled_by_client)
       (client_event host agent (Some (Refund_pct pct)))) d'"
    "v = view_of (row\<lparr>lr_booking := (lr_booking row)\<lparr>b_status := b_status b\<rparr>\<rparr>)
       \<lparr>can_cancel = False, can_reschedule = False, refund_pct = refund_pct x,
        charge_pct = 0, key_of = key_of x, reschedules_left = 0\<rparr> (settings_of d') []"
proof -
  obtain row where row: "resolve d h = Inr row"
    using assms by (cases "resolve d h") (auto simp: cancel_link_def)
  obtain x where x: "link_decision (now d) row = Inr x"
    using assms by (cases "link_decision (now d) row") (auto simp: cancel_link_def row Let_def split: if_splits)
  note c = assms [unfolded cancel_link_def Let_def, simplified row x sum.case]
  have g: "i = b_id (lr_booking row)" "can_cancel x" "refund_pct x = pct"
    using c by (auto split: if_splits)
  obtain d1 rows where u: "CLIENT_CANCEL d i = Inr (d1, rows)"
    using c g by (cases "CLIENT_CANCEL d i") auto
  obtain b where b: "first_row rows = Some b"
    using c g u by (cases "first_row rows") (auto simp: link_expired_def)
  let ?d2 = "insert_event d1 i (Became Cancelled_by_client)
       (client_event host agent (Some (Refund_pct pct)))"
  let ?d3 = "fst (email ?d2 i ''booking_cancelled_by_client'' None No_suffix [] False)"
  have d': "d' = email_merchants ?d3 i (b_worker (lr_booking row)) ''booking_client_cancelled'' No_suffix []"
    and v: "v = view_of (row\<lparr>lr_booking := (lr_booking row)\<lparr>b_status := b_status b\<rparr>\<rparr>)
       \<lparr>can_cancel = False, can_reschedule = False, refund_pct = refund_pct x,
        charge_pct = 0, key_of = key_of x, reschedules_left = 0\<rparr> (settings_of d') []"
    using c g u b by auto
  have "same_but_mail ?d2 d'"
    unfolding d' by (rule same_but_mail_trans [OF email_mail email_merchants_mail])
  then show ?thesis
    using that [OF row g(1) x g(2,3) u b _ v] by blast
qed

text \<open>The statement ends exactly the link's booking.\<close>

lemma cancel_link_bookings:
  assumes c: "cancel_link i pct host agent d h = Inr (d', v)" and ok: "bookings_ok d"
  shows "bookings d' = map (\<lambda>b. if b_id b = i then b\<lparr>b_status := Cancelled_by_client\<rparr> else b) (bookings d)"
    and "bookings_ok d'" and "evolves d d'" and "now d' = now d" and "links d' = links d"
proof -
  obtain row x d1 rows b where r: "resolve d h = Inr row" "i = b_id (lr_booking row)"
    "CLIENT_CANCEL d i = Inr (d1, rows)" "same_but_mail (insert_event d1 i (Became Cancelled_by_client)
       (client_event host agent (Some (Refund_pct pct)))) d'"
    using cancel_link_Inr [OF c] by metis
  note live = resolve_Inr(1,3) [OF r(1)] and mail = same_but_mailD [OF r(4)]
  have u: "d1 = d\<lparr>bookings := update_where (CLIENT_CANCEL_where d i)
      (\<lambda>b. b\<lparr>b_status := Cancelled_by_client\<rparr>) (bookings d)\<rparr>"
    using r(3) by (simp add: CLIENT_CANCEL_def update_bookings_Inr)
  have "CLIENT_CANCEL_where d i b \<longleftrightarrow> b_id b = i" if "b \<in> set (bookings d)" for b
  proof -
    have "b_id b = i \<Longrightarrow> b = lr_booking row"
      using ok that live(1) r(2) by (auto simp: bookings_ok_def distinct_map inj_on_def)
    then show ?thesis
      using live(2) by (auto simp: CLIENT_CANCEL_where_def link_live_def)
  qed
  then show "bookings d' = map (\<lambda>b. if b_id b = i then b\<lparr>b_status := Cancelled_by_client\<rparr> else b) (bookings d)"
    using mail(1) u by (simp add: update_where_def)
  have "bookings_ok (insert_event d1 i (Became Cancelled_by_client)
       (client_event host agent (Some (Refund_pct pct))))"
    by (rule bookings_ok_log [OF CLIENT_CANCEL_evolves(2) [OF r(3) ok] insert_event_log])
  then show "bookings_ok d'" by (rule bookings_ok_mail [OF _ r(4)])
  have "evolves d1 d'" by (rule evolves_same) (simp add: mail(1))
  then show "evolves d d'"
    by (rule evolves_trans [OF CLIENT_CANCEL_evolves(1) [OF r(3)]])
  show "now d' = now d" "links d' = links d" using mail u by simp_all
qed

text \<open>Nothing but the terms stands between a live link and its cancellation.\<close>

lemma CLIENT_CANCEL_live:
  assumes "bookings_ok d" "b \<in> set (bookings d)" "link_live d b"
  shows "\<exists>d1 c rows. CLIENT_CANCEL d (b_id b) = Inr (d1, c # rows)"
proof -
  let ?p = "CLIENT_CANCEL_where d (b_id b)" and ?f = "\<lambda>b. b\<lparr>b_status := Cancelled_by_client\<rparr>"
  have "?f b \<in> set (returning ?p ?f (bookings d))"
    using assms(2,3) by (auto simp: returning_def CLIENT_CANCEL_where_def link_live_def)
  then obtain c rows where "returning ?p ?f (bookings d) = c # rows"
    by (cases "returning ?p ?f (bookings d)") auto
  then show ?thesis
    using client_cancel.never_refused [OF _ assms(1), of "b_id b"] by (auto simp: CLIENT_CANCEL_def)
qed

lemma cancel_link_accepts:
  assumes "bookings_ok d" "resolve d h = Inr row" "i = b_id (lr_booking row)"
    "link_decision (now d) row = Inr x" "can_cancel x" "refund_pct x = pct"
  shows "\<exists>d' v. cancel_link i pct host agent d h = Inr (d', v)"
proof -
  obtain d1 c rows where "CLIENT_CANCEL d i = Inr (d1, c # rows)"
    using CLIENT_CANCEL_live [OF assms(1) resolve_Inr(1,3) [OF assms(2)]] assms(3) by blast
  then show ?thesis
    using assms by (simp add: cancel_link_def Let_def)
qed

section \<open>What a client's cancellation leaves\<close>

definition ended_by_client :: "event \<Rightarrow> uuid \<Rightarrow> int \<Rightarrow> bool" where
  "ended_by_client e i pct \<longleftrightarrow> e_booking e = i \<and> e_kind e = Became Cancelled_by_client \<and>
     ea_details (e_args e) = Some (Refund_pct pct) \<and> ea_actor (e_args e) = None"

definition sample_row :: link_row where
  "sample_row = \<lparr>lr_booking = bookings sample ! 0, lr_paid = None, lr_fee = None, lr_moves = 0\<rparr>"

lemma sample_cancels: "\<exists>d' v. cancel_link 20 0 host agent sample ''digest'' = Inr (d', v)"
proof (rule cancel_link_accepts [OF sample_bookings_ok, of _ sample_row])
  show "resolve sample ''digest'' = Inr sample_row" by code_simp
  show "link_decision (now sample) sample_row = Inr
      (decide_at \<lparr>free_hours = 24, cutoff_hours = 12, max_moves = 2\<rparr> (9 * hour_us) 0 0
        (Some (9 * hour_us)) (Some (9 * hour_us)))"
    by code_simp
qed code_simp+

text \<open>
  C11: A client's cancellation is accepted only for the live booking of the link and on the
  refund the policy gives now. It ends that booking and no other, logs that refund with the
  end, and answers with the amount the refund comes to.
\<close>

theorem client_cancels_on_the_terms_shown:
  assumes "cancel_link i pct host agent d h = Inr (d', v)" and "bookings_ok d"
  shows "\<exists>row x. resolve d h = Inr row \<and> i = b_id (lr_booking row) \<and> link_live d (lr_booking row) \<and>
    link_decision (now d) row = Inr x \<and> can_cancel x \<and> refund_pct x = pct \<and>
    bookings d' = map (\<lambda>b. if b_id b = i then b\<lparr>b_status := Cancelled_by_client\<rparr> else b) (bookings d) \<and>
    bookings_ok d' \<and> (\<exists>e. events d' = events d @ [e] \<and> ended_by_client e i pct) \<and>
    v_refund_minor v = map_option (\<lambda>paid. paid * pct div 100) (lr_paid row) \<and>
    \<not> can_cancel (v_engine v) \<and> \<not> can_reschedule (v_engine v)"
proof -
  obtain row x d1 rows b where r: "resolve d h = Inr row" "i = b_id (lr_booking row)"
    "link_decision (now d) row = Inr x" "can_cancel x" "refund_pct x = pct"
    "CLIENT_CANCEL d i = Inr (d1, rows)" "first_row rows = Some b" "same_but_mail (insert_event d1 i (Became Cancelled_by_client)
       (client_event host agent (Some (Refund_pct pct)))) d'"
    "v = view_of (row\<lparr>lr_booking := (lr_booking row)\<lparr>b_status := b_status b\<rparr>\<rparr>)
       \<lparr>can_cancel = False, can_reschedule = False, refund_pct = refund_pct x,
        charge_pct = 0, key_of = key_of x, reschedules_left = 0\<rparr> (settings_of d') []"
    by (rule cancel_link_Inr [OF assms(1)])
  have "events d1 = events d"
    using r(6) by (simp add: CLIENT_CANCEL_def update_bookings_Inr)
  then have "\<exists>e. events d' = events d @ [e] \<and> ended_by_client e i pct"
    using same_but_mailD(8) [OF r(8)] by (simp add: ended_by_client_def client_event_def no_args_def)
  moreover have "v_refund_minor v = map_option (\<lambda>paid. paid * pct div 100) (lr_paid row)"
    using r(5) unfolding r(9) view_of_def refund_due_def KEEP_CARD_FEE_ON_CLIENT_CANCEL_def
    by (simp add: Let_def split: option.split)
  moreover have "\<not> can_cancel (v_engine v)" "\<not> can_reschedule (v_engine v)"
    unfolding r(9) view_of_def by (simp_all add: Let_def)
  ultimately show ?thesis
    using r(1-5) resolve_Inr(3) [OF r(1)] cancel_link_bookings(1,2) [OF assms] by blast
qed

theorem client_cancels_on_the_terms_shown_witness:
  "\<exists>d' v. cancel_link 20 0 None None sample ''digest'' = Inr (d', v) \<and>
     bookings d' = [(bookings sample ! 0)\<lparr>b_status := Cancelled_by_client\<rparr>, bookings sample ! 1]"
proof -
  obtain d' v where c: "cancel_link 20 0 None None sample ''digest'' = Inr (d', v)"
    using sample_cancels by blast
  have "bookings d' = map (\<lambda>b. if b_id b = 20 then b\<lparr>b_status := Cancelled_by_client\<rparr> else b) (bookings sample)"
    using client_cancels_on_the_terms_shown [OF c sample_bookings_ok] by blast
  also have "\<dots> = [(bookings sample ! 0)\<lparr>b_status := Cancelled_by_client\<rparr>, bookings sample ! 1]"
    by code_simp
  finally show ?thesis using c by blast
qed

section \<open>A client's move\<close>

lemma buffer_bounds:
  assumes "tables_ok d" "s \<in> set (services d)" "0 \<le> n" "n \<le> 720"
  shows "0 \<le> buffer_for n (s_buffer_minutes s) (buffer_pct (settings_of d))"
    "buffer_for n (s_buffer_minutes s) (buffer_pct (settings_of d)) \<le> 720"
proof -
  have s: "\<And>k. s_buffer_minutes s = Some k \<Longrightarrow> 0 \<le> k \<and> k \<le> 240"
    and pct: "0 \<le> buffer_pct (settings_of d)" "buffer_pct (settings_of d) \<le> 100"
    using assms(1,2) by (fastforce simp: tables_ok_def services_ok_def settings_ok_def)+
  show "0 \<le> buffer_for n (s_buffer_minutes s) (buffer_pct (settings_of d))"
    by (rule buffer_for_nonneg) (use s pct assms in auto)
  show "buffer_for n (s_buffer_minutes s) (buffer_pct (settings_of d)) \<le> 720"
    by (rule buffer_for_le) (use s pct assms in auto)
qed

lemma candidate_week:
  assumes "tables_ok d"
  shows "week_ok (dict_list (fst (candidates d s member)) m)"
proof (cases "m \<in> fst ` set (fst (candidates d s member))")
  case True
  then show ?thesis
    using candidate_hours [OF assms, of m s member] hours_ok [OF assms] by (simp add: candidates_mem)
next
  case False
  then have "map_of (fst (candidates d s member)) m = None"
    by (simp add: map_of_eq_None_iff)
  then show ?thesis by (simp add: dict_list_def week_ok_def proper_rows_def excluded_def)
qed

text \<open>A start the link offers is free of every other booking that counts, for the booking's length.\<close>

lemma link_slots_free:
  assumes ok: "tables_ok d" and s: "link_slots d (settings_of d) b clock day day = Some ts" "t \<in> set ts"
    and pad: "padded (timezone (settings_of d)) day day"
    and len: "b_ends_at b = b_starts_at b + n * minute_us" "0 < n" "n \<le> 720"
    and x: "x \<in> set (bookings d)" "b_worker x = b_worker b" "counts d (Some (b_id b)) x"
  shows "\<not> meets (b_starts_at x, b_ends_at x) (t, t + n * minute_us)"
proof -
  let ?g = "settings_of d" and ?hours = "fst (candidates d (b_service b) (Some (b_worker b)))"
  obtain first final earliest where w: "window clock (timezone ?g) day day (min_notice_minutes ?g)
      (booking_horizon_days ?g) = (first, final, earliest)"
    by (metis prod_cases3)
  obtain sv where sv: "open_service d (b_service b) = Some sv"
    using s(1) by (auto simp: link_slots_def split: option.splits)
  have n: "(b_ends_at b - b_starts_at b) div minute_us = n"
    using len(1) by simp
  let ?buf = "buffer_for n (s_buffer_minutes sv) (buffer_pct ?g)"
  let ?slots = "fst (offered d [b_worker b] ?hours (envelope d) ?g first final earliest n ?buf (Some (b_id b)))"
  have "t \<in> set (dict_list ?slots (b_worker b))"
    using s by (simp add: link_slots_def sv w Let_def n)
  then obtain slots where ms: "(b_worker b, slots) \<in> set ?slots" "t \<in> set slots"
    using dict_listD by fastforce
  have "first \<le> final" using ms(1) by (auto simp: offered_def split: if_splits)
  then have day: "first = day" "final = day"
    using w by (auto simp: window_def Let_def)
  note buf = buffer_bounds [OF ok, of sv n]
  have bufs: "0 \<le> ?buf" "?buf \<le> 720"
    using buf len open_serviceD [OF sv] by auto
  have "\<not> meets (b_starts_at x, b_ends_at x) (t, t + (n + ?buf) * minute_us)"
    by (rule offered_free_of_bookings(2) [OF ok candidate_week [OF ok] len(2) bufs ms _ x])
      (use pad day in simp)
  then show ?thesis using bufs(1) by (auto simp: meets_def distrib_right)
qed

lemma no_clash_move:
  assumes "no_clash bs" "distinct (map b_id bs)" "\<And>b. b_id (f b) = b_id b"
    and "\<And>b. b \<in> set bs \<Longrightarrow> p b \<Longrightarrow> b_id b = i"
    and "\<And>a b. a \<in> set bs \<Longrightarrow> b \<in> set bs \<Longrightarrow> p b \<Longrightarrow> b_id a \<noteq> i \<Longrightarrow> \<not> clash a (f b)"
  shows "no_clash (update_where p f bs)"
  using assms
proof (induction bs)
  case Nil
  then show ?case by (simp add: no_clash_def)
next
  case (Cons b bs)
  have IH: "no_clash (update_where p f bs)"
    by (rule Cons.IH) (use Cons.prems in \<open>auto simp: no_clash_def\<close>)
  have "\<not> clash (if p b then f b else b) (if p a then f a else a)" if a: "a \<in> set bs" for a
  proof -
    have ne: "b_id a \<noteq> b_id b" using Cons.prems(2) imageI [OF a, of b_id] by auto
    have "\<not> (p a \<and> p b)" using Cons.prems(4) a ne by (metis list.set_intros)
    moreover have "\<not> clash a (f b)" if "p b"
      using Cons.prems(4,5) a that ne by (metis list.set_intros)
    moreover have "\<not> clash b (f a)" if "p a"
      using Cons.prems(4,5) a that ne by (metis list.set_intros)
    moreover have "\<not> clash b a" using Cons.prems(1) a by (simp add: no_clash_def)
    ultimately show ?thesis using clash_sym by auto
  qed
  then have "\<forall>y \<in> set (update_where p f bs). \<not> clash (if p b then f b else b) y"
    unfolding set_update_where by blast
  then show ?case using IH by (simp add: no_clash_def del: set_update_where)
qed

lemma EXPIRE_keeps_live:
  assumes "bookings_ok d" "EXPIRE d = Inr (d1, n)" "b \<in> set (bookings d)" "link_live d b"
  shows "b \<in> set (bookings d1)"
proof (rule EXPIRE_spec [OF assms(1)])
  fix d' assume d': "EXPIRE d = Inr (d', length (filter (EXPIRE_where d) (bookings d)))"
    "same_but_log (d\<lparr>bookings := update_where (EXPIRE_where d) (\<lambda>b. b\<lparr>b_status := Expired\<rparr>) (bookings d)\<rparr>) d'"
  have "\<not> EXPIRE_where d b"
    using assms(4) by (auto simp: EXPIRE_where_def link_live_def EXPIRING_def lapsed_def unexpired_def
        split: option.splits)
  then have "b \<in> set (bookings d')"
    using same_but_logD(1) [OF d'(2)] assms(3) by force
  then show ?thesis using d'(1) assms(2) by simp
qed

definition move_where :: "db \<Rightarrow> booking \<Rightarrow> int \<Rightarrow> booking \<Rightarrow> bool" where
  "move_where d b seen = (if b_status b = Pending then PENDING_MOVE_where d (b_id b)
     else RESCHEDULE_where d (b_id b) seen)"

definition move_set :: "booking \<Rightarrow> instant \<Rightarrow> booking \<Rightarrow> booking" where
  "move_set b new = (if b_status b = Pending then PENDING_MOVE_set new else RESCHEDULE_set new)"

lemma move_set_simps [simp]:
  "b_id (move_set b new x) = b_id x" "b_worker (move_set b new x) = b_worker x"
  "b_starts_at (move_set b new x) = new" "b_ends_at (move_set b new x) = new + (b_ends_at x - b_starts_at x)"
  "b_status (move_set b new x) = b_status x"
  by (simp_all add: move_set_def PENDING_MOVE_set_def RESCHEDULE_set_def move_to_def)

lemma move_statement:
  "(if b_status b = Pending then PENDING_MOVE d (b_id b) new else RESCHEDULE d (b_id b) new seen) =
   update_bookings d (move_where d b seen) (move_set b new)"
  by (simp add: move_where_def move_set_def PENDING_MOVE_def RESCHEDULE_def)

lemma same_id_same: "bookings_ok d \<Longrightarrow> a \<in> set (bookings d) \<Longrightarrow> b \<in> set (bookings d) \<Longrightarrow>
    b_id a = b_id b \<Longrightarrow> a = b"
  by (auto simp: bookings_ok_def distinct_map inj_on_def)

text \<open>What the decision gives a confirmed booking's move is what the CHECK on its count asks.\<close>

lemma can_reschedule_legal:
  assumes "link_decision (now d) row = Inr x" "can_reschedule x" "link_live d (lr_booking row)"
    "b_status (lr_booking row) \<noteq> Pending"
  shows "b_reschedule_count (lr_booking row) < b_max_reschedules (lr_booking row)"
    "b_original_starts_at (lr_booking row) \<noteq> None"
proof -
  obtain p where p: "link_policy (lr_booking row) = Inr p"
    using assms(1) by (cases "link_policy (lr_booking row)") (auto simp: link_decision_def Let_def)
  have most: "max_moves p = b_max_reschedules (lr_booking row)"
    using p by (auto simp: link_policy_def policy_def split: if_splits)
  show "b_reschedule_count (lr_booking row) < b_max_reschedules (lr_booking row)"
    "b_original_starts_at (lr_booking row) \<noteq> None"
    using assms decide_at_live(2) [of "now d" "b_starts_at (lr_booking row)" p] p most
    by (auto simp: link_decision_def Let_def link_live_def)
qed

definition whole_minutes :: "db \<Rightarrow> bool" where
  "whole_minutes d \<longleftrightarrow> (\<forall>b \<in> set (bookings d).
     b_ends_at b = b_starts_at b + b_duration_minutes b * minute_us)"

text \<open>The statement of the move is accepted: the start offered is free, and the row passes its checks.\<close>

lemma client_move_accepted:
  assumes tabs: "tables_ok d" and ok: "bookings_ok d" and whole: "whole_minutes d"
    and pad: "padded (timezone (settings_of d)) day day"
    and row: "resolve d h = Inr row" "b = lr_booking row"
      "link_decision (now d) row = Inr x" "can_reschedule x"
    and slots: "link_slots d (settings_of d) b (now d) day day = Some ts" "new \<in> set ts"
    and ex: "EXPIRE d = Inr (d1, n)"
  shows "\<exists>d2 rows. update_bookings d1 (move_where d1 b seen) (move_set b new) = Inr (d2, rows)"
proof -
  have b: "b \<in> set (bookings d)" "link_live d b"
    using resolve_Inr(1,3) [OF row(1)] row(2) by simp_all
  note gone = EXPIRE_same [OF ok ex]
  have b1: "b \<in> set (bookings d1)" by (rule EXPIRE_keeps_live [OF ok ex b])
  have len: "b_ends_at b = b_starts_at b + b_duration_minutes b * minute_us"
    "0 < b_duration_minutes b" "b_duration_minutes b \<le> 720"
    using whole b(1) ok by (auto simp: whole_minutes_def bookings_ok_def row_checks_def)
  have only: "y = b" if "y \<in> set (bookings d1)" "move_where d1 b seen y" for y
    by (rule same_id_same [OF gone(2) that(1) b1])
      (use that in \<open>auto simp: move_where_def PENDING_MOVE_where_def RESCHEDULE_where_def split: if_splits\<close>)
  have free: "\<not> clash a (move_set b new y)"
    if a: "a \<in> set (bookings d1)" "b_id a \<noteq> b_id b" and y: "y \<in> set (bookings d1)" "move_where d1 b seen y" for a y
  proof
    assume "clash a (move_set b new y)"
    then have c: "b_worker a = b_worker b" "b_status a \<in> set OCCUPYING"
      "meets (b_starts_at a, b_ends_at a) (new, new + b_duration_minutes b * minute_us)"
      using only [OF y] len(1) by (simp_all add: clash_def)
    obtain a0 where a0: "a0 \<in> set (bookings d)" "a = a0 \<or> a = a0\<lparr>b_status := Expired\<rparr>"
      using gone(4) [OF a(1)] by blast
    have "a = a0" using a0(2) c(2) by (auto simp: OCCUPYING_def)
    moreover have "b_status a \<in> set EXPIRING \<Longrightarrow> unexpired d a"
      using gone(5) [OF a(1)] same_tablesD(4) [OF gone(1)] by (simp add: unexpired_def split: option.splits)
    ultimately have "counts d (Some (b_id b)) a" "a \<in> set (bookings d)"
      using a0(1) c(2) a(2) by (auto simp: counts_def)
    then show False
      using link_slots_free [OF tabs slots pad len] c(1,3) by blast
  qed
  have clash: "no_clash (update_where (move_where d1 b seen) (move_set b new) (bookings d1))"
    by (rule no_clash_move [of _ _ _ "b_id b"])
      (use gone(2) only free in \<open>auto simp: bookings_ok_def\<close>)
  show ?thesis
  proof (cases "b_status b = Pending")
    case True
    then show ?thesis
      using pending_move.accepted_iff [OF TrueI gone(2), of "b_id b" new] clash
      by (auto simp: move_where_def move_set_def)
  next
    case False
    note legal = can_reschedule_legal [OF row(3,4)]
    have "RESCHEDULE_legal (b_id b) d1"
      unfolding RESCHEDULE_legal_def
      using legal False b(2) row(2) same_id_same [OF gone(2) _ b1] by metis
    then show ?thesis
      using reschedule.accepted_iff [OF _ gone(2), of "b_id b" seen new] clash False
      by (auto simp: move_where_def move_set_def)
  qed
qed

lemma told_of_client_move_mail [simp]: "same_but_mail d (told_of_client_move d row moved)"
proof -
  have told: "same_but_mail d (email_merchants (fst (email d i t u s es m)) j w t' s' es')"
    for i t u s es m j w t' s' es'
    by (rule same_but_mail_trans [OF email_mail email_merchants_mail])
  show ?thesis
    unfolding told_of_client_move_def Let_def case_prod_unfold
    by (simp only: told same_but_mail_trans [OF told remind_mail] if_True if_False split: if_split) simp
qed

lemma link_decision_policy:
  assumes "link_decision clock row = Inr x"
    and "link_policy (lr_booking row') = link_policy (lr_booking row)"
  shows "\<exists>y. link_decision clock row' = Inr y"
  using assms by (cases "link_policy (lr_booking row)") (auto simp: link_decision_def Let_def)

lemma moved_row_policy: "link_policy (lr_booking (moved_row row moved)) = link_policy (lr_booking row)"
  by (simp add: moved_row_def link_policy_def Let_def)

text \<open>The day of the start a client asks for, and the starts the link offers on it.\<close>

definition link_day :: "db \<Rightarrow> move_in \<Rightarrow> day" where
  "link_day d change = local_date (timezone (settings_of d)) (mv_starts_at change)"

definition echo_ok :: "move_in \<Rightarrow> booking \<Rightarrow> bool" where
  "echo_ok change b \<longleftrightarrow> (if b_status b = Pending then mv_seen_starts_at change = Some (b_starts_at b)
     else mv_reschedule_count change = b_reschedule_count b)"

lemma reschedule_link_Inr:
  assumes "reschedule_link change host agent d h = Inr (d', v)"
  obtains row x ts d1 n d2 rows moved y where
    "resolve d h = Inr row" "mv_booking change = b_id (lr_booking row)"
    "link_decision (now d) row = Inr x" "can_reschedule x" "echo_ok change (lr_booking row)"
    "link_slots d (settings_of d) (lr_booking row) (now d) (link_day d change) (link_day d change) = Some ts"
    "mv_starts_at change \<in> set ts" "EXPIRE d = Inr (d1, n)"
    "update_bookings d1 (move_where d1 (lr_booking row) (mv_reschedule_count change))
       (move_set (lr_booking row) (mv_starts_at change)) = Inr (d2, rows)"
    "first_row rows = Some moved"
    "same_but_mail (insert_event d2 (b_id (lr_booking row)) Rescheduled (client_event host agent
       (Some (Moved (b_starts_at (lr_booking row)) (b_starts_at moved))))) d'"
    "link_decision (now d) (moved_row row moved) = Inr y"
    "v = view_of (moved_row row moved) y (settings_of d)
       (pending_consents d' (b_id (lr_booking row)) (b_client (lr_booking row)))"
proof -
  obtain row where row: "resolve d h = Inr row"
    using assms by (cases "resolve d h") (auto simp: reschedule_link_def)
  let ?b = "lr_booking row" and ?new = "mv_starts_at change" and ?day = "link_day d change"
  let ?slots = "link_slots d (settings_of d) ?b (now d) ?day ?day"
  obtain x where x: "link_decision (now d) row = Inr x"
    using assms by (cases "link_decision (now d) row")
      (auto simp: reschedule_link_def row Let_def split: if_splits)
  note c0 = assms [unfolded reschedule_link_def Let_def move_statement, simplified row x sum.case,
      folded link_day_def]
  have g: "mv_booking change = b_id ?b" "can_reschedule x" "echo_ok change ?b"
    using c0 by (auto simp: echo_ok_def split: if_splits)
  have ts: "?slots \<noteq> None" "?new \<in> set (the ?slots)"
    using c0 g by (auto split: if_splits)
  obtain d1 n where ex: "EXPIRE d = Inr (d1, n)"
    using c0 g ts by (cases "EXPIRE d") (auto split: if_splits)
  obtain d2 rows where u: "update_bookings d1 (move_where d1 ?b (mv_reschedule_count change))
      (move_set ?b ?new) = Inr (d2, rows)"
    using c0 g ts ex
    by (cases "update_bookings d1 (move_where d1 ?b (mv_reschedule_count change)) (move_set ?b ?new)")
      (auto split: if_splits)
  obtain moved where m: "first_row rows = Some moved"
    using c0 g ts ex u by (cases "first_row rows") (auto split: if_splits)
  obtain y where y: "link_decision (now d) (moved_row row moved) = Inr y"
    using link_decision_policy [OF x moved_row_policy] by blast
  let ?d3 = "insert_event d2 (b_id ?b) Rescheduled (client_event host agent
       (Some (Moved (b_starts_at ?b) (b_starts_at moved))))"
  have d': "d' = told_of_client_move ?d3 row moved"
    and v: "v = view_of (moved_row row moved) y (settings_of d) (pending_consents d' (b_id ?b) (b_client ?b))"
    using c0 g ts ex u m y by (auto split: if_splits)
  show ?thesis
    by (rule that [OF row g(1) x g(2,3) _ ts(2) ex u m _ y v]) (use ts d' in auto)
qed

text \<open>Whatever is refused is refused by a check.\<close>

lemma reschedule_link_refused:
  assumes tabs: "tables_ok d" and ok: "bookings_ok d" and whole: "whole_minutes d"
    and pad: "padded (timezone (settings_of d)) (link_day d change) (link_day d change)"
    and e: "reschedule_link change host agent d h = Inl e"
  shows "e \<in> {ApiError 404 ''link_expired'', ApiError 409 ''link_changed'', ApiError 409 ''not_allowed'',
    ApiError 409 ''changed'', ApiError 409 ''slot_unavailable''}"
proof (cases "resolve d h")
  case (Inl e')
  then show ?thesis using e resolve_Inl [OF Inl] by (simp add: reschedule_link_def)
next
  case row: (Inr row)
  let ?b = "lr_booking row" and ?new = "mv_starts_at change" and ?day = "link_day d change"
  let ?slots = "link_slots d (settings_of d) ?b (now d) ?day ?day"
  have "row_checks ?b" using ok resolve_Inr(1) [OF row] by (simp add: bookings_ok_def)
  then obtain x where x: "link_decision (now d) row = Inr x"
    using link_decision_total by blast
  note c0 = e [unfolded reschedule_link_def Let_def move_statement, simplified row x sum.case,
      folded link_day_def]
  show ?thesis
  proof (cases "mv_booking change = b_id ?b \<and> can_reschedule x \<and> echo_ok change ?b \<and>
      ?slots \<noteq> None \<and> ?new \<in> set (the ?slots)")
    case False
    then show ?thesis using c0 by (auto simp: echo_ok_def split: if_splits)
  next
    case True
    then obtain ts where ts: "?slots = Some ts" "?new \<in> set ts" by auto
    obtain d1 n where ex: "EXPIRE d = Inr (d1, n)" by (rule EXPIRE_spec [OF ok])
    obtain d2 rows where u: "update_bookings d1 (move_where d1 ?b (mv_reschedule_count change))
        (move_set ?b ?new) = Inr (d2, rows)"
      using client_move_accepted [OF tabs ok whole pad row refl x _ ts ex] True by blast
    have "first_row rows = None"
    proof (cases "first_row rows")
      case (Some moved)
      obtain y where "link_decision (now d) (moved_row row moved) = Inr y"
        using link_decision_policy [OF x moved_row_policy] by blast
      then show ?thesis using c0 True ts ex u Some by (auto simp: echo_ok_def split: if_splits)
    qed
    then show ?thesis using c0 True ts ex u by (auto simp: echo_ok_def split: if_splits)
  qed
qed

text \<open>Whatever start the link offers, the move to it goes through.\<close>

lemma reschedule_link_accepts:
  assumes tabs: "tables_ok d" and ok: "bookings_ok d" and whole: "whole_minutes d"
    and pad: "padded (timezone (settings_of d)) (link_day d change) (link_day d change)"
    and row: "resolve d h = Inr row" "mv_booking change = b_id (lr_booking row)"
      "echo_ok change (lr_booking row)" "CLIENT_NOT_ERASED d (lr_booking row)"
    and x: "link_decision (now d) row = Inr x" "can_reschedule x"
    and slots: "link_slots d (settings_of d) (lr_booking row) (now d) (link_day d change)
        (link_day d change) = Some ts" "mv_starts_at change \<in> set ts"
  shows "\<exists>d' v. reschedule_link change host agent d h = Inr (d', v)"
proof -
  let ?b = "lr_booking row"
  let ?p = "\<lambda>d1. move_where d1 ?b (mv_reschedule_count change)" and ?f = "move_set ?b (mv_starts_at change)"
  obtain d1 n where ex: "EXPIRE d = Inr (d1, n)" by (rule EXPIRE_spec [OF ok])
  note gone = EXPIRE_same [OF ok ex]
  obtain d2 rows where u: "update_bookings d1 (?p d1) ?f = Inr (d2, rows)"
    using client_move_accepted [OF tabs ok whole pad row(1) refl x slots ex] by blast
  have b: "?b \<in> set (bookings d)" "link_live d ?b" using resolve_Inr(1,3) [OF row(1)] by simp_all
  have "?p d1 ?b"
    using b(2) row(3,4) same_tablesD(4) [OF gone(1)] gone(3)
    by (auto simp: move_where_def PENDING_MOVE_where_def RESCHEDULE_where_def link_live_def echo_ok_def
        CLIENT_NOT_ERASED_def unexpired_def split: option.splits)
  then have "?f ?b \<in> set rows"
    using u EXPIRE_keeps_live [OF ok ex b] by (auto simp: update_bookings_Inr returning_def)
  then obtain moved where m: "first_row rows = Some moved" by (cases rows) auto
  obtain y where "link_decision (now d) (moved_row row moved) = Inr y"
    using link_decision_policy [OF x(1) moved_row_policy] by blast
  then show ?thesis
    using row x slots ex u m
    by (simp add: reschedule_link_def Let_def move_statement link_day_def [symmetric] echo_ok_def)
qed

text \<open>The row of the answer, and the decision on it.\<close>

lemma moved_decision:
  assumes live: "link_live d (lr_booking row)" and x: "link_decision (now d) row = Inr x" "can_reschedule x"
    and new: "moved = move_set (lr_booking row) new (lr_booking row)"
    and y: "link_decision (now d) (moved_row row moved) = Inr y"
  shows "refund_pct y \<le> refund_pct x \<and> reschedules_left y < reschedules_left x"
proof -
  let ?b = "lr_booking row"
  obtain p where p: "link_policy ?b = Inr p"
    using x(1) by (cases "link_policy ?b") (auto simp: link_decision_def Let_def)
  have st: "now d < b_starts_at ?b" using live by (simp add: link_live_def)
  note old = decide_at_live [OF st, of p]
  show ?thesis
  proof (cases "b_status ?b = Pending")
    case True
    then show ?thesis
      using x y p moved_row_policy [of row moved] old(1)
      by (auto simp: link_decision_def moved_row_def Let_def split: if_splits)
  next
    case False
    have cnt: "b_reschedule_count moved = b_reschedule_count ?b + 1" "b_starts_at moved = new"
      using new False by (simp_all add: move_set_def RESCHEDULE_set_def move_to_def)
    let ?e = "case b_earliest_starts_at ?b of None \<Rightarrow> b_starts_at ?b | Some e \<Rightarrow> e"
    have x': "x = decide_at p (b_starts_at ?b) (now d) (b_reschedule_count ?b) (b_original_starts_at ?b)
        (b_earliest_starts_at ?b)"
      using x(1) p False by (simp add: link_decision_def Let_def)
    have y': "y = decide_at p new (now d) (b_reschedule_count ?b + 1) (b_original_starts_at ?b)
        (Some (min ?e new))"
      using y p False cnt moved_row_policy [of row moved]
      by (simp add: link_decision_def Let_def moved_row_def)
    show ?thesis
    proof (cases "new \<le> now d")
      case True
      then show ?thesis
        using x(2) old(2-4) unfolding x' y' by (simp add: decide_at_started)
    next
      case False
      then have st': "now d < new" by simp
      show ?thesis
        using x(2) old decide_at_live [OF st', of p] unfolding x' y' by auto
    qed
  qed
qed

lemma reschedule_link_bookings:
  assumes c: "reschedule_link change host agent d h = Inr (d', v)" and ok: "bookings_ok d"
  shows "evolves d d'" "bookings_ok d'"
    and "\<exists>row x b'. resolve d h = Inr row \<and> link_decision (now d) row = Inr x \<and> can_reschedule x \<and>
      b_id (lr_booking row) = mv_booking change \<and>
      b' \<in> set (bookings d') \<and> b' = move_set (lr_booking row) (mv_starts_at change) (lr_booking row) \<and>
      refund_pct (v_engine v) \<le> refund_pct x \<and> reschedules_left (v_engine v) < reschedules_left x"
proof -
  obtain row x ts d1 n d2 rows moved y where r:
    "resolve d h = Inr row" "mv_booking change = b_id (lr_booking row)"
    "link_decision (now d) row = Inr x" "can_reschedule x" "echo_ok change (lr_booking row)"
    "link_slots d (settings_of d) (lr_booking row) (now d) (link_day d change) (link_day d change) = Some ts"
    "mv_starts_at change \<in> set ts" "EXPIRE d = Inr (d1, n)"
    "update_bookings d1 (move_where d1 (lr_booking row) (mv_reschedule_count change))
       (move_set (lr_booking row) (mv_starts_at change)) = Inr (d2, rows)"
    "first_row rows = Some moved"
    "same_but_mail (insert_event d2 (b_id (lr_booking row)) Rescheduled (client_event host agent
       (Some (Moved (b_starts_at (lr_booking row)) (b_starts_at moved))))) d'"
    "link_decision (now d) (moved_row row moved) = Inr y"
    "v = view_of (moved_row row moved) y (settings_of d)
       (pending_consents d' (b_id (lr_booking row)) (b_client (lr_booking row)))"
    by (rule reschedule_link_Inr [OF c])
  let ?b = "lr_booking row" and ?new = "mv_starts_at change"
  note b = resolve_Inr(1,3) [OF r(1)]
  note ok1 = EXPIRE_same(2) [OF ok r(8)]
  have u: "update_bookings d1 (move_where d1 ?b (mv_reschedule_count change)) (move_set ?b ?new) = Inr (d2, rows)"
    by (rule r(9))
  have steps: "evolves d1 d2 \<and> bookings_ok d2"
    using PENDING_MOVE_evolves [of d1 "b_id ?b" ?new d2 rows] RESCHEDULE_evolves [of d1 "b_id ?b" ?new
        "mv_reschedule_count change" d2 rows] ok1 u move_statement [of ?b d1 ?new "mv_reschedule_count change"]
    by (auto split: if_splits)
  have same: "bookings d' = bookings d2" using same_but_mailD(1) [OF r(11)] by simp
  show "evolves d d'"
    using EXPIRE_evolves [OF r(8)] steps evolves_same [OF same] evolves_trans by blast
  show "bookings_ok d'"
    by (rule bookings_ok_mail [OF bookings_ok_log [OF conjunct2 [OF steps] insert_event_log] r(11)])
  have "moved \<in> set rows" by (rule first_row_in [OF r(10)])
  then obtain z where z: "z \<in> set (bookings d1)" "move_where d1 ?b (mv_reschedule_count change) z"
    "moved = move_set ?b ?new z"
    using u by (auto simp: update_bookings_Inr returning_def)
  have "z = ?b"
    by (rule same_id_same [OF ok1 z(1) EXPIRE_keeps_live [OF ok r(8) b]])
      (use z(2) in \<open>auto simp: move_where_def PENDING_MOVE_where_def RESCHEDULE_where_def split: if_splits\<close>)
  then have m: "moved = move_set ?b ?new ?b" "moved \<in> set (bookings d')"
    using z u unfolding same by (auto simp: update_bookings_Inr)
  have dec: "refund_pct y \<le> refund_pct x \<and> reschedules_left y < reschedules_left x"
    using moved_decision [OF b(2) r(3,4) m(1) r(12)] by blast
  have "v_engine v = y" by (simp add: r(13) view_of_def Let_def)
  then show "\<exists>row x b'. resolve d h = Inr row \<and> link_decision (now d) row = Inr x \<and> can_reschedule x \<and>
      b_id (lr_booking row) = mv_booking change \<and>
      b' \<in> set (bookings d') \<and> b' = move_set (lr_booking row) (mv_starts_at change) (lr_booking row) \<and>
      refund_pct (v_engine v) \<le> refund_pct x \<and> reschedules_left (v_engine v) < reschedules_left x"
    using r(1-4) m dec by (intro exI [of _ row] exI [of _ x] exI [of _ moved]) simp
qed

section \<open>What the move promises\<close>

definition sample_request :: link_row where
  "sample_request = \<lparr>lr_booking = bookings sample ! 1, lr_paid = None, lr_fee = None, lr_moves = 0\<rparr>"

definition sample_change :: move_in where
  "sample_change = \<lparr>mv_booking = 21, mv_starts_at = 10 * hour_us, mv_reschedule_count = 0,
     mv_seen_starts_at = Some (14 * hour_us)\<rparr>"

lemma sample_request_decision: "link_decision (now sample) sample_request = Inr
  \<lparr>can_cancel = True, can_reschedule = True, refund_pct = 0, charge_pct = 0, key_of = Of_request,
   reschedules_left = 3\<rparr>"
  by code_simp

lemma sample_link_slots: "link_slots sample (settings_of sample) (lr_booking sample_request) (now sample)
  (link_day sample sample_change) (link_day sample sample_change) = Some [10 * hour_us]"
  by code_simp

lemma sample_whole: "whole_minutes sample"
  by code_simp

lemma sample_link_padded: "padded (timezone (settings_of sample)) (link_day sample sample_change)
  (link_day sample sample_change)"
  by code_simp

lemma sample_resolves: "resolve sample ''other'' = Inr sample_request"
  by code_simp

text \<open>
  C21: A start that the link offers is always taken by the move: for a booking of whole
  minutes whose client is not erased, the move passes every constraint of the table.
\<close>

theorem offered_move_succeeds:
  assumes "tables_ok d" and "bookings_ok d" and "whole_minutes d"
    and "padded (timezone (settings_of d)) (link_day d change) (link_day d change)"
    and "resolve d h = Inr row" and "mv_booking change = b_id (lr_booking row)"
    and "echo_ok change (lr_booking row)" and "CLIENT_NOT_ERASED d (lr_booking row)"
    and "link_decision (now d) row = Inr x" and "can_reschedule x"
    and "link_slots d (settings_of d) (lr_booking row) (now d) (link_day d change)
      (link_day d change) = Some ts" and "mv_starts_at change \<in> set ts"
  shows "\<exists>d' v. reschedule_link change host agent d h = Inr (d', v)"
  by (rule reschedule_link_accepts [OF assms])

theorem offered_move_succeeds_witness:
  "\<exists>d' v. reschedule_link sample_change None None sample ''other'' = Inr (d', v)"
  by (rule offered_move_succeeds [OF sample_ok sample_bookings_ok sample_whole sample_link_padded
        sample_resolves _ _ _ sample_request_decision _ sample_link_slots]) code_simp+



section \<open>Confirming consents\<close>

lemma confirm_consents_Inr:
  assumes "confirm_consents i host agent d h = Inr (d', v)"
  obtains row e version d1 x where "resolve d h = Inr row" "i = b_id (lr_booking row)"
    "created_event d i = Some e" "pending_consents d i (b_client (lr_booking row)) \<noteq> []"
    "ea_policy_version (e_args e) = Some version"
    "record_consents d (b_client (lr_booking row)) version
      (map (\<lambda>p. (p, True)) (pending_consents d i (b_client (lr_booking row)))) Booking_page = Inr d1"
    "d' = insert_event d1 i Consent_confirmed (client_event host agent None)"
    "v = view_of row x (settings_of d') []"
proof -
  obtain row where row: "resolve d h = Inr row"
    using assms by (cases "resolve d h") (auto simp: confirm_consents_def)
  note c = assms [unfolded confirm_consents_def Let_def, simplified row sum.case]
  have i: "i = b_id (lr_booking row)" using c by (auto split: if_splits)
  obtain e where e: "created_event d i = Some e"
    using c i by (cases "created_event d i") auto
  let ?ps = "pending_consents d i (b_client (lr_booking row))"
  have ps: "?ps \<noteq> []" using c i e by (auto split: if_splits)
  obtain version where ver: "ea_policy_version (e_args e) = Some version"
    using c i e ps by (cases "ea_policy_version (e_args e)") auto
  let ?r = "record_consents d (b_client (lr_booking row)) version (map (\<lambda>p. (p, True)) ?ps) Booking_page"
  obtain d1 where r: "?r = Inr d1"
    using c i e ps ver by (cases ?r) auto
  obtain x where x: "link_decision (now d) row = Inr x"
    using c i e ps ver r by (cases "link_decision (now d) row") auto
  show ?thesis
    by (rule that [OF row i e ps ver r, of x]) (use c i e ps ver r x in auto)
qed

lemma add_consent_consents:
  "consents (add_consent client version texts src p granted d) =
     consents d @ [\<lparr>n_id = next_id d, n_client = client, n_purpose = p, n_granted = granted,
       n_text_shown = the (map_of texts p), n_policy_version = version, n_source = src\<rparr>]"
  "events (add_consent client version texts src p granted d) = events d"
  "bookings (add_consent client version texts src p granted d) = bookings d"
  "links (add_consent client version texts src p granted d) = links d"
  "payments (add_consent client version texts src p granted d) = payments d"
  "now (add_consent client version texts src p granted d) = now d"
  "clients (add_consent client version texts src p granted d) = clients d"
  by (simp_all add: add_consent_def)

definition log_line :: "consent \<Rightarrow> uuid \<times> purpose \<times> bool \<times> string \<times> source" where
  "log_line n = (n_client n, n_purpose n, n_granted n, n_policy_version n, n_source n)"

lemma fold_add_consent:
  "let d' = fold (\<lambda>(p, granted). add_consent client version texts src p granted) rows d in
   map log_line (consents d') = map log_line (consents d) @ map (\<lambda>(p, granted). (client, p, granted, version, src)) rows \<and>
   events d' = events d \<and> bookings d' = bookings d \<and> links d' = links d \<and> payments d' = payments d \<and>
   now d' = now d \<and> clients d' = clients d"
proof (induction rows arbitrary: d)
  case (Cons r rows)
  show ?case
    using Cons [of "case r of (p, granted) \<Rightarrow> add_consent client version texts src p granted d"]
    by (cases r) (simp add: Let_def add_consent_consents log_line_def)
qed simp

lemma record_consents_lines:
  assumes "record_consents d client version (map (\<lambda>p. (p, True)) ps) src = Inr d1" "sorted (map rank ps)"
  shows "map log_line (consents d1) = map log_line (consents d) @ map (\<lambda>p. (client, p, True, version, src)) ps"
    "events d1 = events d" "bookings d1 = bookings d" "links d1 = links d" "payments d1 = payments d"
    "now d1 = now d" "clients d1 = clients d"
proof -
  obtain texts where d1: "d1 = fold (\<lambda>(p, granted). add_consent client version texts src p granted)
      (sort_key (rank \<circ> fst) (map (\<lambda>p. (p, True)) ps)) d"
    using assms(1) by (auto simp: record_consents_def split: sum.splits)
  have "sort_key (rank \<circ> fst) (map (\<lambda>p. (p, True)) ps) = map (\<lambda>p. (p, True)) ps"
    by (rule sort_key_id_if_sorted) (use assms(2) in \<open>simp add: comp_def\<close>)
  then have "d1 = fold (\<lambda>(p, granted). add_consent client version texts src p granted)
      (map (\<lambda>p. (p, True)) ps) d"
    unfolding d1 by simp
  then show "map log_line (consents d1) = map log_line (consents d) @ map (\<lambda>p. (client, p, True, version, src)) ps"
    "events d1 = events d" "bookings d1 = bookings d" "links d1 = links d" "payments d1 = payments d"
    "now d1 = now d" "clients d1 = clients d"
    using fold_add_consent [of client version texts src "map (\<lambda>p. (p, True)) ps" d]
    by (simp_all add: Let_def comp_def)
qed

lemma pending_consents_sorted: "sorted (map rank (pending_consents d i client))"
  by (simp add: pending_consents_def Let_def split: option.split)

lemma resolve_cong:
  assumes "links d' = links d" "bookings d' = bookings d" "payments d' = payments d" "now d' = now d"
    and "\<And>i. moves_of d' i = moves_of d i"
  shows "resolve d' h = resolve d h"
proof -
  have "link_live d' = link_live d"
    by (intro ext) (simp add: link_live_def unexpired_def assms(4) split: option.split)
  moreover have "paid_payment d' = paid_payment d"
    using assms(3) by (simp add: fun_eq_iff paid_payment_def)
  ultimately have eqs: "link_live d' = link_live d" "paid_payment d' = paid_payment d"
    by simp_all
  show ?thesis
    unfolding resolve_def eqs assms by (rule refl)
qed

definition sample_ticked :: db where
  "sample_ticked = sample\<lparr>events := [\<lparr>e_id = 30, e_booking = 20, e_kind = Created,
     e_args = no_args\<lparr>ea_policy_version := Some ''2026-09-01'',
       ea_consents := Some [(Sms, True), (Marketing_email, True), (Whatsapp, False)]\<rparr>\<rparr>]\<rparr>"

lemma sample_ticked_parts:
  "resolve sample_ticked ''digest'' = Inr sample_row"
  "pending_consents sample_ticked 20 5 = [Marketing_email, Sms]"
  "isl (record_consents sample_ticked 5 ''2026-09-01'' [(Marketing_email, True), (Sms, True)] Booking_page) = False"
  "b_id (lr_booking sample_row) = 20" "b_client (lr_booking sample_row) = 5"
  "isl (link_decision (now sample_ticked) sample_row) = False"
  by code_simp+

lemma sample_confirms: "\<exists>d' v. confirm_consents 20 None None sample_ticked ''digest'' = Inr (d', v)"
proof -
  obtain d1 where r: "record_consents sample_ticked 5 ''2026-09-01'' [(Marketing_email, True), (Sms, True)]
      Booking_page = Inr d1"
    using sample_ticked_parts(3)
    by (cases "record_consents sample_ticked 5 ''2026-09-01'' [(Marketing_email, True), (Sms, True)] Booking_page") auto
  obtain x where x: "link_decision (now sample_ticked) sample_row = Inr x"
    using sample_ticked_parts(6) by (cases "link_decision (now sample_ticked) sample_row") auto
  have "created_event sample_ticked 20 = Some (events sample_ticked ! 0)"
    "ea_policy_version (e_args (events sample_ticked ! 0)) = Some ''2026-09-01''"
    by code_simp+
  then show ?thesis
    using sample_ticked_parts r x by (simp add: confirm_consents_def Let_def)
qed

text \<open>
  Confirming the consents records, in order, a grant of every purpose still pending and
  of no other, under the version the client saw, changes nothing of the bookings and the
  clients, and counts once: a second click finds nothing to confirm.
\<close>

lemma consents_confirmed_once:
  assumes "confirm_consents i host agent d h = Inr (d', v)"
  shows "\<exists>row e version. resolve d h = Inr row \<and> i = b_id (lr_booking row) \<and>
    created_event d i = Some e \<and> ea_policy_version (e_args e) = Some version \<and>
    pending_consents d i (b_client (lr_booking row)) \<noteq> [] \<and>
    map log_line (consents d') = map log_line (consents d) @
      map (\<lambda>p. (b_client (lr_booking row), p, True, version, Booking_page))
        (pending_consents d i (b_client (lr_booking row))) \<and>
    bookings d' = bookings d \<and> clients d' = clients d \<and> v_pending_consents v = [] \<and>
    confirm_consents i host' agent' d' h = Inl (ApiError 409 ''nothing_to_confirm'')"
proof -
  obtain row e version d1 x where r: "resolve d h = Inr row" "i = b_id (lr_booking row)"
    "created_event d i = Some e" "pending_consents d i (b_client (lr_booking row)) \<noteq> []"
    "ea_policy_version (e_args e) = Some version"
    "record_consents d (b_client (lr_booking row)) version
      (map (\<lambda>p. (p, True)) (pending_consents d i (b_client (lr_booking row)))) Booking_page = Inr d1"
    "d' = insert_event d1 i Consent_confirmed (client_event host agent None)"
    "v = view_of row x (settings_of d') []"
    by (rule confirm_consents_Inr [OF assms])
  note log = record_consents_lines [OF r(6) pending_consents_sorted]
  have "resolve d' h = resolve d h"
    by (rule resolve_cong) (simp_all add: r(7) log moves_of_def)
  moreover have "created_event d' i = Some e"
  proof -
    have "filter (\<lambda>e. e_booking e = i \<and> e_kind e = Created) (events d') =
        filter (\<lambda>e. e_booking e = i \<and> e_kind e = Created) (events d)"
      by (simp add: r(7) log)
    then show ?thesis using r(3) by (simp add: created_event_def)
  qed
  moreover have "pending_consents d' i (b_client (lr_booking row)) = []"
    by (simp add: pending_consents_def r(7))
  ultimately have "confirm_consents i host' agent' d' h = Inl (ApiError 409 ''nothing_to_confirm'')"
    using r(1,2) by (simp add: confirm_consents_def Let_def)
  moreover have "v_pending_consents v = []" by (simp add: r(8) view_of_def Let_def)
  ultimately show ?thesis
    using r log by (intro exI [of _ row] exI [of _ e] exI [of _ version]) simp
qed

end
