(* ===== verification/Money.thy ===== *)
theory Money
  imports Payments BookingLinks
begin

text \<open>
  What the payment handlers of \<open>Payments\<close> keep and owe: whatever Stripe answers they move payments
  only forward, a payment that lands books its checkout once, an ended booking sends back what its
  end owes and no more, and a client gets back what the link showed.
\<close>

section \<open>Two tables in order\<close>

definition money_ok :: "db \<Rightarrow> bool" where
  "money_ok d \<longleftrightarrow> payments_ok d \<and> bookings_ok d"

definition advances :: "db \<Rightarrow> db \<Rightarrow> bool" where
  "advances d d' \<longleftrightarrow> payments_go_on d d' \<and> evolves d d' \<and> money_ok d'"

lemma advances_refl: "money_ok d \<Longrightarrow> advances d d"
  by (simp add: advances_def payments_go_on_same evolves_same)

lemma advances_trans: "advances a b \<Longrightarrow> advances b c \<Longrightarrow> advances a c"
  unfolding advances_def using payments_go_on_trans evolves_trans by blast

lemma advances_ok: "advances d d' \<Longrightarrow> money_ok d'"
  by (simp add: advances_def)

lemma payments_ok_cong:
  "payments_ok d \<Longrightarrow> payments d' = payments d \<Longrightarrow> next_id d \<le> next_id d' \<Longrightarrow> payments_ok d'"
  unfolding payments_ok_def by fastforce

lemma advances_mail: "same_but_mail d d' \<Longrightarrow> money_ok d \<Longrightarrow> advances d d'"
  unfolding advances_def money_ok_def
  using same_but_mailD(1,7,15) [of d d'] bookings_ok_mail payments_ok_cong payments_go_on_same evolves_same
  by metis

lemma advances_log: "same_but_log d d' \<Longrightarrow> money_ok d \<Longrightarrow> advances d d'"
  unfolding advances_def money_ok_def
  using same_but_logD(1,7,16) [of d d'] bookings_ok_log payments_ok_cong payments_go_on_same evolves_same
  by metis

lemma advances_payments:
  "payments_ok d' \<and> payments_go_on d d' \<Longrightarrow> same_but_payments d d' \<Longrightarrow> money_ok d \<Longrightarrow> advances d d'"
  unfolding advances_def money_ok_def
  using same_but_paymentsD(1,2,8) [of d d'] bookings_ok_cong evolves_same by (metis order_refl)

lemma update_bookings_payments:
  "update_bookings d p f = Inr (d', rs) \<Longrightarrow> payments d' = payments d \<and> next_id d' = next_id d"
  by (auto simp: update_bookings_Inr)

lemma advances_bookings:
  assumes "money_ok d" "evolves d d'" "bookings_ok d'" "payments d' = payments d" "next_id d \<le> next_id d'"
  shows "advances d d'"
  using assms payments_ok_cong payments_go_on_same unfolding advances_def money_ok_def by metis

lemma advances_PAID:
  assumes "PAID d i ttl = Inr (d', rs)" "money_ok d"
  shows "advances d d'"
  by (rule advances_bookings [OF assms(2) PAID_evolves(1) [OF assms(1)] PAID_evolves(2) [OF assms(1)]])
    (use assms update_bookings_payments [OF assms(1) [unfolded PAID_def]] in \<open>simp_all add: money_ok_def\<close>)

lemma EXPIRE_ONE_payments:
  assumes "EXPIRE_ONE d i = Inr (d', n)"
  shows "payments d' = payments d" "next_id d \<le> next_id d'"
proof -
  obtain d1 gone where u: "update_bookings d (EXPIRE_ONE_where i) (\<lambda>b. b\<lparr>b_status := Expired\<rparr>) = Inr (d1, gone)"
    "d' = log_all (Became Expired) no_args gone d1"
    using assms by (auto simp: EXPIRE_ONE_def split: sum.splits)
  have log: "same_but_log d1 d'" by (simp add: u(2))
  then show "payments d' = payments d" "next_id d \<le> next_id d'"
    using update_bookings_payments [OF u(1)] same_but_logD(7,16) [OF log] by simp_all
qed

lemma advances_EXPIRE_ONE:
  assumes "EXPIRE_ONE d i = Inr (d', n)" "money_ok d"
  shows "advances d d'"
  by (rule advances_bookings [OF assms(2) EXPIRE_ONE_evolves(1) [OF assms(1)] EXPIRE_ONE_evolves(2) [OF assms(1)]])
    (use assms EXPIRE_ONE_payments [OF assms(1)] in \<open>simp_all add: money_ok_def\<close>)

lemma advances_EXPIRE:
  assumes "EXPIRE d = Inr (d', n)" "money_ok d"
  shows "advances d d'"
proof -
  have ok: "bookings_ok d" using assms(2) by (simp add: money_ok_def)
  obtain d1 gone where u: "update_bookings d (EXPIRE_where d) (\<lambda>b. b\<lparr>b_status := Expired\<rparr>) = Inr (d1, gone)"
    "d' = log_all (Became Expired) no_args gone d1"
    using assms by (auto simp: EXPIRE_def split: sum.splits)
  have log: "same_but_log d1 d'" by (simp add: u(2))
  show ?thesis
    by (rule advances_bookings [OF assms(2) EXPIRE_evolves [OF assms(1)] EXPIRE_same(2) [OF ok assms(1)]])
      (use update_bookings_payments [OF u(1)] same_but_logD(7,16) [OF log] in simp_all)
qed

lemma advances_INSERT:
  assumes "INSERT_PAYMENT d booking kind intent_id amount currency mode fee = Inr (d', stored)" "money_ok d"
  shows "advances d d'"
proof -
  note k = INSERT_PAYMENT_keeps [OF assms(1)]
  have "payments_ok d" "bookings_ok d" using assms(2) by (simp_all add: money_ok_def)
  then show ?thesis
    using k bookings_ok_cong [of d d'] evolves_same [of d' d] by (simp add: advances_def money_ok_def)
qed

lemma settle_job_mail [simp]: "same_but_mail d (settle_job d i why)"
  by (simp add: settle_job_def enqueue_mail)

lemma record_event_log [simp]: "same_but_log d (record_event d i k ds)"
  by (simp add: record_event_def)

lemmas advances_steps = advances_mail advances_log advances_PAID advances_EXPIRE_ONE advances_EXPIRE
  advances_INSERT

lemma advances_MARK:
  "MARK_CHECKED d i by_setup = Inr (d', rs) \<Longrightarrow> money_ok d \<Longrightarrow> advances d d'"
  "MARK_PAID d i = Inr (d', rs) \<Longrightarrow> money_ok d \<Longrightarrow> advances d d'"
  "FILL_FEE d i fee = Inr (d', rs) \<Longrightarrow> money_ok d \<Longrightarrow> advances d d'"
  "MARK_CANCELED d i = Inr (d', rs) \<Longrightarrow> money_ok d \<Longrightarrow> advances d d'"
  "RELEASED d i = Inr (d', rs) \<Longrightarrow> money_ok d \<Longrightarrow> not_open i d \<Longrightarrow> advances d d'"
  "REFUNDED d i due r f = Inr (d', rs) \<Longrightarrow> money_ok d \<Longrightarrow> not_open i d \<Longrightarrow> advances d d'"
  "SET_REFUND_ID d intent_id k = Inr (d', rs) \<Longrightarrow> money_ok d \<Longrightarrow> advances d d'"
  "SET_REFUND_FLAG d intent_id n = Inr (d', rs) \<Longrightarrow> money_ok d \<Longrightarrow> advances d d'"
  using payment_statements payment_statements_only advances_payments unfolding money_ok_def by metis+

section \<open>The transactions advance the tables\<close>

lemma book_live_advances:
  assumes "book_live d i k ds = Inr (d', r)" "money_ok d"
  shows "advances d d'"
proof -
  obtain d1 rows where p: "PAID d i (pending_ttl_hours (settings_of d)) = Inr (d1, rows)"
    using assms(1) by (auto simp: book_live_def split: sum.splits)
  note a = advances_PAID [OF p assms(2)]
  show ?thesis
  proof (cases "first_row rows")
    case None
    then show ?thesis using a assms(1) p by (simp add: book_live_def)
  next
    case (Some b)
    then have d': "d' = announce (record_event d1 i k ds) (b_id b) (b_worker b) (b_status b)
        (b_starts_at b) (now d)"
      using assms(1) p by (simp add: book_live_def)
    have l: "advances d1 (record_event d1 i k ds)"
      by (rule advances_log [OF record_event_log advances_ok [OF a]])
    show ?thesis
      unfolding d'
      by (rule advances_trans [OF a advances_trans [OF l advances_mail [OF announce_mail advances_ok [OF l]]]])
  qed
qed

lemma paid_in_onward:
  assumes "paid_in d row = Inr d'" and m: "MARK_PAID d (p_id row) = Inr (d1, rows)" and "money_ok d"
  shows "advances d1 d'"
proof -
  let ?k = "Amount (p_amount_minor row) (p_currency row)"
  note a = advances_MARK(2) [OF m assms(3)]
  obtain d2 r where b: "book_live d1 (p_booking row) Payment_paid ?k = Inr (d2, r)"
    using assms(1) m by (auto simp: paid_in_def split: sum.splits)
  note b' = book_live_advances [OF b advances_ok [OF a]]
  have "d' = (case r of None \<Rightarrow> settle_job d2 (p_booking row) (Late_payment (p_id row)) | Some _ \<Rightarrow> d2)"
    using assms(1) m b by (auto simp: paid_in_def split: option.splits)
  then have "advances d2 d'"
    using advances_mail [OF settle_job_mail advances_ok [OF b']] advances_refl [OF advances_ok [OF b']]
    by (cases r) simp_all
  then show ?thesis using b' advances_trans by blast
qed

lemma paid_in_advances:
  assumes "paid_in d row = Inr d'" "money_ok d"
  shows "advances d d'"
proof -
  obtain d1 rows where m: "MARK_PAID d (p_id row) = Inr (d1, rows)"
    using assms(1) by (auto simp: paid_in_def split: sum.splits)
  show ?thesis
    by (rule advances_trans [OF advances_MARK(2) [OF m assms(2)] paid_in_onward [OF assms(1) m assms(2)]])
qed

lemma checked_in_onward:
  assumes "checked_in d row st = Inr d'"
    and m: "MARK_CHECKED d (p_id row) (is_type st = Setup_intent) = Inr (d1, rows)" and "money_ok d"
  shows "advances d1 d'"
proof -
  let ?k = "Amount (p_amount_minor row) (p_currency row)" and ?s = "is_type st = Setup_intent"
  note a = advances_MARK(1) [OF m assms(3)]
  let ?d2 = "if ?s then d1 else settle_job d1 (p_booking row) Check_landed"
  have b: "advances d1 ?d2"
    using advances_mail [OF settle_job_mail advances_ok [OF a]] advances_refl [OF advances_ok [OF a]] by simp
  obtain r where c: "book_live ?d2 (p_booking row) Payment_checked ?k = Inr (d', r)"
    using assms(1) m by (auto simp: checked_in_def Let_def split: sum.splits)
  show ?thesis
    by (rule advances_trans [OF b book_live_advances [OF c advances_ok [OF b]]])
qed

lemma checked_in_advances:
  assumes "checked_in d row st = Inr d'" "money_ok d"
  shows "advances d d'"
proof -
  obtain d1 rows where m: "MARK_CHECKED d (p_id row) (is_type st = Setup_intent) = Inr (d1, rows)"
    using assms(1) by (auto simp: checked_in_def Let_def split: sum.splits)
  show ?thesis
    by (rule advances_trans [OF advances_MARK(1) [OF m assms(2)] checked_in_onward [OF assms(1) m assms(2)]])
qed

lemma map_sum_Inr: "map_sum id f x = Inr y \<longleftrightarrow> (\<exists>z. x = Inr z \<and> y = f z)"
  by (cases x) auto

lemma reconcile_write_advances:
  assumes "reconcile_write row st d = Inr (d', u)" "money_ok d"
  shows "advances d d'"
proof -
  obtain current where c: "LOCK_PAYMENT d (p_id row) = Some current"
    using assms(1) by (auto simp: reconcile_write_def split: option.splits)
  let ?fill = "case is_stripe_fee st of None \<Rightarrow> Inr d
      | Some fee \<Rightarrow> map_sum id fst (FILL_FEE d (p_id row) fee)"
  obtain d1 where f: "?fill = Inr d1"
    using assms(1) c by (auto simp: reconcile_write_def split: sum.splits)
  have a: "advances d d1"
    using f advances_MARK(3) [of d "p_id row"] advances_refl [OF assms(2)] assms(2)
    by (auto simp: map_sum_Inr split: option.splits)
  note rest = assms(1) [unfolded reconcile_write_def, simplified c f option.case sum.case]
  consider "d' = d1" | "checked_in d1 row st = Inr d'" | "paid_in d1 row = Inr d'"
    | rs where "MARK_CANCELED d1 (p_id row) = Inr (d', rs)"
    using rest by (auto simp: map_sum_Inr split: if_splits)
  then have "advances d1 d'"
    using advances_refl checked_in_advances paid_in_advances advances_MARK(4) advances_ok [OF a]
    by cases metis+
  then show ?thesis by (rule advances_trans [OF a])
qed

lemma TELL_REFUND_FAILED_log: "TELL_REFUND_FAILED d b r n = (d', told) \<Longrightarrow> same_but_log d d'"
  by (auto simp: TELL_REFUND_FAILED_def Let_def split: if_splits)

lemma mail_refund_failed_mail [simp]: "same_but_mail d (mail_refund_failed d b i)"
  by (simp add: mail_refund_failed_def)

text \<open>What a settled refund leaves of its row: settled, by this run or another.\<close>

definition settled_at :: "uuid \<Rightarrow> db \<Rightarrow> bool" where
  "settled_at i d \<longleftrightarrow> (\<forall>p \<in> set (payments d). p_id p = i \<longrightarrow> p_settled_at p \<noteq> None)"

lemma settled_later:
  assumes "settled_at i d" "advances d d'" "p \<in> set (payments d)" "p_id p = i"
  shows "settled_at i d'"
proof -
  obtain p' where p': "p' \<in> set (payments d')" "goes_on p p'"
    using assms(2,3) by (auto simp: advances_def payments_go_on_def)
  then have "p_id p' = i" "p_settled_at p' \<noteq> None"
    using assms by (auto simp: row_life settled_at_def)
  moreover have "payments_ok d'" using assms(2) by (simp add: advances_def money_ok_def)
  ultimately show ?thesis
    using same_payment [OF _ _ p'(1)] unfolding settled_at_def by metis
qed

lemma REFUNDED_settles:
  assumes "REFUNDED d i due r f = Inr (d', rs)"
  shows "settled_at i d'"
  unfolding settled_at_def
proof (intro ballI impI)
  let ?p = "\<lambda>p. p_id p = i \<and> p_settled_at p = None"
  let ?f = "\<lambda>p. p\<lparr>p_refunded_minor := due, p_refund_id := or_else (p_refund_id p) r,
        p_settled_at := Some (now d), p_stripe_fee := or_else (p_stripe_fee p) f\<rparr>"
  fix p assume p: "p \<in> set (payments d')" "p_id p = i"
  have "payments d' = update_where ?p ?f (payments d)"
    using assms by (simp add: REFUNDED_def update_payments_Inr)
  then have "p \<in> set (update_where ?p ?f (payments d))" using p(1) by simp
  then obtain x where "p = (if ?p x then ?f x else x)" unfolding set_update_where by blast
  then show "p_settled_at p \<noteq> None" using p(2) by (cases "?p x") auto
qed

lemma refund_write_advances:
  assumes w: "refund_write row due rid st held refused d = Inr (d', wrote)"
    and ok: "money_ok d" "not_open (p_id (sr_payment row)) d"
  shows "\<exists>d1 rs. REFUNDED d (p_id (sr_payment row)) due rid (is_stripe_fee st) = Inr (d1, rs) \<and>
    advances d d1 \<and> advances d1 d'"
proof -
  let ?p = "sr_payment row" and ?i = "p_booking (sr_payment row)"
  obtain d1 rs where r: "REFUNDED d (p_id ?p) due rid (is_stripe_fee st) = Inr (d1, rs)"
    using w by (auto simp: refund_write_def Let_def split: sum.splits)
  note a = advances_MARK(6) [OF r ok]
  show ?thesis
  proof (cases rs)
    case Nil
    then have "d' = d1" using w r by (simp add: refund_write_def Let_def)
    then show ?thesis using r a advances_refl [OF advances_ok [OF a]] by blast
  next
    case (Cons x xs)
    let ?e = "if sr_booking_status row = Awaiting_payment then map_sum id fst (EXPIRE_ONE d1 ?i) else Inr d1"
    obtain d2 where e: "?e = Inr d2"
      using w r Cons by (auto simp: refund_write_def Let_def split: sum.splits)
    have b: "advances d1 d2"
      using e advances_EXPIRE_ONE advances_ok [OF a] advances_refl [OF advances_ok [OF a]]
      by (auto simp: map_sum_Inr split: if_splits)
    note rest = w [unfolded refund_write_def Let_def, simplified r Cons e prod.case sum.case list.case]
    have "advances d2 d'"
    proof (cases held)
      case True
      then obtain rs' where "SET_REFUND_FLAG d2 (p_intent ?p) (is_amount_refunded st) = Inr (d', rs')"
        using rest by (auto simp: map_sum_Inr)
      then show ?thesis using advances_MARK(8) advances_ok [OF b] by blast
    next
      case not_held: False
      show ?thesis
      proof (cases refused)
        case True
        obtain d3 rs' where f: "SET_REFUND_FLAG d2 (p_intent ?p) (is_amount_refunded st) = Inr (d3, rs')"
          using rest not_held True by (auto split: sum.splits)
        note c = advances_MARK(8) [OF f advances_ok [OF b]]
        obtain d4 told where t: "TELL_REFUND_FAILED d3 ?i None (due - is_amount_refunded st) = (d4, Some told)"
          "d' = mail_refund_failed d4 ?i told"
          using rest not_held True f by (auto split: prod.splits option.splits)
        note l = advances_log [OF TELL_REFUND_FAILED_log [OF t(1)] advances_ok [OF c]]
        show ?thesis
          unfolding t(2)
          by (rule advances_trans [OF c advances_trans [OF l advances_mail [OF mail_refund_failed_mail
                  advances_ok [OF l]]]])
      next
        case False
        let ?d3 = "record_event d2 ?i Refunded (Amount due (p_currency ?p))"
        note l = advances_log [OF record_event_log [of d2 ?i Refunded "Amount due (p_currency ?p)"]
            advances_ok [OF b]]
        have "d' = d2 \<or> d' = ?d3 \<or> (\<exists>es. d' = fst (email ?d3 ?i ''booking_expired'' None No_suffix es False))"
          using rest not_held False by (auto split: if_splits)
        then show ?thesis
          using advances_refl [OF advances_ok [OF b]] l
            advances_trans [OF l advances_mail [OF email_mail advances_ok [OF l]]] by blast
      qed
    qed
    then show ?thesis using r a advances_trans [OF b] by blast
  qed
qed

lemma refund_changed_write_advances:
  assumes w: "refund_changed_write rid rf intent_id n d = Inr (d', u)" and ok: "money_ok d"
  shows "advances d d'"
proof (cases "READ_PAYMENT d intent_id")
  case None
  then show ?thesis using w advances_refl [OF ok] by (simp add: refund_changed_write_def)
next
  case (Some p)
  let ?t = "TELL_REFUND_FAILED d (p_booking p) (Some rid) (rf_amount rf)"
  let ?s = "SET_REFUND_ID (fst ?t) intent_id rid"
  let ?d3 = "if rf_status rf = ''failed''
     then let (d1, told) = ?t
       in (case SET_REFUND_ID d1 intent_id rid of
             Inl e \<Rightarrow> Inl e
           | Inr (d2, _) \<Rightarrow> Inr (case told of
                None \<Rightarrow> d2 | Some event_id \<Rightarrow> mail_refund_failed d2 (p_booking p) event_id))
     else Inr d"
  obtain d3 where d3: "?d3 = Inr d3"
    using w Some by (auto simp: refund_changed_write_def split: sum.splits)
  have a: "advances d d3"
  proof (cases "rf_status rf = ''failed''")
    case False
    then show ?thesis using d3 advances_refl [OF ok] by simp
  next
    case True
    have l: "advances d (fst ?t)"
      by (rule advances_log [OF TELL_REFUND_FAILED_log [OF prod.collapse [symmetric]] ok])
    obtain d2 rs where s: "?s = Inr (d2, rs)"
      using d3 True by (auto simp: case_prod_unfold Let_def split: sum.splits)
    note b = advances_MARK(7) [OF s advances_ok [OF l]]
    have "d3 = d2 \<or> (\<exists>i. d3 = mail_refund_failed d2 (p_booking p) i)"
      using d3 True s by (auto simp: case_prod_unfold Let_def split: option.splits)
    then have "advances d2 d3"
      using advances_refl [OF advances_ok [OF b]] advances_mail [OF mail_refund_failed_mail advances_ok [OF b]]
      by blast
    then show ?thesis using l b advances_trans by blast
  qed
  obtain rs where "SET_REFUND_FLAG d3 intent_id n = Inr (d', rs)"
    using w Some d3 by (auto simp: refund_changed_write_def map_sum_Inr)
  then show ?thesis
    using advances_MARK(8) [OF _ advances_ok [OF a]] a advances_trans by blast
qed

lemma insert_row_advances:
  assumes "insert_row b intent_id kind fee mode d = Inr (d', u)" "money_ok d"
  shows "advances d d'"
  using assms advances_INSERT unfolding insert_row_def
  by (auto split: sum.splits if_splits prod.splits)

lemma resume_write_advances:
  assumes "resume_write b p kind intent_id fee mode d = Inr (d', gone)" "money_ok d"
  shows "advances d d'"
proof (cases "gone")
  case True
  then have "d' = d" using assms(1) by (auto simp: resume_write_def split: if_splits sum.splits prod.splits)
  then show ?thesis using advances_refl [OF assms(2)] by simp
next
  case False
  then obtain d1 rs stored where m: "MARK_CANCELED d (p_id p) = Inr (d1, rs)"
    "INSERT_PAYMENT d1 (b_id b) kind intent_id (b_price_minor b) (b_price_currency b) mode fee = Inr (d', stored)"
    using assms(1) by (auto simp: resume_write_def split: if_splits sum.splits prod.splits)
  note a = advances_MARK(4) [OF m(1) assms(2)]
  show ?thesis by (rule advances_trans [OF a advances_INSERT [OF m(2) advances_ok [OF a]]])
qed

lemma abandon_write_advances:
  assumes "abandon_write i p d = Inr (d', u)" "money_ok d"
  shows "advances d d'"
proof -
  obtain d1 n where e: "EXPIRE_ONE d i = Inr (d1, n)"
    using assms(1) by (auto simp: abandon_write_def split: sum.splits)
  note a = advances_EXPIRE_ONE [OF e assms(2)]
  have n: "n \<noteq> 0" using assms(1) e by (cases n) (auto simp: abandon_write_def)
  show ?thesis
  proof (cases p)
    case None
    then show ?thesis using assms(1) e n a by (cases n) (auto simp: abandon_write_def)
  next
    case (Some q)
    then have "\<exists>rs. MARK_CANCELED d1 (p_id q) = Inr (d', rs)"
      using assms(1) e n by (cases n) (auto simp: abandon_write_def map_sum_Inr)
    then show ?thesis
      using advances_trans [OF a advances_MARK(4) [OF _ advances_ok [OF a]]] by blast
  qed
qed

lemma enqueue_unsettled_mail [simp]: "same_but_mail d (enqueue_unsettled clock d)"
  unfolding enqueue_unsettled_def by (rule fold_mail) auto

lemma settle_ended_mail [simp]: "same_but_mail d (settle_ended ids d)"
  unfolding settle_ended_def by (rule fold_mail) simp

section \<open>Whatever Stripe answers\<close>

text \<open>
  A program is steady when, from tables in order, each of its transactions leaves them in order and
  moved on, whatever other requests did since the one before, as long as that moved them on too, and
  whatever Stripe answered. \<open>I\<close> is what it knows of the tables when it starts.
\<close>

primrec steadily :: "('s, 'a) program \<Rightarrow> (db \<Rightarrow> bool) \<Rightarrow> bool" where
  "steadily (Return r) = (\<lambda>I. True)"
| "steadily (Transaction f k) =
     (\<lambda>I. \<forall>d. I d \<longrightarrow> money_ok d \<longrightarrow> advances d (f d) \<and> steadily (k d) (advances (f d)))"
| "steadily (Call c k) = (\<lambda>I. \<forall>s. steadily (k s) I)"

definition steady :: "(db \<Rightarrow> bool) \<Rightarrow> ('s, 'a) program \<Rightarrow> bool" where
  "steady I p \<longleftrightarrow> steadily p I"

lemma steady_simps [simp]:
  "steady I (Return r)"
  "steady I (Transaction f k) \<longleftrightarrow>
     (\<forall>d. I d \<longrightarrow> money_ok d \<longrightarrow> advances d (f d) \<and> steady (advances (f d)) (k d))"
  "steady I (Call c k') \<longleftrightarrow> (\<forall>s. steady I (k' s))"
  by (simp_all add: steady_def)

lemma steady_antimono: "steady J p \<Longrightarrow> (\<And>d. I d \<Longrightarrow> J d) \<Longrightarrow> steady I p"
proof (induction p arbitrary: I J)
  case (Call c k)
  then show ?case by (metis rangeI steady_simps(3))
qed auto

lemma steady_weaken: "steady (\<lambda>_. True) p \<Longrightarrow> steady I p"
  by (rule steady_antimono) simp_all

lemma steady_onward: "steady (advances d) p \<Longrightarrow> advances d d' \<Longrightarrow> steady (advances d') p"
  by (erule steady_antimono) (rule advances_trans)

definition lasting :: "(db \<Rightarrow> bool) \<Rightarrow> bool" where
  "lasting I \<longleftrightarrow> (\<forall>d d'. I d \<longrightarrow> advances d d' \<longrightarrow> I d')"

lemma lasting_after: "lasting (advances d)" "lasting (\<lambda>_. True)"
  by (auto simp: lasting_def intro: advances_trans)

named_theorems steadies \<open>programs that keep the tables in order\<close>

lemma steady_give [steadies]: "steady I (give a)"
  by (simp add: give_def)

lemma steady_fail [steadies]: "steady I (fail e)"
  by (simp add: fail_def)

lemma steady_attempt:
  assumes "lasting I" "steady I p" "\<And>r. steady I (q r)"
  shows "steady I (attempt p q)"
  using assms
proof (induction p arbitrary: I)
  case (Transaction f k)
  have "steady (advances (f d)) (attempt (k d) q)" if d: "I d" "money_ok d" for d
  proof (rule Transaction.IH [OF rangeI lasting_after(1)])
    have a: "advances d (f d)" and k: "steady (advances (f d)) (k d)"
      using Transaction.prems(2) d by simp_all
    show "steady (advances (f d)) (k d)" by (rule k)
    have "I d'" if "advances (f d) d'" for d'
      using Transaction.prems(1) d(1) advances_trans [OF a that] unfolding lasting_def by blast
    then show "steady (advances (f d)) (q r)" for r
      using Transaction.prems(3) steady_antimono by blast
  qed
  then show ?case using Transaction.prems(2) by simp
next
  case (Call c k)
  then show ?case by simp
qed simp

lemma steady_then:
  assumes "lasting I" "steady I p" "\<And>a. steady I (q a)"
  shows "steady I (and_then p q)"
  unfolding and_then_def
  by (rule steady_attempt [OF assms(1,2)]) (simp add: assms(3) steady_fail split: sum.split)

lemma steady_asking:
  assumes "\<And>r. steady I (k r)"
  shows "steady I (asking call k)"
  using assms by (simp add: asking_def)

lemma steady_ask:
  assumes "\<And>a. steady I (k a)"
  shows "steady I (ask call k)"
  unfolding ask_def by (rule steady_asking) (auto simp: assms steady_fail split: sum.split)

lemma steady_read:
  assumes "\<And>d. I d \<Longrightarrow> money_ok d \<Longrightarrow> steady (advances d) (q d)"
  shows "steady I (read_db q)"
  using assms by (simp add: read_db_def advances_refl)

lemma steady_transaction:
  assumes "\<And>d d' a. I d \<Longrightarrow> money_ok d \<Longrightarrow> f d = Inr (d', a) \<Longrightarrow> advances d d'"
  shows "steady I (transaction f)"
  using assms by (auto simp: transaction_def advances_refl split: sum.split)

lemma steady_or_unavailable: "lasting I \<Longrightarrow> steady I p \<Longrightarrow> steady I (or_unavailable p)"
  unfolding or_unavailable_def
  by (rule steady_attempt) (auto split: sum.split intro: steadies)

lemma steady_best_effort: "lasting I \<Longrightarrow> steady I p \<Longrightarrow> steady I (best_effort p)"
  unfolding best_effort_def by (rule steady_attempt) (auto intro: steadies)

lemma steady_reconcile [steadies]: "steady I (reconcile gw i)"
  unfolding reconcile_def
  by (rule steady_read)
    (auto split: option.split intro!: steadies steady_ask steady_then lasting_after steady_transaction
      intro: reconcile_write_advances)

lemma steady_write:
  assumes "\<And>d d' rs. I d \<Longrightarrow> money_ok d \<Longrightarrow> f d = Inr (d', rs) \<Longrightarrow> advances d d'"
  shows "steady I (write_settled f)"
  unfolding write_settled_def using assms by (auto intro!: steady_transaction simp: map_sum_Inr)

lemma steady_refund_changed [steadies]: "steady I (refund_changed gw r)"
  unfolding refund_changed_def
  by (rule steady_read)
    (auto split: option.split intro!: steadies steady_ask steady_transaction
      intro: refund_changed_write_advances)

text \<open>A row that settle read as past open.\<close>

definition read_past_open :: "db \<Rightarrow> settle_row \<Rightarrow> bool" where
  "read_past_open d row \<longleftrightarrow> sr_payment row \<in> set (payments d) \<and> p_status (sr_payment row) \<noteq> Open"

lemma still_past_open:
  "read_past_open d row \<Longrightarrow> advances d d' \<Longrightarrow> not_open (p_id (sr_payment row)) d'"
  using not_open_later by (auto simp: read_past_open_def advances_def money_ok_def)

lemma steady_refund_record:
  assumes "read_past_open d row"
  shows "steady (advances d) (refund_record gw row due r st held refused)"
  unfolding refund_record_def
  by (rule steady_then [OF lasting_after(1)])
    (auto split: option.split intro!: steadies steady_transaction
      dest: refund_write_advances intro: still_past_open [OF assms] advances_trans)

lemma steady_refund_payment:
  assumes "read_past_open d row"
  shows "steady (advances d) (refund_payment gw row)"
  unfolding refund_payment_def Let_def
  by (auto split: option.split sum.split failure.split if_split
      intro!: steadies steady_ask steady_asking steady_refund_record [OF assms])

lemma SETTLE_ROWS_read:
  assumes "row \<in> set (SETTLE_ROWS d i)"
  obtains b where "sr_payment row \<in> set (payments d)" "b \<in> set (bookings d)"
    "b_id b = p_booking (sr_payment row)" "p_booking (sr_payment row) = i"
    "p_settled_at (sr_payment row) = None" "row = settle_row_of d (sr_payment row) b"
  using assms that by (auto simp: SETTLE_ROWS_def settle_row_of_def Let_def split: if_splits)

lemma steady_settle_one:
  assumes "sr_payment row \<in> set (payments d)"
  shows "steady (advances d) (settle_one gw final row)"
proof -
  have past: "read_past_open d row" if "p_status (sr_payment row) \<noteq> Open"
    using assms that by (simp add: read_past_open_def)
  have rel: "advances da d'" if "p_status (sr_payment row) = Checked" "advances d da" "money_ok da"
    "RELEASED da (p_id (sr_payment row)) = Inr (d', rs)" for da d' rs
    using advances_MARK(5) [OF that(4,3)] still_past_open [OF past that(2)] that(1) by simp
  show ?thesis
    unfolding settle_one_def Let_def
    by (auto intro!: steadies steady_ask steady_then lasting_after steady_write steady_refund_payment past
        intro: advances_MARK(4) rel)
qed

lemma steady_settle_each:
  "(\<And>row. row \<in> set rows \<Longrightarrow> sr_payment row \<in> set (payments d)) \<Longrightarrow>
   steady (advances d) (settle_each gw final rows)"
  by (induction rows) (auto intro!: steadies steady_then lasting_after steady_settle_one)

lemma steady_settle_pass [steadies]: "steady I (settle_pass gw final i)"
  unfolding settle_pass_def
  by (rule steady_read, rule steady_settle_each) (auto elim: SETTLE_ROWS_read)

lemma steady_settle [steadies]: "steady (\<lambda>_. True) (settle gw ready i)"
  unfolding settle_def by (auto intro!: steadies steady_then lasting_after)

lemma steady_create [steadies]: "steady I (create_intent gw kind account b n)"
  unfolding create_intent_def Let_def
  by (rule steady_read) (auto intro!: steadies steady_ask)

lemma steady_give_back [steadies]: "steady I (give_back_hold i)"
  unfolding give_back_hold_def
  by (rule steady_weaken, rule steady_best_effort [OF lasting_after(2)], rule steady_transaction) (auto simp: map_sum_Inr intro: advances_EXPIRE_ONE)


lemma steady_insert_row: "steady I (transaction (insert_row b i kind fee mode))"
  by (rule steady_transaction) (rule insert_row_advances)

lemma steady_start_payment [steadies]: "steady I (start_payment gw account b kind)"
  unfolding start_payment_def
  by (rule steady_weaken, rule steady_attempt [OF lasting_after(2) steady_create])
    (auto split: sum.split prod.split
      intro!: steadies steady_then steady_attempt lasting_after steady_insert_row)

lemma steady_orphan [steadies]: "steady I (orphan gw account i)"
  unfolding orphan_def by (auto intro!: steadies steady_asking)

lemma steady_look_again [steadies]: "steady I (look_again gw i)"
  unfolding look_again_def
  by (rule steady_weaken) (auto intro!: steadies steady_then lasting_after)

lemma steady_sync [steadies]: "steady I (sync_payment gw secret_ok i)"
  unfolding sync_payment_def
  by (rule steady_read)
    (auto split: option.split prod.split
      intro!: steadies steady_then lasting_after steady_or_unavailable steady_read)

lemma steady_resume_open [steadies]: "steady I (resume_open gw account b p switching)"
  unfolding resume_open_def by (auto intro!: steadies steady_ask)

lemma steady_resume_write: "steady I (transaction (resume_write b p kind i fee mode))"
  by (rule steady_transaction) (rule resume_write_advances)

lemma steady_resume_beaten [steadies]: "steady I (resume_beaten gw secret_ok account b kind switching made)"
  unfolding resume_beaten_def Let_def
  by (rule steady_read)
    (auto split: option.split prod.split
      intro!: steadies steady_then lasting_after steady_or_unavailable steady_ask)

lemma steady_resume [steadies]: "steady I (resume_payment gw configured secret_ok contended i kind)"
  unfolding resume_payment_def Let_def
  by (rule steady_read, split option.split, intro conjI allI impI steady_fail)
    (auto split: option.split prod.split sum.split intro!: steadies steady_then lasting_after
      steady_or_unavailable steady_attempt steady_resume_write)

lemma steady_abandon [steadies]: "steady I (abandon_payment gw secret_ok i)"
  unfolding abandon_payment_def Let_def
  by (rule steady_read)
    (auto split: option.split prod.split intro!: steadies steady_then lasting_after steady_or_unavailable
      steady_ask steady_transaction intro: abandon_write_advances)

text \<open>What leaves bookings and payments alone.\<close>

lemma advances_same:
  "bookings d' = bookings d \<Longrightarrow> payments d' = payments d \<Longrightarrow> memberships d' = memberships d \<Longrightarrow>
     next_id d \<le> next_id d' \<Longrightarrow> money_ok d \<Longrightarrow> advances d d'"
  using advances_bookings [of d d'] evolves_same [of d' d] bookings_ok_cong [of d d']
  by (simp add: money_ok_def)

lemma steady_refresh [steadies]: "steady I (refresh_account gw)"
  unfolding refresh_account_def
  by (rule steady_read)
    (auto split: option.split intro!: steadies steady_ask steady_transaction advances_same)

lemma steady_read_account [steadies]: "steady I (read_account gw configured limited)"
  unfolding read_account_def Let_def
  by (rule steady_read)
    (auto split: option.split sum.split intro!: steadies steady_asking steady_then lasting_after
      steady_transaction advances_same)

lemma steady_connect [steadies]: "steady I (connect_account gw configured limited host url current)"
proof -
  have w: "steady J (transaction (connect_write user account currency))" for J user account currency
    by (rule steady_transaction)
      (auto simp: connect_write_def record_audit_def split: option.splits if_splits intro!: advances_same)
  show ?thesis
    unfolding connect_account_def
    by (rule steady_read)
      (auto split: option.split sum.split intro!: steadies steady_or_unavailable steady_then lasting_after
        steady_ask steady_asking steady_attempt w)
qed

lemma steady_handle_event [steadies]: "steady I (handle_event gw ready kind object_id)"
proof -
  have "steady (\<lambda>_. True) (handle_event gw ready kind object_id)"
    unfolding handle_event_def
    by (auto split: option.split intro!: steadies steady_then lasting_after)
  then show ?thesis by (rule steady_weaken)
qed

lemma sweep_business_advances:
  assumes "sweep_business clock d = Inr (d', n)" "money_ok d"
  shows "advances d d'"
proof -
  obtain d1 where e: "EXPIRE d = Inr (d1, n)" "d' = SWEEP_HOLDS (enqueue_unsettled clock d1)"
    using assms(1) by (auto simp: sweep_business_def split: sum.splits)
  note a = advances_EXPIRE [OF e(1) assms(2)]
  note b = advances_mail [OF enqueue_unsettled_mail advances_ok [OF a], of clock]
  have "advances (enqueue_unsettled clock d1) d'"
    unfolding e(2) by (rule advances_same) (simp_all add: SWEEP_HOLDS_def advances_ok [OF b])
  then show ?thesis by (rule advances_trans [OF a advances_trans [OF b]])
qed
end
