(* ===== verification/Refunds.thy ===== *)
theory Refunds
  imports Money
begin

text \<open>
  What the settle job does when nothing interrupts it, and what the sweep leaves to it: an ended
  booking sends back what its end owes and no more, nothing of it stays unsettled, and the client gets
  what the link showed.
\<close>

section \<open>Stripe's count\<close>

text \<open>
  What a theorem on amounts assumes of Stripe, as its API documents: \<open>sent s i\<close> is what intent \<open>i\<close> has
  had refunded. A refund adds no more than was asked for and touches no other intent; nothing else
  sends money back, and an intent reports its own count.
\<close>

definition refunds_add_up :: "'s gateway \<Rightarrow> ('s \<Rightarrow> string \<Rightarrow> int) \<Rightarrow> bool" where
  "refunds_add_up gw sent \<longleftrightarrow>
     (\<forall>a i s. sent (fst (retrieve_intent gw a i s)) = sent s) \<and>
     (\<forall>a i s st. snd (retrieve_intent gw a i s) = Inr st \<longrightarrow> is_amount_refunded st = sent s i) \<and>
     (\<forall>a i n fee key s j. sent (fst (refund_intent gw a i n fee key s)) j = sent s j \<or>
        j = i \<and> sent (fst (refund_intent gw a i n fee key s)) i \<le> sent s i + n) \<and>
     (\<forall>a r s. sent (fst (retrieve_refund gw a r s)) = sent s) \<and>
     (\<forall>a i s. sent (fst (cancel_intent gw a i s)) = sent s)"

text \<open>A program none of whose calls sends money back.\<close>

primrec sends_nothing :: "('s, 'a) program \<Rightarrow> ('s \<Rightarrow> string \<Rightarrow> int) \<Rightarrow> bool" where
  "sends_nothing (Return r) = (\<lambda>sent. True)"
| "sends_nothing (Transaction f k) = (\<lambda>sent. \<forall>d. sends_nothing (k d) sent)"
| "sends_nothing (Call c k) = (\<lambda>sent. \<forall>s. sent (c s) = sent s \<and> sends_nothing (k s) sent)"

lemma sends_nothing_perform:
  "sends_nothing p sent \<Longrightarrow> sent (fst (fst (perform p w))) = sent (fst w)"
  by (induction p arbitrary: w) auto

named_theorems spending \<open>programs that send nothing back\<close>

lemma sends_nothing_simple [spending]:
  "sends_nothing (give a) sent" "sends_nothing (fail e) sent" "sends_nothing (transaction f) sent"
  by (simp_all add: give_def fail_def transaction_def)

lemma sends_nothing_attempt:
  "sends_nothing p sent \<Longrightarrow> (\<And>r. sends_nothing (q r) sent) \<Longrightarrow> sends_nothing (attempt p q) sent"
  by (induction p) auto

lemma sends_nothing_then:
  "sends_nothing p sent \<Longrightarrow> (\<And>a. sends_nothing (q a) sent) \<Longrightarrow> sends_nothing (and_then p q) sent"
  unfolding and_then_def by (rule sends_nothing_attempt) (auto split: sum.split intro: spending)

lemma sends_nothing_read: "(\<And>d. sends_nothing (q d) sent) \<Longrightarrow> sends_nothing (read_db q) sent"
  by (simp add: read_db_def)

lemma sends_nothing_ask:
  "(\<And>s. sent (fst (call s)) = sent s) \<Longrightarrow> (\<And>a. sends_nothing (k a) sent) \<Longrightarrow> sends_nothing (ask call k) sent"
  by (auto simp: ask_def asking_def fail_def split: sum.split)

lemma lawD:
  assumes "refunds_add_up gw sent"
  shows "sent (fst (retrieve_intent gw a i s)) = sent s" "sent (fst (retrieve_refund gw a r s)) = sent s"
    "sent (fst (cancel_intent gw a i s)) = sent s"
    "snd (retrieve_intent gw a i s) = Inr st \<Longrightarrow> is_amount_refunded st = sent s i"
    "j \<noteq> i \<Longrightarrow> sent (fst (refund_intent gw a i n fee key s)) j = sent s j"
    "sent (fst (refund_intent gw a i n fee key s)) i \<le> sent s i + n \<or>
       sent (fst (refund_intent gw a i n fee key s)) i = sent s i"
proof -
  show "j \<noteq> i \<Longrightarrow> sent (fst (refund_intent gw a i n fee key s)) j = sent s j"
    "sent (fst (refund_intent gw a i n fee key s)) i \<le> sent s i + n \<or>
       sent (fst (refund_intent gw a i n fee key s)) i = sent s i"
    using assms unfolding refunds_add_up_def by blast+
qed (use assms in \<open>simp_all add: refunds_add_up_def\<close>)

lemmas spends = sends_nothing_attempt sends_nothing_then sends_nothing_read sends_nothing_ask

lemma reconcile_sends_nothing:
  assumes "refunds_add_up gw sent"
  shows "sends_nothing (reconcile gw i) sent"
  unfolding reconcile_def
  by (rule sends_nothing_read)
    (auto split: option.split intro!: spends spending simp: lawD [OF assms])

lemma refund_changed_sends_nothing:
  assumes "refunds_add_up gw sent"
  shows "sends_nothing (refund_changed gw r) sent"
  unfolding refund_changed_def
  by (rule sends_nothing_read)
    (auto split: option.split intro!: spends spending simp: lawD [OF assms])

lemma refund_record_sends_nothing:
  assumes "refunds_add_up gw sent"
  shows "sends_nothing (refund_record gw row due r st held refused) sent"
  unfolding refund_record_def
  by (rule sends_nothing_then)
    (auto split: option.split intro!: spending refund_changed_sends_nothing [OF assms])

text \<open>What one row's refund sends: what the end owes less what went already.\<close>

definition sends_at_most :: "('s \<Rightarrow> string \<Rightarrow> int) \<Rightarrow> 's \<Rightarrow> 's \<Rightarrow> settle_row \<Rightarrow> bool" where
  "sends_at_most sent s s' row \<longleftrightarrow>
     (\<forall>j. j \<noteq> p_intent (sr_payment row) \<longrightarrow> sent s' j = sent s j) \<and>
     (sent s' (p_intent (sr_payment row)) = sent s (p_intent (sr_payment row)) \<or>
      p_status (sr_payment row) = Paid \<and> sr_ending row \<in> set REFUNDING \<and>
      (\<exists>pct. owed_pct row = Some pct \<and>
         sent s' (p_intent (sr_payment row)) \<le> p_amount_minor (sr_payment row) * pct div 100))"

lemma sends_at_most_same: "sent s' = sent s \<Longrightarrow> sends_at_most sent s s' row"
  by (simp add: sends_at_most_def)

lemma refund_payment_sends:
  assumes law: "refunds_add_up gw sent" and paid: "p_status (sr_payment row) = Paid" "sr_ending row \<in> set REFUNDING"
  shows "sends_at_most sent s (fst (fst (perform (refund_payment gw row) (s, d)))) row"
proof -
  let ?p = "sr_payment row" and ?a = "sr_account row"
  obtain s1 r where q: "retrieve_intent gw ?a (p_intent ?p) s = (s1, r)" by fastforce
  have s1: "sent s1 = sent s" using lawD(1) [OF law, of ?a "p_intent ?p" s] q by simp
  note rec = sends_nothing_perform [OF refund_record_sends_nothing [OF law]]
  show ?thesis
  proof (cases r)
    case (Inl e)
    then show ?thesis
      by (intro sends_at_most_same) (simp add: refund_payment_def Let_def perform_ask q s1)
  next
    case (Inr st)
    have st: "is_amount_refunded st = sent s (p_intent ?p)"
      using lawD(4) [OF law] q Inr by (metis snd_conv)
    show ?thesis
    proof (cases "owed_pct row")
      case None
      then show ?thesis
        by (intro sends_at_most_same) (simp add: refund_payment_def Let_def perform_ask q Inr s1)
    next
      case (Some pct)
      let ?due = "p_amount_minor ?p * pct div 100"
      let ?n = "?due - is_amount_refunded st" and ?k = "Refund_key (p_id ?p)"
      obtain s2 r2 where f: "refund_intent gw ?a (p_intent ?p) ?n (fee_back row) ?k s1 = (s2, r2)"
        by fastforce
      have "sent s2 j = sent s1 j" if "j \<noteq> p_intent ?p" for j
        using lawD(5) [OF law that, of ?a ?n "fee_back row" ?k s1] unfolding f by simp
      moreover have "sent s2 (p_intent ?p) \<le> sent s1 (p_intent ?p) + ?n \<or>
          sent s2 (p_intent ?p) = sent s1 (p_intent ?p)"
        using lawD(6) [OF law, of ?a "p_intent ?p" ?n "fee_back row" ?k s1] unfolding f by simp
      ultimately have sent2: "sends_at_most sent s s2 row"
        using Some paid by (auto simp: sends_at_most_def s1 st)
      have moved: "sends_at_most sent s s3 row" if "sent s3 = sent s2" for s3
        using sent2 that by (simp add: sends_at_most_def)
      show ?thesis
      proof (cases "is_amount_refunded st < ?due \<and> \<not> held_back row ?due st")
        case True
        have eq: "perform (refund_payment gw row) (s, d) = perform (case r2 of
              Inr refund_id \<Rightarrow> refund_record gw row ?due (Some refund_id) st False False
            | Inl Invalid \<Rightarrow> ask (retrieve_intent gw ?a (p_intent ?p)) (\<lambda>st'.
                refund_record gw row ?due None st' False (is_amount_refunded st' < ?due))
            | Inl _ \<Rightarrow> fail FAILED) (s2, d)"
          using True by (simp add: refund_payment_def Let_def perform_ask perform_asking q Inr Some
              refund_due_known f)
        have "sends_nothing (case r2 of
              Inr refund_id \<Rightarrow> refund_record gw row ?due (Some refund_id) st False False
            | Inl Invalid \<Rightarrow> ask (retrieve_intent gw ?a (p_intent ?p)) (\<lambda>st'.
                refund_record gw row ?due None st' False (is_amount_refunded st' < ?due))
            | Inl _ \<Rightarrow> fail FAILED) sent"
          by (auto split: sum.split failure.split intro!: spends spending
              refund_record_sends_nothing [OF law] simp: lawD [OF law])
        then show ?thesis unfolding eq by (intro moved) (simp add: sends_nothing_perform)
      next
        case False
        then have "perform (refund_payment gw row) (s, d) =
            perform (refund_record gw row ?due None st (held_back row ?due st) False) (s1, d)"
          by (auto simp: refund_payment_def Let_def perform_ask q Inr Some refund_due_known)
        then show ?thesis by (intro sends_at_most_same) (simp add: rec s1)
      qed
    qed
  qed
qed

lemma settle_one_sends:
  assumes law: "refunds_add_up gw sent"
  shows "sends_at_most sent s (fst (fst (perform (settle_one gw final row) (s, d)))) row"
proof (cases "p_status (sr_payment row) = Paid \<and> sr_ending row \<in> set REFUNDING")
  case True
  then have "settle_one gw final row = and_then (refund_payment gw row) (\<lambda>_. give False)"
    by (simp add: settle_one_def)
  then show ?thesis
    using refund_payment_sends [OF law, of row s d] True
    by (auto simp: perform_then split: prod.split sum.split)
next
  case False
  have "sends_nothing (settle_one gw final row) sent"
    using False unfolding settle_one_def Let_def write_settled_def
    by (auto intro!: spends spending reconcile_sends_nothing [OF law] simp: lawD [OF law])
  then show ?thesis by (intro sends_at_most_same) (simp add: sends_nothing_perform)
qed

text \<open>An unsettled payment is the only one of its booking, so a pass has one row at most.\<close>

lemma SETTLE_ROWS_one:
  assumes "money_ok d" "row \<in> set (SETTLE_ROWS d i)"
  shows "SETTLE_ROWS d i = [row]"
proof -
  have pay: "payments_ok d" and "distinct (map b_id (bookings d))"
    using assms(1) by (simp_all add: money_ok_def bookings_ok_def)
  obtain b where r: "sr_payment row \<in> set (payments d)" "b \<in> set (bookings d)"
    "b_id b = p_booking (sr_payment row)" "p_booking (sr_payment row) = i"
    "p_settled_at (sr_payment row) = None" "row = settle_row_of d (sr_payment row) b"
    by (rule SETTLE_ROWS_read [OF assms(2)])
  let ?p = "sr_payment row"
  have dp: "distinct (payments d)" and db: "distinct (bookings d)"
    using pay \<open>distinct (map b_id (bookings d))\<close> by (auto simp: payments_ok_def distinct_map)
  have "filter (\<lambda>p. p_booking p = i \<and> p_settled_at p = None) (payments d) = [?p]"
    by (rule filter_one [OF dp r(1)]) (use one_unsettled [OF pay _ r(1)] r(4,5) in auto)
  moreover have "filter (\<lambda>b. b_id b = i) (bookings d) = [b]"
    by (rule filter_one [OF db r(2)])
      (use r(2-4) \<open>distinct (map b_id (bookings d))\<close> in \<open>auto simp: distinct_map dest: inj_onD\<close>)
  moreover have "SETTLE_ROWS d i = [settle_row_of d p b.
      p \<leftarrow> filter (\<lambda>p. p_booking p = i \<and> p_settled_at p = None) (payments d),
      b \<leftarrow> filter (\<lambda>b. b_id b = i) (bookings d)]"
  proof -
    have inner: "concat (map (\<lambda>b. if b_id b = p_booking p then if p_booking p = i
        then if p_settled_at p = None then [settle_row_of d p b] else [] else [] else []) bs) =
      (if p_booking p = i \<and> p_settled_at p = None
       then map (settle_row_of d p) (filter (\<lambda>b. b_id b = i) bs) else [])" for p bs
      by (induction bs) auto
    have "concat (map (\<lambda>p. if p_booking p = i \<and> p_settled_at p = None
        then map (settle_row_of d p) bs else []) ps) =
      concat (map (\<lambda>p. map (settle_row_of d p) bs)
        (filter (\<lambda>p. p_booking p = i \<and> p_settled_at p = None) ps))" for ps bs
      by (induction ps) auto
    then show ?thesis unfolding SETTLE_ROWS_def inner by (simp add: map_eq_conv)
  qed
  ultimately show ?thesis using r(6) by simp
qed

lemma perform_steady:
  "steady I p \<Longrightarrow> I d \<Longrightarrow> money_ok d \<Longrightarrow> advances d (snd (fst (perform p (s, d))))"
proof (induction p arbitrary: I s d)
  case (Transaction f k)
  then have a: "advances d (f d)" and k: "steady (advances (f d)) (k d)" by simp_all
  have "advances (f d) (snd (fst (perform (k d) (s, f d))))"
    by (rule Transaction.IH [OF rangeI k advances_refl [OF advances_ok [OF a]] advances_ok [OF a]])
  then show ?case using advances_trans [OF a] by simp
next
  case (Call c k)
  then show ?case by (metis perform.simps(3) fst_conv snd_conv rangeI steady_simps(3))
qed (simp add: advances_refl)

section \<open>One pass, and both\<close>

definition sent_as_owed :: "('s \<Rightarrow> string \<Rightarrow> int) \<Rightarrow> 's \<Rightarrow> 's \<Rightarrow> db \<Rightarrow> uuid \<Rightarrow> string \<Rightarrow> bool" where
  "sent_as_owed sent s s' d i j \<longleftrightarrow> sent s' j = sent s j \<or>
     (\<exists>d1 row. advances d d1 \<and> row \<in> set (SETTLE_ROWS d1 i) \<and> j = p_intent (sr_payment row) \<and>
        p_status (sr_payment row) = Paid \<and> sr_ending row \<in> set REFUNDING \<and>
        (\<exists>pct. owed_pct row = Some pct \<and> sent s' j \<le> p_amount_minor (sr_payment row) * pct div 100))"

lemma settle_pass_run:
  assumes "money_ok d"
  shows "SETTLE_ROWS d i = [] \<and> perform (settle_pass gw final i) (s, d) = ((s, d), Inr False) \<or>
    (\<exists>row. SETTLE_ROWS d i = [row] \<and>
       perform (settle_pass gw final i) (s, d) = perform (settle_one gw final row) (s, d))"
proof (cases "SETTLE_ROWS d i")
  case Nil
  then show ?thesis by (simp add: settle_pass_def)
next
  case (Cons row rows)
  then have one: "SETTLE_ROWS d i = [row]" by (intro SETTLE_ROWS_one [OF assms]) simp
  have "perform (settle_pass gw final i) (s, d) = perform (settle_one gw final row) (s, d)"
    by (auto simp: settle_pass_def one perform_then split: prod.split sum.split)
  then show ?thesis using one by blast
qed

lemma settle_pass_sends:
  assumes law: "refunds_add_up gw sent" and ok: "money_ok d"
  shows "sent_as_owed sent s (fst (fst (perform (settle_pass gw final i) (s, d)))) d i j"
  using settle_pass_run [OF ok, of i gw final s]
proof (elim disjE exE conjE)
  fix row assume r: "SETTLE_ROWS d i = [row]"
    "perform (settle_pass gw final i) (s, d) = perform (settle_one gw final row) (s, d)"
  show ?thesis
    using settle_one_sends [OF law, of s final row d] advances_refl [OF ok] r(1)
    unfolding r(2) sent_as_owed_def sends_at_most_def by (metis list.set_intros(1))
qed (simp add: sent_as_owed_def)

lemma sent_as_owed_trans:
  assumes "sent_as_owed sent s s1 d i j" "sent_as_owed sent s1 s2 d1 i j" "advances d d1"
  shows "sent_as_owed sent s s2 d i j"
proof (cases "sent s2 j = sent s1 j")
  case True
  then show ?thesis using assms(1) by (simp add: sent_as_owed_def)
next
  case False
  then obtain d2 row pct where w: "advances d1 d2" "row \<in> set (SETTLE_ROWS d2 i)" "j = p_intent (sr_payment row)"
    "p_status (sr_payment row) = Paid" "sr_ending row \<in> set REFUNDING" "owed_pct row = Some pct"
    "sent s2 j \<le> p_amount_minor (sr_payment row) * pct div 100"
    using assms(2) unfolding sent_as_owed_def by blast
  then show ?thesis using advances_trans [OF assms(3) w(1)] unfolding sent_as_owed_def by blast
qed

lemma settle_run:
  "perform (settle gw True i) w = (case perform (settle_pass gw False i) w of
     (w1, Inl e) \<Rightarrow> (w1, Inl e)
   | (w1, Inr again) \<Rightarrow> if \<not> again then (w1, Inr ())
       else (case perform (settle_pass gw True i) w1 of (w2, Inl e) \<Rightarrow> (w2, Inl e) | (w2, Inr _) \<Rightarrow> (w2, Inr ())))"
  by (auto simp: settle_def perform_then split: prod.split sum.split)

lemma settle_pass_advances:
  "money_ok d \<Longrightarrow> advances d (snd (fst (perform (settle_pass gw final i) (s, d))))"
  by (rule perform_steady [OF steady_settle_pass]) simp_all


section \<open>Nothing is left\<close>

text \<open>The row of a pass, once its booking has ended.\<close>

lemma ended_row:
  assumes "row \<in> set (SETTLE_ROWS d i)" "money_ok d" "b \<in> set (bookings d)" "b_id b = i" "b_status b \<in> set REFUNDING"
  shows "\<not> sr_live row" "sr_ending row \<in> set REFUNDING"
proof -
  obtain b' where r0: "sr_payment row \<in> set (payments d)" "b' \<in> set (bookings d)"
    "b_id b' = p_booking (sr_payment row)" "p_booking (sr_payment row) = i"
    "p_settled_at (sr_payment row) = None" "row = settle_row_of d (sr_payment row) b'"
    by (rule SETTLE_ROWS_read [OF assms(1)])
  note r = r0(2-4,6)
  have "b' = b"
    using assms(2-4) r(1-3) by (auto simp: money_ok_def bookings_ok_def distinct_map dest: inj_onD)
  then have "sr_live row = (b_status b = Awaiting_payment \<and> unexpired d b)"
    by (subst r(4)) (simp add: settle_row_of_def Let_def)
  moreover have "sr_ending row =
      (if b_status b = Awaiting_payment \<and> lapsed d b then Expired else b_status b)"
    by (subst r(4)) (simp add: settle_row_of_def Let_def \<open>b' = b\<close>)
  ultimately show "\<not> sr_live row" "sr_ending row \<in> set REFUNDING"
    using assms(5) by (auto simp: REFUNDING_def)
qed

lemma settled_onward:
  assumes "settled_at i d1" "advances d1 d'" "advances d d1" "p \<in> set (payments d)" "p_id p = i"
  shows "settled_at i d'"
proof -
  obtain p1 where "p1 \<in> set (payments d1)" "goes_on p p1"
    using assms(3,4) by (auto simp: advances_def payments_go_on_def)
  then have "p_id p1 = i" using assms(5) by (simp add: row_life)
  then show ?thesis by (rule settled_later [OF assms(1,2) \<open>p1 \<in> set (payments d1)\<close>])
qed

lemma update_settles:
  assumes "update_payments d sel f = Inr (d', rs)"
    and "\<And>x. x \<in> set (payments d) \<Longrightarrow> p_id x = i \<Longrightarrow> sel x \<and> p_settled_at (f x) \<noteq> None \<or> p_settled_at x \<noteq> None \<and> \<not> sel x"
    and "\<And>x. x \<in> set (payments d) \<Longrightarrow> sel x \<Longrightarrow> p_id (f x) = p_id x"
  shows "settled_at i d'"
proof -
  have "payments d' = update_where sel f (payments d)"
    using assms(1) by (simp add: update_payments_Inr)
  then show ?thesis
    using assms(2,3) unfolding settled_at_def by (fastforce simp: update_where_def)
qed

lemma MARK_CANCELED_settles:
  assumes "MARK_CANCELED d i = Inr (d', rs)" "p \<in> set (payments d)" "p_id p = i" "p_status p = Open" "payments_ok d"
  shows "settled_at i d'"
  by (rule update_settles [OF assms(1) [unfolded MARK_CANCELED_def]])
    (use same_payment [OF assms(5) _ assms(2)] assms(3,4) in auto)

lemma RELEASED_settles: "RELEASED d i = Inr (d', rs) \<Longrightarrow> settled_at i d'"
  unfolding RELEASED_def by (erule update_settles) auto

lemma refund_record_settles:
  assumes run: "perform (refund_record gw row due r st held refused) (s, d) = ((s', d'), Inr ())"
    and ok: "money_ok d" "read_past_open d row"
  shows "settled_at (p_id (sr_payment row)) d'"
proof -
  let ?p = "sr_payment row"
  obtain d1 wrote where w: "refund_write row due r st held refused d = Inr (d1, wrote)"
    using run by (auto simp: refund_record_def perform_then perform_transaction split: sum.splits prod.splits)
  obtain d0 rs where f: "REFUNDED d (p_id ?p) due r (is_stripe_fee st) = Inr (d0, rs)" "advances d d0" "advances d0 d1"
    using refund_write_advances [OF w ok(1) still_past_open [OF ok(2) advances_refl [OF ok(1)]]] by blast
  have "settled_at (p_id ?p) d0" by (rule REFUNDED_settles [OF f(1)])
  then have one: "settled_at (p_id ?p) d1"
    by (rule settled_onward [OF _ f(3,2)]) (use ok(2) in \<open>simp_all add: read_past_open_def\<close>)
  note a = advances_trans [OF f(2,3)]
  have "d' = d1 \<or> (\<exists>x. perform (refund_changed gw x) (s, d1) = ((s', d'), Inr ()))"
    using run w by (auto simp: refund_record_def perform_then perform_transaction split: option.splits if_splits)
  then have "advances d1 d'"
  proof (elim disjE exE)
    assume "d' = d1"
    then show ?thesis using advances_refl [OF advances_ok [OF a]] by simp
  next
    fix x assume x: "perform (refund_changed gw x) (s, d1) = ((s', d'), Inr ())"
    have "advances d1 (snd (fst (perform (refund_changed gw x) (s, d1))))"
      by (rule perform_steady [OF steady_refund_changed [of "\<lambda>_. True"] TrueI advances_ok [OF a]])
    then show ?thesis by (simp add: x)
  qed
  then show ?thesis
    by (rule settled_onward [OF one _ a]) (use ok(2) in \<open>simp_all add: read_past_open_def\<close>)
qed

lemma refund_payment_settles:
  assumes run: "perform (refund_payment gw row) (s, d) = ((s', d'), Inr ())"
    and ok: "money_ok d" "read_past_open d row"
  shows "settled_at (p_id (sr_payment row)) d'"
proof -
  have "\<exists>s1 due r st held refused. perform (refund_record gw row due r st held refused) (s1, d) = ((s', d'), Inr ())"
    using run
    by (auto simp: refund_payment_def Let_def perform_ask perform_asking split: prod.splits sum.splits
        option.splits if_splits failure.splits) blast+
  then obtain s1 due r st held refused where
    "perform (refund_record gw row due r st held refused) (s1, d) = ((s', d'), Inr ())" by blast
  then show ?thesis by (rule refund_record_settles [OF _ ok])
qed

lemma row_settles:
  assumes row: "row \<in> set (SETTLE_ROWS d i)" and ok: "money_ok d"
    and ended: "\<not> sr_live row" "sr_ending row \<in> set REFUNDING"
    and pi: "prefixed ''pi_'' (p_intent (sr_payment row))"
    and run: "perform (settle_one gw final row) (s, d) = ((s', d'), Inr again)"
  shows "\<not> again \<Longrightarrow> settled_at (p_id (sr_payment row)) d'" "final \<Longrightarrow> \<not> again"
proof -
  let ?p = "sr_payment row"
  obtain b where r: "?p \<in> set (payments d)" "b \<in> set (bookings d)" "b_id b = p_booking ?p" "p_booking ?p = i"
    "p_settled_at ?p = None" "row = settle_row_of d ?p b"
    by (rule SETTLE_ROWS_read [OF row])
  have pok: "payments_ok d" and live: "p_status ?p \<noteq> Canceled"
    using ok r(1,5) by (auto simp: money_ok_def payments_ok_def settled_right_def)
  have past: "read_past_open d row" if "p_status ?p \<noteq> Open"
    using that r(1) by (simp add: read_past_open_def)
  have "(\<not> again \<longrightarrow> settled_at (p_id ?p) d') \<and> (final \<longrightarrow> \<not> again)"
  proof (cases "p_status ?p")
    case Open
    then show ?thesis
      using run ended(1) MARK_CANCELED_settles [OF _ r(1) refl Open pok]
      by (auto simp: settle_one_def Let_def write_settled_def perform_ask perform_then perform_transaction map_sum_Inr
          split: prod.splits sum.splits if_splits)
  next
    case Checked
    then show ?thesis
      using run pi RELEASED_settles
      by (auto simp: settle_one_def Let_def write_settled_def perform_ask perform_then perform_transaction map_sum_Inr
          split: prod.splits sum.splits if_splits)
  next
    case Paid
    then show ?thesis
      using run ended(2) refund_payment_settles [OF _ ok past]
      by (auto simp: settle_one_def Let_def perform_then split: prod.splits sum.splits)
  next
    case Canceled
    then show ?thesis using live by simp
  qed
  then show "\<not> again \<Longrightarrow> settled_at (p_id ?p) d'" "final \<Longrightarrow> \<not> again" by blast+
qed

lemma in_concat: "y \<in> set xs \<Longrightarrow> x \<in> set (f y) \<Longrightarrow> x \<in> set (concat (map f xs))"
  by auto

lemma SETTLE_ROWS_I:
  assumes "p \<in> set (payments d)" "b \<in> set (bookings d)" "b_id b = i" "p_booking p = i" "p_settled_at p = None"
  shows "settle_row_of d p b \<in> set (SETTLE_ROWS d i)"
  unfolding SETTLE_ROWS_def
  by (rule in_concat [OF assms(1)], rule in_concat [OF assms(2)]) (use assms in simp)

text \<open>What is settled stays so.\<close>

lemma settled_there:
  assumes "money_ok d" "advances d d'" "p \<in> set (payments d)" "p_settled_at p \<noteq> None"
  shows "settled_at (p_id p) d'"
proof -
  have "payments_ok d" using assms(1) by (simp add: money_ok_def)
  then have "settled_at (p_id p) d"
    using assms(3,4) same_payment by (auto simp: settled_at_def)
  then show ?thesis by (rule settled_later [OF _ assms(2,3) refl])
qed

lemma pass_settles:
  assumes ok: "money_ok d" and b: "b \<in> set (bookings d)" "b_id b = i" "b_status b \<in> set REFUNDING"
    and p: "p \<in> set (payments d)" "p_booking p = i" "prefixed ''pi_'' (p_intent p)"
    and run: "perform (settle_pass gw final i) (s, d) = ((s', d'), Inr again)"
  shows "(\<not> again \<longrightarrow> settled_at (p_id p) d') \<and> (final \<and> p_settled_at p = None \<longrightarrow> \<not> again)"
proof (cases "p_settled_at p = None")
  case False
  have "advances d d'" using settle_pass_advances [OF ok, of gw final i s] by (simp add: run)
  then show ?thesis using settled_there [OF ok _ p(1) False] False by blast
next
  case True
  have "settle_row_of d p b \<in> set (SETTLE_ROWS d i)"
    by (rule SETTLE_ROWS_I) (use p(1,2) b(1,2) True in simp_all)
  then have one: "SETTLE_ROWS d i = [settle_row_of d p b]" by (rule SETTLE_ROWS_one [OF ok])
  let ?row = "settle_row_of d p b"
  have row: "?row \<in> set (SETTLE_ROWS d i)" "sr_payment ?row = p"
    using one by (simp_all add: settle_row_of_def Let_def)
  have one_run: "perform (settle_one gw final ?row) (s, d) = ((s', d'), Inr again)"
    using settle_pass_run [OF ok, of i gw final s] run by (simp add: one)
  have "prefixed ''pi_'' (p_intent (sr_payment ?row))" using p(3) by (simp add: row(2))
  note both = row_settles [OF row(1) ok ended_row [OF row(1) ok b] this one_run, unfolded row(2)]
  show ?thesis using both by blast
qed


section \<open>What the client was shown\<close>

text \<open>
  C6: What the settle job owes after a client's cancellation is the amount the link showed
  when they confirmed it: the job reads one payment, ended by the client, at the confirmed
  percentage.
\<close>

theorem client_gets_back_what_was_shown:
  assumes "cancel_link i pct host agent d h = Inr (d', v)" and "money_ok d"
    and "p \<in> set (payments d)" and "p_booking p = i" and "p_status p = Paid" and "p_settled_at p = None"
  shows "\<exists>row. SETTLE_ROWS d' i = [row] \<and> sr_payment row = p \<and> sr_ending row = Cancelled_by_client \<and>
    owed_pct row = Some pct \<and>
    refund_due (p_amount_minor p) pct (sr_ending row) fee = v_refund_minor v"
proof -
  have ok: "bookings_ok d" "payments_ok d" using assms(2) by (simp_all add: money_ok_def)
  obtain row x d1 rows b where r: "resolve d h = Inr row" "i = b_id (lr_booking row)"
    "link_decision (now d) row = Inr x" "can_cancel x" "refund_pct x = pct"
    "CLIENT_CANCEL d i = Inr (d1, rows)" "first_row rows = Some b" "same_but_mail (insert_event d1 i (Became Cancelled_by_client)
       (client_event host agent (Some (Refund_pct pct)))) d'"
    "v = view_of (row\<lparr>lr_booking := (lr_booking row)\<lparr>b_status := b_status b\<rparr>\<rparr>)
       \<lparr>can_cancel = False, can_reschedule = False, refund_pct = refund_pct x,
        charge_pct = 0, key_of = key_of x, reschedules_left = 0\<rparr> (settings_of d') []"
    by (rule cancel_link_Inr [OF assms(1)])
  note mail = same_but_mailD [OF r(8)]
  have d1: "payments d1 = payments d" "events d1 = events d"
    using r(6) by (simp_all add: CLIENT_CANCEL_def update_bookings_Inr)
  have pays: "payments d' = payments d" using mail(7) d1 by simp
  have money: "money_ok d'"
    using cancel_link_bookings(2) [OF assms(1) ok(1)] payments_ok_cong [OF ok(2) pays] mail(15)
      update_bookings_payments [OF r(6) [unfolded CLIENT_CANCEL_def]]
    by (simp add: money_ok_def)
  let ?b = "(lr_booking row)\<lparr>b_status := Cancelled_by_client\<rparr>"
  have b: "?b \<in> set (bookings d')" "b_id ?b = i"
    using resolve_Inr(1) [OF r(1)] r(2) cancel_link_bookings(1) [OF assms(1) ok(1)] by force+
  have "settle_row_of d' p ?b \<in> set (SETTLE_ROWS d' i)"
    by (rule SETTLE_ROWS_I) (use assms(3,4,6) b pays in simp_all)
  then have one: "SETTLE_ROWS d' i = [settle_row_of d' p ?b]" by (rule SETTLE_ROWS_one [OF money])
  have "client_pct d' i = Some pct"
    using mail(8) d1(2)
    by (simp add: client_pct_def last_event_def events_of_def client_event_def no_args_def)
  then have pct: "owed_pct (settle_row_of d' p ?b) = Some pct"
    using assms(4) by (simp add: owed_pct_def settle_row_of_def Let_def)
  have "filter (\<lambda>q. p_booking q = i \<and> p_status q = Paid) (payments d) = [p]"
  proof (rule filter_one [OF _ assms(3)])
    show "distinct (payments d)" using ok(2) by (simp add: payments_ok_def distinct_map)
    show "(p_booking q = i \<and> p_status q = Paid) = (q = p)" if "q \<in> set (payments d)" for q
    proof (cases "q = p")
      case False
      then show ?thesis
        using apart_in [OF ok(2) that assms(3)] assms(4,5) by (auto simp: payment_clash_def)
    qed (use assms(4,5) in simp)
  qed
  then have paid: "paid_payment d i = Some p" by (simp add: paid_payment_def)
  have "lr_paid row = Some (p_amount_minor p)"
    using resolve_Inr(5) [OF r(1)] r(2) paid by simp
  then have "v_refund_minor v = Some (p_amount_minor p * pct div 100)"
    using r(5) by (simp add: r(9) view_of_def Let_def refund_due_known)
  then show ?thesis
    using one pct by (intro exI [of _ "settle_row_of d' p ?b"])
      (simp add: refund_due_known settle_row_of_def Let_def)
qed

section \<open>News that comes twice\<close>

lemma LOCK_in:
  assumes "LOCK_PAYMENT d i = Some c"
  obtains p where "p \<in> set (payments d)" "p_id p = i" "p_status p = c"
  using assms first_row_in by (fastforce simp: LOCK_PAYMENT_def)

lemma LOCK_there: "p \<in> set (payments d) \<Longrightarrow> p_id p = i \<Longrightarrow> LOCK_PAYMENT d i \<noteq> None"
  by (auto simp: LOCK_PAYMENT_def filter_empty_conv)

lemma LOCK_same:
  assumes "payments d' = map g (payments d)" "\<And>p. p_id (g p) = p_id p" "\<And>p. p_status (g p) = p_status p"
  shows "LOCK_PAYMENT d' i = LOCK_PAYMENT d i"
proof -
  have "map_option p_status (first_row (filter (\<lambda>p. p_id p = i) (map g ps))) =
      map_option p_status (first_row (filter (\<lambda>p. p_id p = i) ps))" for ps
    by (induction ps) (use assms(2,3) in simp_all)
  then show ?thesis using assms(1) by (simp add: LOCK_PAYMENT_def)
qed

lemma marks_leave_open:
  assumes "update_payments d (\<lambda>p. p_id p = i \<and> p_status p = Open) f = Inr (d', rs)"
    and "\<And>p. p_status (f p) \<noteq> Open"
  shows "not_open i d'"
proof -
  have "payments d' = update_where (\<lambda>p. p_id p = i \<and> p_status p = Open) f (payments d)"
    using assms(1) by (simp add: update_payments_Inr)
  then show ?thesis using assms(2) unfolding not_open_def by (fastforce simp: update_where_def)
qed

lemma not_open_onward:
  assumes "not_open i d1" "advances d1 d'" "advances d d1" "p \<in> set (payments d)" "p_id p = i"
  shows "not_open i d'"
proof -
  obtain p1 where p1: "p1 \<in> set (payments d1)" "goes_on p p1"
    using assms(3,4) by (auto simp: advances_def payments_go_on_def)
  then have "p_id p1 = i" using assms(5) by (simp add: row_life)
  then show ?thesis
    using not_open_later [of d1 d' p1] assms(1,2) p1(1) by (auto simp: advances_def money_ok_def not_open_def)
qed

text \<open>What a reconcile filled in, it does not fill in again.\<close>

definition filled :: "payment \<Rightarrow> intent_state \<Rightarrow> db \<Rightarrow> db result" where
  "filled row st d = (case is_stripe_fee st of None \<Rightarrow> Inr d
     | Some fee \<Rightarrow> map_sum id fst (FILL_FEE d (p_id row) fee))"

lemma filled_once:
  assumes f: "filled row st d = Inr d1" and ok: "money_ok d" and adv: "advances d1 d'"
    and p: "p \<in> set (payments d)" "p_id p = p_id row"
  shows "filled row st d' = Inr d'" "LOCK_PAYMENT d1 (p_id row) = LOCK_PAYMENT d (p_id row)" "advances d d1"
proof -
  have "filled row st d' = Inr d' \<and> LOCK_PAYMENT d1 (p_id row) = LOCK_PAYMENT d (p_id row) \<and> advances d d1"
  proof (cases "is_stripe_fee st")
    case None
    then show ?thesis using f advances_refl [OF ok] by (simp add: filled_def)
  next
    case (Some fee)
    then obtain rs where fill: "FILL_FEE d (p_id row) fee = Inr (d1, rs)"
      using f by (auto simp: filled_def map_sum_Inr)
    note a = advances_MARK(3) [OF fill ok]
    have d1: "payments d1 = map (\<lambda>x. if p_id x = p_id row \<and> p_stripe_fee x = None
        then x\<lparr>p_stripe_fee := Some fee\<rparr> else x) (payments d)" (is "_ = map ?g _")
      using fill by (simp add: FILL_FEE_def update_payments_Inr update_where_def)
    have g: "?g p \<in> set (payments d1)" "p_stripe_fee (?g p) \<noteq> None" "p_id (?g p) = p_id row"
      using p unfolding d1 by auto
    obtain p' where p': "p' \<in> set (payments d')" "goes_on (?g p) p'"
      using adv g(1) unfolding advances_def payments_go_on_def by blast
    have fee: "p_stripe_fee p' \<noteq> None" "p_id p' = p_id row"
      using p'(2) g(2,3) by (simp_all add: goes_on_def terms_of_def)
    have ok': "payments_ok d'" using advances_ok [OF adv] by (simp add: money_ok_def)
    have none: "\<not> (p_id q = p_id row \<and> p_stripe_fee q = None)" if "q \<in> set (payments d')" for q
      using same_payment [OF ok' that p'(1)] fee by auto
    have "update_where (\<lambda>q. p_id q = p_id row \<and> p_stripe_fee q = None) h (payments d') = payments d'" for h
      unfolding update_where_def
    proof (rule map_idI)
      fix x assume "x \<in> set (payments d')"
      then show "(if p_id x = p_id row \<and> p_stripe_fee x = None then h x else x) = x"
        using none [of x] by auto
    qed
    moreover have "filter (\<lambda>q. p_id q = p_id row \<and> p_stripe_fee q = None) (payments d') = []"
      using none by (simp add: filter_empty_conv)
    ultimately have "FILL_FEE d' (p_id row) fee = Inr (d', [])"
      using ok' by (simp add: FILL_FEE_def update_payments_def Let_def returning_def payments_ok_def)
    moreover have "LOCK_PAYMENT d1 (p_id row) = LOCK_PAYMENT d (p_id row)"
      by (rule LOCK_same [OF d1]) simp_all
    ultimately show ?thesis using a Some by (simp add: filled_def)
  qed
  then show "filled row st d' = Inr d'" "LOCK_PAYMENT d1 (p_id row) = LOCK_PAYMENT d (p_id row)" "advances d d1"
    by blast+
qed

text \<open>
  C7: What Stripe says of a payment can be taken any number of times: the second reconcile of
  the same news leaves every table as the first left it.
\<close>

theorem told_twice_changes_nothing:
  assumes "reconcile_write row st d = Inr (d', ())" and "money_ok d"
  shows "reconcile_write row st d' = Inr (d', ())"
proof -
  obtain current where c: "LOCK_PAYMENT d (p_id row) = Some current"
    using assms(1) by (auto simp: reconcile_write_def split: option.splits)
  obtain p where p: "p \<in> set (payments d)" "p_id p = p_id row"
    by (rule LOCK_in [OF c])
  obtain d1 where f: "filled row st d = Inr d1"
    using assms(1) c by (auto simp: reconcile_write_def filled_def split: sum.splits)
  have a: "advances d d1"
    using f advances_MARK(3) [of d "p_id row"] advances_refl [OF assms(2)] assms(2)
    by (auto simp: filled_def map_sum_Inr split: option.splits)
  let ?rest = "\<lambda>cur d1. if cur \<noteq> Open \<or> \<not> matches st row then Inr (d1, ())
     else if landed st (p_kind row)
     then map_sum id (\<lambda>d2. (d2, ())) (if p_kind row = Check then checked_in d1 row st else paid_in d1 row)
     else if is_status st = ''canceled''
     then map_sum id (\<lambda>(d2, _). (d2, ())) (MARK_CANCELED d1 (p_id row))
     else Inr (d1, ())"
  have eq: "reconcile_write row st x = (case LOCK_PAYMENT x (p_id row) of
        None \<Rightarrow> Inl (Uncaught ''NoResultFound'')
      | Some cur \<Rightarrow> (case filled row st x of Inl e \<Rightarrow> Inl e | Inr y \<Rightarrow> ?rest cur y))" for x
    unfolding reconcile_write_def filled_def by (rule refl)
  have rest: "?rest current d1 = Inr (d', ())"
    using assms(1) by (simp add: eq c f)
  note ok1 = advances_ok [OF a]
  have finish: ?thesis if adv: "advances d1 d'" and no: "not_open (p_id row) d'"
  proof -
    note g = filled_once [OF f assms(2) adv p]
    obtain p' where p': "p' \<in> set (payments d')" "goes_on p p'"
      using advances_trans [OF a adv] p(1) unfolding advances_def payments_go_on_def by blast
    have "p_id p' = p_id row" using p'(2) p(2) by (simp add: goes_on_def terms_of_def)
    then obtain cur where cur: "LOCK_PAYMENT d' (p_id row) = Some cur"
      using LOCK_there [OF p'(1)] by blast
    then have "cur \<noteq> Open" using no LOCK_in [OF cur] unfolding not_open_def by metis
    then show ?thesis by (simp add: eq cur g(1))
  qed
  have later: "not_open (p_id row) d'" if "not_open (p_id row) d2" "advances d1 d2" "advances d2 d'" for d2
    by (rule not_open_onward [OF that(1,3) advances_trans [OF a that(2)] p])
  consider (same) "d' = d1"
    | (checked) "checked_in d1 row st = Inr d'" | (paid) "paid_in d1 row = Inr d'"
    | (canceled) rs where "MARK_CANCELED d1 (p_id row) = Inr (d', rs)"
    using rest by (auto simp: map_sum_Inr split: if_splits)
  then show ?thesis
  proof cases
    case same
    have adv: "advances d1 d'" using advances_refl [OF ok1] same by simp
    have "reconcile_write row st d' = ?rest current d1"
      using filled_once [OF f assms(2) adv p] c unfolding eq same by simp
    then show ?thesis using rest by simp
  next
    case checked
    obtain d2 rs where m: "MARK_CHECKED d1 (p_id row) (is_type st = Setup_intent) = Inr (d2, rs)"
      using checked by (auto simp: checked_in_def Let_def split: sum.splits)
    have "not_open (p_id row) d2"
      by (rule marks_leave_open [OF m [unfolded MARK_CHECKED_def]]) simp
    moreover note advances_MARK(1) [OF m ok1]
    moreover have "advances d2 d'"
      by (rule checked_in_onward [OF checked m ok1])
    ultimately show ?thesis by (intro finish checked_in_advances [OF checked ok1] later)
  next
    case paid
    obtain d2 rs where m: "MARK_PAID d1 (p_id row) = Inr (d2, rs)"
      using paid by (auto simp: paid_in_def split: sum.splits)
    have "not_open (p_id row) d2"
      by (rule marks_leave_open [OF m [unfolded MARK_PAID_def]]) simp
    moreover note advances_MARK(2) [OF m ok1]
    moreover have "advances d2 d'"
      by (rule paid_in_onward [OF paid m ok1])
    ultimately show ?thesis by (intro finish paid_in_advances [OF paid ok1] later)
  next
    case canceled
    have "not_open (p_id row) d'"
      by (rule marks_leave_open [OF canceled [unfolded MARK_CANCELED_def]]) simp
    then show ?thesis by (rule finish [OF advances_MARK(4) [OF canceled ok1]])
  qed
qed

section \<open>What the sweep asks again\<close>

lemma settle_jobs_queued:
  assumes "(i, st) \<in> set xs"
  shows "Settle_key i (Hourly st h) \<in> j_key ` set (jobs (fold (\<lambda>(i, st) d. settle_job d i (Hourly st h)) xs d))"
  using assms
proof (induction xs arbitrary: d)
  case (Cons x xs)
  have keep: "j_key ` set (jobs d) \<subseteq> j_key ` set (jobs (fold (\<lambda>(i, st) d. settle_job d i (Hourly st h)) xs d))"
    for d
  proof (induction xs arbitrary: d)
    case (Cons a xs)
    have "j_key ` set (jobs d) \<subseteq> j_key ` set (jobs (settle_job d (fst a) (Hourly (snd a) h)))"
      unfolding settle_job_def by (rule image_mono [OF enqueue_keeps])
    also note Cons.IH
    finally show ?case by (simp add: case_prod_unfold)
  qed simp
  show ?case
  proof (cases "x = (i, st)")
    case True
    then show ?thesis using keep [of "settle_job d i (Hourly st h)"] enqueue_key by (auto simp: settle_job_def)
  next
    case False
    then have "(i, st) \<in> set xs" using Cons.prems by auto
    from Cons.IH [OF this, of "settle_job d (fst x) (Hourly (snd x) h)"] show ?thesis
      by (simp add: case_prod_unfold)
  qed
qed simp

text \<open>
  C8: After a sweep, every booking whose money is still owed an answer (an open payment nobody
  can finish, a hold to release, a paid payment of an ended booking) has a settle job under
  the key of that hour.
\<close>

theorem sweep_asks_again:
  assumes "sweep_business clock d = Inr (d', n)" and "p \<in> set (payments d')" and "b \<in> set (bookings d')"
    and "b_id b = p_booking p" and "p_settled_at p = None"
    and "p_status p = Checked \<or> p_status p = Paid \<and> b_status b \<in> set REFUNDING \<or>
      p_status p = Open \<and> \<not> (b_status b = Awaiting_payment \<and> unexpired d' b)"
  shows "Settle_key (b_id b) (Hourly (b_status b) (hour_of clock)) \<in> j_key ` set (jobs d')"
proof -
  obtain d1 where e: "d' = SWEEP_HOLDS (enqueue_unsettled clock d1)"
    using assms(1) by (auto simp: sweep_business_def split: sum.splits)
  note same = same_but_mailD [OF enqueue_unsettled_mail [of d1 clock]]
  have same': "payments d' = payments d1" "bookings d' = bookings d1" "unexpired d' b = unexpired d1 b"
    using same(1,3,7) by (simp_all add: e SWEEP_HOLDS_def unexpired_def split: option.split)
  have "(b_id b, b_status b) \<in> set (UNSETTLED d1)"
    unfolding UNSETTLED_def set_remdups
    by (rule in_concat [of p], use assms(2) same' in simp, rule in_concat [of b], use assms(3) same' in simp)
      (use assms(4-6) same' in auto)
  from settle_jobs_queued [OF this] show ?thesis
    by (simp add: e SWEEP_HOLDS_def enqueue_unsettled_def)
qed

section \<open>At the sample\<close>

definition sample_ended :: db where
  "sample_ended = sample_shop\<lparr>bookings := [sample_booking 20 (9 * hour_us) Cancelled_by_merchant,
     sample_booking 21 (14 * hour_us) Pending, sample_waiting]\<rparr>"

definition sample_sent :: "intents \<Rightarrow> string \<Rightarrow> int" where
  "sample_sent s i = (case s i of None \<Rightarrow> 0 | Some st \<Rightarrow> is_amount_refunded st)"

lemma sample_law: "refunds_add_up sample_stripe sample_sent"
  by (auto simp: refunds_add_up_def sample_stripe_def known_def sample_sent_def fun_eq_iff split: option.splits if_splits)

lemma sample_settles:
  obtains s' d' where "perform (settle sample_stripe True 20) (sample_intents, sample_ended) = ((s', d'), Inr ())"
    "sample_sent s' ''pi_1'' = 2500" "map p_refunded_minor (payments d') = [2500, 0]"
proof -
  let ?r = "perform (settle sample_stripe True 20) (sample_intents, sample_ended)"
  have "snd ?r = Inr ()" "sample_sent (fst (fst ?r)) ''pi_1'' = 2500"
    "map p_refunded_minor (payments (snd (fst ?r))) = [2500, 0]"
    by code_simp+
  then show ?thesis by (intro that [of "fst (fst ?r)" "snd (fst ?r)"]) (simp_all add: prod_eq_iff)
qed

lemma sample_ended_ok: "money_ok sample_ended"
  by code_simp



text \<open>The client cancels a paid booking: booking 20 of the sample, with its link.\<close>

lemma sample_shop_row:
  "resolve sample_shop ''digest'' = Inr (sample_row\<lparr>lr_paid := Some 2500, lr_fee := Some 80\<rparr>)"
  by code_simp

lemma sample_shop_cancels: "\<exists>d' v. cancel_link 20 0 None None sample_shop ''digest'' = Inr (d', v)"
proof (rule cancel_link_accepts [OF _ sample_shop_row])
  show "bookings_ok sample_shop" by code_simp
  show "link_decision (now sample_shop) (sample_row\<lparr>lr_paid := Some 2500, lr_fee := Some 80\<rparr>) = Inr
      (decide_at \<lparr>free_hours = 24, cutoff_hours = 12, max_moves = 2\<rparr> (9 * hour_us) 0 0
        (Some (9 * hour_us)) (Some (9 * hour_us)))"
    by code_simp
qed code_simp+

theorem client_gets_back_what_was_shown_witness:
  "\<exists>d' v row. cancel_link 20 0 None None sample_shop ''digest'' = Inr (d', v) \<and> SETTLE_ROWS d' 20 = [row] \<and>
     owed_pct row = Some 0"
proof -
  obtain d' v where c: "cancel_link 20 0 None None sample_shop ''digest'' = Inr (d', v)"
    using sample_shop_cancels by blast
  have "\<exists>row. SETTLE_ROWS d' 20 = [row] \<and> sr_payment row = sample_payment 30 20 ''pi_1'' Paid \<and>
      sr_ending row = Cancelled_by_client \<and> owed_pct row = Some 0 \<and>
      refund_due (p_amount_minor (sample_payment 30 20 ''pi_1'' Paid)) 0 (sr_ending row) None = v_refund_minor v"
    by (rule client_gets_back_what_was_shown [OF c]) code_simp+
  then show ?thesis using c by blast
qed

definition sample_reconciled :: db where
  "sample_reconciled = fst (projr (reconcile_write (sample_payment 31 22 ''pi_2'' Open)
     (sample_intent ''pi_2'' ''succeeded'') sample_shop))"

theorem told_twice_changes_nothing_witness:
  "reconcile_write (sample_payment 31 22 ''pi_2'' Open) (sample_intent ''pi_2'' ''succeeded'') sample_reconciled =
     Inr (sample_reconciled, ())"
proof (rule told_twice_changes_nothing)
  show "money_ok sample_shop" by code_simp
  let ?r = "reconcile_write (sample_payment 31 22 ''pi_2'' Open) (sample_intent ''pi_2'' ''succeeded'') sample_shop"
  have "isl ?r = False" by code_simp
  then show "?r = Inr (sample_reconciled, ())"
    by (cases ?r) (auto simp: sample_reconciled_def)
qed

theorem sweep_asks_again_witness:
  "\<exists>d' n. sweep_business 0 sample_ended = Inr (d', n) \<and>
     Settle_key 20 (Hourly Cancelled_by_merchant 0) \<in> j_key ` set (jobs d')"
proof -
  let ?r = "sweep_business 0 sample_ended"
  have "isl ?r = False" by code_simp
  then obtain d' n where r: "?r = Inr (d', n)" by (cases ?r) auto
  have "fst (projr ?r) = d'" by (simp add: r)
  moreover have "payments (fst (projr ?r)) ! 0 = sample_payment 30 20 ''pi_1'' Paid"
    "sample_payment 30 20 ''pi_1'' Paid \<in> set (payments (fst (projr ?r)))"
    "sample_booking 20 (9 * hour_us) Cancelled_by_merchant \<in> set (bookings (fst (projr ?r)))"
    by code_simp+
  ultimately have "sample_payment 30 20 ''pi_1'' Paid \<in> set (payments d')"
    "sample_booking 20 (9 * hour_us) Cancelled_by_merchant \<in> set (bookings d')" by simp_all
  note q = sweep_asks_again [OF r this]
  have "Settle_key (b_id (sample_booking 20 (9 * hour_us) Cancelled_by_merchant)) (Hourly (b_status
      (sample_booking 20 (9 * hour_us) Cancelled_by_merchant)) (hour_of 0)) \<in> j_key ` set (jobs d')"
    by (rule q) (simp_all add: sample_booking_def sample_payment_def REFUNDING_def)
  then show ?thesis using r by (simp add: sample_booking_def hour_of_def)
qed

end
