(* ===== verification/TimeOff.thy ===== *)
theory TimeOff
  imports Placing
begin

text \<open>
  \<open>backend/app/time_off.py\<close>: the blocks in which a member cannot be booked. A worker manages their own, an
  owner everyone's. Shows that a block is never saved over an appointment it did not already cover,
  and that the availability engine offers nothing inside it from then on.

  A body arrives parsed: its moments in UTC and its days in the years 2000 to 2999.
\<close>

section \<open>Bodies\<close>

text \<open>
  \<open>TimeOffChange\<close>: the fields sent. A reason may be sent as null, which clears it; the four times may
  not be. \<open>TimeOffIn\<close> is the same body with exactly one complete pair (\<open>one_pair\<close>).
\<close>

record time_off_change =
  tc_starts_at :: "instant option"
  tc_ends_at :: "instant option"
  tc_first_day :: "day option"
  tc_last_day :: "day option"
  tc_reason :: "string option option"

definition reason_text :: "string \<Rightarrow> bool" where
  "reason_text t \<longleftrightarrow> strip t = t \<and> 1 \<le> length t \<and> length t \<le> 500 \<and> printable t"

definition reason_ok :: "time_off_change \<Rightarrow> bool" where
  "reason_ok c = (case tc_reason c of Some (Some t) \<Rightarrow> reason_text t | _ \<Rightarrow> True)"

fun one_pair ::
  "instant option \<Rightarrow> instant option \<Rightarrow> day option \<Rightarrow> day option \<Rightarrow> block option" where
  "one_pair (Some s) (Some e) None None = Some (Instants s e)"
| "one_pair None None (Some f) (Some l) = Some (Days f l)"
| "one_pair _ _ _ _ = None"

definition LONGEST :: int where "LONGEST = 366 * day_us"
definition LONGEST_DAYS :: int where "LONGEST_DAYS = 366"

text \<open>\<open>checked\<close> and \<open>checked_days\<close>.\<close>

definition checked :: "instant \<Rightarrow> instant \<Rightarrow> block result" where
  "checked s e =
     (if e \<le> s then Inl (ApiError 422 ''end_not_after_start'')
      else if LONGEST < e - s then Inl (ApiError 422 ''time_off_too_long'')
      else Inr (Instants s e))"

definition checked_days :: "day \<Rightarrow> day \<Rightarrow> block result" where
  "checked_days f l =
     (if l < f then Inl (ApiError 422 ''last_day_before_first_day'')
      else if LONGEST_DAYS \<le> l - f then Inl (ApiError 422 ''time_off_too_long'')
      else Inr (Days f l))"

definition checked_block :: "block \<Rightarrow> block result" where
  "checked_block b = (case b of Instants s e \<Rightarrow> checked s e | Days f l \<Rightarrow> checked_days f l)"

section \<open>Appointments in the way\<close>

text \<open>\<open>manual_block\<close>: the block's member and their user.\<close>

definition manual_block :: "db \<Rightarrow> signed_in \<Rightarrow> uuid \<Rightarrow> (uuid \<times> uuid) result" where
  "manual_block d current i =
     (case first_row (filter (\<lambda>t. t_id t = i \<and> t_source t = Manual) (time_offs d)) of
        None \<Rightarrow> Inl (ApiError 404 ''not_found'')
      | Some t \<Rightarrow>
          (case member_user d (t_member t) of
             Inl e \<Rightarrow> Inl e
           | Inr u \<Rightarrow>
               if may_manage current u then Inr (t_member t, u) else Inl (ApiError 403 ''owner_only'')))"

text \<open>
  \<open>IN_THE_WAY\<close>: the live appointments the new span meets and the old one did not. The look-back of
  twelve hours is the longest a booking can be.
\<close>

definition in_the_way :: "db \<Rightarrow> uuid \<Rightarrow> instant interval \<Rightarrow> instant interval option \<Rightarrow> booking list" where
  "in_the_way d m span old =
     sort_key (\<lambda>b. (b_starts_at b, b_id b)) (filter (\<lambda>b.
       b_worker b = m \<and> b_starts_at b < snd span \<and> fst span < b_ends_at b \<and>
       fst span - 12 * hour_us < b_starts_at b \<and> now d < b_ends_at b \<and>
       (b_status b = Confirmed \<or> b_status b = Pending \<and> unexpired d b) \<and>
       \<not> (case old of None \<Rightarrow> False | Some (s, e) \<Rightarrow> b_starts_at b < e \<and> s < b_ends_at b) \<and>
       list_ex (\<lambda>c. c_id c = b_client b) (clients d)) (bookings d))"

definition refuse_over_bookings :: "db \<Rightarrow> uuid \<Rightarrow> block \<Rightarrow> block option \<Rightarrow> unit result" where
  "refuse_over_bookings d m after before =
     (let zone = timezone (settings_of d);
          found = in_the_way d m (block_span zone after) (map_option (block_span zone) before)
      in if found = [] then Inr ()
         else Inl (OverlapsBookings (map b_id (take 5 found)) (length found)))"

section \<open>Handlers\<close>

definition create_time_off ::
  "db \<Rightarrow> signed_in \<Rightarrow> uuid \<Rightarrow> time_off_change \<Rightarrow> (db \<times> time_off) result" where
  "create_time_off d current m body =
     (if \<not> reason_ok body then Inl (ApiError 422 ''invalid_request'')
      else case one_pair (tc_starts_at body) (tc_ends_at body) (tc_first_day body) (tc_last_day body) of
        None \<Rightarrow> Inl (ApiError 422 ''invalid_request'')
      | Some pair \<Rightarrow>
     (case member_user d m of
        Inl e \<Rightarrow> Inl e
      | Inr u \<Rightarrow>
          if \<not> may_manage current u then Inl (ApiError 403 ''owner_only'')
          else (case checked_block pair of
             Inl e \<Rightarrow> Inl e
           | Inr b \<Rightarrow>
               (case refuse_over_bookings d m b None of
                  Inl e \<Rightarrow> Inl e
                | Inr _ \<Rightarrow>
                    let t = \<lparr>t_id = next_id d, t_member = m, t_block = b,
                          t_reason = (case tc_reason body of None \<Rightarrow> None | Some r \<Rightarrow> r),
                          t_source = Manual\<rparr>;
                        d1 = d\<lparr>time_offs := time_offs d @ [t], next_id := Suc (next_id d)\<rparr>
                    in Inr (record_audit d1 ''time_off_created'' (user_id current) (Some (User u)), t)))))"

definition sent_or :: "'a option \<Rightarrow> 'a \<Rightarrow> 'a" where
  "sent_or x old = (case x of None \<Rightarrow> old | Some v \<Rightarrow> v)"

text \<open>
  The block a change makes of the old one: within its own kind what is sent merges; another kind asks
  for the complete pair.
\<close>

definition merged_block :: "block \<Rightarrow> time_off_change \<Rightarrow> block result" where
  "merged_block old c =
     (let instant_fields = (tc_starts_at c \<noteq> None \<or> tc_ends_at c \<noteq> None);
          day_fields = (tc_first_day c \<noteq> None \<or> tc_last_day c \<noteq> None);
          invalid = Inl (ApiError 422 ''invalid_request'')
      in if instant_fields \<and> day_fields then invalid
         else if day_fields
         then (case old of
             Days f l \<Rightarrow> checked_days (sent_or (tc_first_day c) f) (sent_or (tc_last_day c) l)
           | Instants _ _ \<Rightarrow> (case (tc_first_day c, tc_last_day c) of
                (Some f, Some l) \<Rightarrow> checked_days f l | _ \<Rightarrow> invalid))
         else if instant_fields
         then (case old of
             Instants s e \<Rightarrow> checked (sent_or (tc_starts_at c) s) (sent_or (tc_ends_at c) e)
           | Days _ _ \<Rightarrow> (case (tc_starts_at c, tc_ends_at c) of
                (Some s, Some e) \<Rightarrow> checked s e | _ \<Rightarrow> invalid))
         else Inr old)"

definition update_time_off ::
  "db \<Rightarrow> signed_in \<Rightarrow> uuid \<Rightarrow> time_off_change \<Rightarrow> (db \<times> time_off) result" where
  "update_time_off d current i change =
     (if \<not> reason_ok change then Inl (ApiError 422 ''invalid_request'') else
      case manual_block d current i of
        Inl e \<Rightarrow> Inl e
      | Inr (m, u) \<Rightarrow>
          let this = (\<lambda>t. t_id t = i \<and> t_member t = m \<and> t_source t = Manual)
          in (case first_row (filter this (time_offs d)) of
                None \<Rightarrow> Inl (ApiError 404 ''not_found'')
              | Some old \<Rightarrow>
                  (case merged_block (t_block old) change of
                     Inl e \<Rightarrow> Inl e
                   | Inr b \<Rightarrow>
                       let reason = sent_or (tc_reason change) (t_reason old)
                       in if b = t_block old \<and> reason = t_reason old then Inr (d, old)
                          else (case refuse_over_bookings d m b (Some (t_block old)) of
                             Inl e \<Rightarrow> Inl e
                           | Inr _ \<Rightarrow>
                               let set_row = (\<lambda>t. t\<lparr>t_block := b, t_reason := reason\<rparr>);
                                   d1 = d\<lparr>time_offs := update_where this set_row (time_offs d)\<rparr>
                               in Inr (record_audit d1 ''time_off_changed'' (user_id current)
                                         (Some (User u)), set_row old)))))"

definition delete_time_off :: "db \<Rightarrow> signed_in \<Rightarrow> uuid \<Rightarrow> db result" where
  "delete_time_off d current i =
     (case manual_block d current i of
        Inl e \<Rightarrow> Inl e
      | Inr (m, u) \<Rightarrow>
          let this = (\<lambda>t. t_id t = i \<and> t_member t = m \<and> t_source t = Manual)
          in if \<not> list_ex this (time_offs d) then Inl (ApiError 404 ''not_found'')
             else Inr (record_audit (d\<lparr>time_offs := filter (\<lambda>t. \<not> this t) (time_offs d)\<rparr>)
                 ''time_off_deleted'' (user_id current) (Some (User u))))"

section \<open>Reads\<close>

text \<open>
  \<open>blocks_overlapping\<close>: by effective start; the reason is the block's member's and an owner's. The
  member's name is left out.
\<close>

definition blocks_overlapping ::
  "db \<Rightarrow> signed_in \<Rightarrow> instant \<Rightarrow> instant \<Rightarrow> uuid option \<Rightarrow> time_off list" where
  "blocks_overlapping d current since til member =
     (let zone = timezone (settings_of d);
          first = local_date zone since; final = local_date zone (til - 1);
          rows = [t\<lparr>t_reason := (if is_owner current \<or> m_user m = user_id current
                     then t_reason t else None)\<rparr>.
             t \<leftarrow> time_offs d, m \<leftarrow> memberships d, m_id m = t_member t,
             member = None \<or> member = Some (t_member t),
             case t_block t of
               Instants s e \<Rightarrow> s < til \<and> since < e
             | Days f l \<Rightarrow> f \<le> final \<and> first \<le> l]
      in sort_key (\<lambda>t. (fst (block_span zone (t_block t)), t_id t)) rows)"

definition list_time_off ::
  "db \<Rightarrow> signed_in \<Rightarrow> uuid \<Rightarrow> instant \<Rightarrow> instant \<Rightarrow> time_off list result" where
  "list_time_off d current m since til =
     (if til \<le> since \<or> LONGEST < til - since then Inl (ApiError 422 ''invalid_window'')
      else case member_user d m of
        Inl e \<Rightarrow> Inl e
      | Inr _ \<Rightarrow> Inr (blocks_overlapping d current since til (Some m)))"

definition time_off_range ::
  "db \<Rightarrow> signed_in \<Rightarrow> instant \<Rightarrow> instant \<Rightarrow> time_off list result" where
  "time_off_range d current since til =
     (if til \<le> since \<or> 8 * day_us < til - since then Inl (ApiError 422 ''invalid_window'')
      else Inr (blocks_overlapping d current since til None))"

section \<open>What a saved block is\<close>

text \<open>The writers, and the block each starts from: a new one from none.\<close>

inductive saves_block :: "db \<Rightarrow> db \<Rightarrow> time_off \<Rightarrow> block option \<Rightarrow> bool" where
  Created: "create_time_off d current m body = Inr (d', t) \<Longrightarrow> saves_block d d' t None"
| Changed: "update_time_off d current i change = Inr (d', t) \<Longrightarrow>
     first_row (filter (\<lambda>t. t_id t = i \<and> t_source t = Manual) (time_offs d)) = Some old \<Longrightarrow>
     saves_block d d' t (Some (t_block old))"

lemma first_row_filter_conj:
  assumes "first_row (filter P xs) = Some x" "Q x"
  shows "first_row (filter (\<lambda>y. P y \<and> Q y) xs) = Some x"
  using assms by (induction xs) (auto split: if_splits)

lemma manual_block_Inr:
  assumes "manual_block d current i = Inr (m, u)"
  obtains t where "first_row (filter (\<lambda>t. t_id t = i \<and> t_source t = Manual) (time_offs d)) = Some t"
    "t_member t = m" "member_user d m = Inr u" "may_manage current u"
    "t \<in> set (time_offs d)" "t_id t = i" "t_source t = Manual"
proof -
  obtain t where t: "first_row (filter (\<lambda>t. t_id t = i \<and> t_source t = Manual) (time_offs d)) = Some t"
    "t_member t = m" "member_user d m = Inr u" "may_manage current u"
    using assms by (auto simp: manual_block_def split: option.splits sum.splits if_splits)
  then show thesis using that first_row_filterD [OF t(1)] by blast
qed

text \<open>What \<open>checked\<close> and \<open>checked_days\<close> let through, \<open>ck_time_off_at_most_366_days\<close> and \<open>ck_time_off_days\<close>.\<close>

definition block_size_ok :: "block \<Rightarrow> bool" where
  "block_size_ok b = (case b of Instants s e \<Rightarrow> s < e \<and> e - s \<le> LONGEST
     | Days f l \<Rightarrow> f \<le> l \<and> l - f < LONGEST_DAYS)"

lemma checked_size:
  "checked s e = Inr b \<Longrightarrow> b = Instants s e \<and> block_size_ok b"
  "checked_days f l = Inr b \<Longrightarrow> b = Days f l \<and> block_size_ok b"
  by (auto simp: checked_def checked_days_def block_size_ok_def split: if_splits)

lemma checked_block_size: "checked_block c = Inr b \<Longrightarrow> b = c \<and> block_size_ok b"
  by (cases c) (auto simp: checked_block_def dest: checked_size)

lemma merged_block_size:
  "merged_block old change = Inr b \<Longrightarrow> b = old \<or> block_size_ok b"
  by (auto simp: merged_block_def Let_def split: if_splits block.splits option.splits dest: checked_size)

lemma create_time_off_Inr:
  assumes "create_time_off d current m body = Inr (d', t)"
  obtains u where "member_user d m = Inr u" "may_manage current u" "reason_ok body"
    "refuse_over_bookings d m (t_block t) None = Inr ()" "block_size_ok (t_block t)"
    "t_member t = m" "t_id t = next_id d" "t_source t = Manual"
    "d' = record_audit (d\<lparr>time_offs := time_offs d @ [t], next_id := Suc (next_id d)\<rparr>)
       ''time_off_created'' (user_id current) (Some (User u))"
  using assms
  by (auto simp: create_time_off_def Let_def split: option.splits sum.splits if_splits
      dest!: checked_block_size intro: that)

lemma update_time_off_Inr:
  assumes "update_time_off d current i change = Inr (d', t)"
  obtains m u old where
    "first_row (filter (\<lambda>t. t_id t = i \<and> t_source t = Manual) (time_offs d)) = Some old"
    "old \<in> set (time_offs d)" "t_id old = i" "t_member old = m" "t_source old = Manual"
    "member_user d m = Inr u" "may_manage current u" "reason_ok change"
    "merged_block (t_block old) change = Inr (t_block t)" "t_reason t = sent_or (tc_reason change) (t_reason old)"
    "t = old\<lparr>t_block := t_block t, t_reason := t_reason t\<rparr>"
    "(t = old \<and> d' = d) \<or> (refuse_over_bookings d m (t_block t) (Some (t_block old)) = Inr () \<and>
       d' = record_audit (d\<lparr>time_offs := update_where
              (\<lambda>r. t_id r = i \<and> t_member r = m \<and> t_source r = Manual)
              (\<lambda>r. r\<lparr>t_block := t_block t, t_reason := t_reason t\<rparr>) (time_offs d)\<rparr>)
         ''time_off_changed'' (user_id current) (Some (User u)))"
proof -
  have r: "reason_ok change" using assms by (auto simp: update_time_off_def split: if_splits)
  obtain m u where m: "manual_block d current i = Inr (m, u)"
    using assms r by (cases "manual_block d current i") (auto simp: update_time_off_def)
  obtain old where old: "first_row (filter (\<lambda>t. t_id t = i \<and> t_source t = Manual) (time_offs d)) = Some old"
    "t_member old = m" "member_user d m = Inr u" "may_manage current u"
    "old \<in> set (time_offs d)" "t_id old = i" "t_source old = Manual"
    by (rule manual_block_Inr [OF m])
  have row: "first_row (filter (\<lambda>t. t_id t = i \<and> t_member t = m \<and> t_source t = Manual) (time_offs d)) = Some old"
    using first_row_filter_conj [OF old(1), of "\<lambda>t. t_member t = m"] old(2)
    by (simp add: conj_ac)
  obtain b where b: "merged_block (t_block old) change = Inr b"
    using assms r m row by (cases "merged_block (t_block old) change") (auto simp: update_time_off_def Let_def)
  let ?reason = "sent_or (tc_reason change) (t_reason old)"
  show thesis
  proof (cases "b = t_block old \<and> ?reason = t_reason old")
    case True
    then have "t = old" "d' = d" using assms r m row b by (auto simp: update_time_off_def Let_def)
    then show thesis using old b r True by (intro that [of old m u]) auto
  next
    case False
    obtain w where w: "refuse_over_bookings d m b (Some (t_block old)) = Inr w"
      using assms r m row b False
      by (cases "refuse_over_bookings d m b (Some (t_block old))") (auto simp: update_time_off_def Let_def)
    have t: "t = old\<lparr>t_block := b, t_reason := ?reason\<rparr>"
      "d' = record_audit (d\<lparr>time_offs := update_where
              (\<lambda>r. t_id r = i \<and> t_member r = m \<and> t_source r = Manual)
              (\<lambda>r. r\<lparr>t_block := b, t_reason := ?reason\<rparr>) (time_offs d)\<rparr>)
         ''time_off_changed'' (user_id current) (Some (User u))"
      using assms r m row b False w by (auto simp: update_time_off_def Let_def)
    then show thesis using old b r w by (intro that [of old m u]) auto
  qed
qed

text \<open>The look-back loses nothing: a booking that meets the span starts within twelve hours of it.\<close>

lemma nothing_in_the_way:
  assumes "refuse_over_bookings d m b before = Inr w" and "b' \<in> set (bookings d)" "booking_ok d b'"
    and "b_worker b' = m" "b_status b' = Confirmed \<or> b_status b' = Pending \<and> unexpired d b'"
    and "now d < b_ends_at b'" "b_client b' \<in> c_id ` set (clients d)"
    and "meets (block_span (timezone (settings_of d)) b) (b_starts_at b', b_ends_at b')"
  obtains old where "before = Some old"
    "meets (block_span (timezone (settings_of d)) old) (b_starts_at b', b_ends_at b')"
proof -
  let ?z = "timezone (settings_of d)"
  have none: "in_the_way d m (block_span ?z b) (map_option (block_span ?z) before) = []"
    using assms(1) by (simp add: refuse_over_bookings_def Let_def split: if_splits)
  have "b' \<notin> set (in_the_way d m (block_span ?z b) (map_option (block_span ?z) before))"
    using none by simp
  moreover have "fst (block_span ?z b) - 12 * hour_us < b_starts_at b'"
    using assms(3,8) by (simp add: meets_def booking_ok_def)
  ultimately have "\<exists>s e. map_option (block_span ?z) before = Some (s, e) \<and> b_starts_at b' < e \<and> s < b_ends_at b'"
    using assms(2,4-8)
    by (auto simp: in_the_way_def meets_def list_ex_iff image_iff split: option.splits)
  then show thesis using that by (auto simp: meets_def)
qed

definition same_but_blocks :: "db \<Rightarrow> db \<Rightarrow> bool" where
  "same_but_blocks d d' \<longleftrightarrow> bookings d' = bookings d \<and> now d' = now d \<and> clients d' = clients d \<and>
     settings_of d' = settings_of d \<and> services d' = services d \<and> memberships d' = memberships d \<and>
     opening_hours d' = opening_hours d \<and> working_hours d' = working_hours d \<and>
     service_workers d' = service_workers d \<and> payments d' = payments d \<and> links d' = links d \<and>
     events d' = events d \<and> next_id d \<le> next_id d'"

lemma writers_keep_the_rest:
  "create_time_off d current m body = Inr (d', t) \<Longrightarrow> same_but_blocks d d'"
  "update_time_off d current i change = Inr (d', t) \<Longrightarrow> same_but_blocks d d'"
  "delete_time_off d current i = Inr d' \<Longrightarrow> same_but_blocks d d'"
proof -
  show "same_but_blocks d d'" if "create_time_off d current m body = Inr (d', t)"
    by (rule create_time_off_Inr [OF that]) (simp add: same_but_blocks_def record_audit_def)
  show "same_but_blocks d d'" if "update_time_off d current i change = Inr (d', t)"
    by (rule update_time_off_Inr [OF that]) (auto simp: same_but_blocks_def record_audit_def)
  show "same_but_blocks d d'" if "delete_time_off d current i = Inr d'"
    using that by (auto simp: delete_time_off_def same_but_blocks_def record_audit_def Let_def
        split: sum.splits if_splits)
qed

lemma saved_block_checked:
  assumes "saves_block d d' t before"
  shows "same_but_blocks d d' \<and> (before = Some (t_block t) \<or>
    refuse_over_bookings d (t_member t) (t_block t) before = Inr ())"
  using assms
proof cases
  case (Created current m body)
  show ?thesis
    by (rule create_time_off_Inr [OF Created(2)])
      (use writers_keep_the_rest(1) [OF Created(2)] Created(1) in simp)
next
  case (Changed current i change old)
  obtain m u old' where c: "first_row (filter (\<lambda>t. t_id t = i \<and> t_source t = Manual) (time_offs d)) = Some old'"
    "t_member old' = m" "t = old'\<lparr>t_block := t_block t, t_reason := t_reason t\<rparr>"
    "t = old' \<and> d' = d \<or> refuse_over_bookings d m (t_block t) (Some (t_block old')) = Inr ()"
    by (rule update_time_off_Inr [OF Changed(2)]) blast
  have "old' = old" using c(1) Changed(3) by simp
  moreover have "t_member t = m" using c(2) by (subst c(3)) simp
  ultimately show ?thesis using c(4) Changed(1) writers_keep_the_rest(2) [OF Changed(2)] by auto
qed

text \<open>
  C26: A block of time off is never saved over a live appointment of its member that is not
  over yet, unless the block it replaces already met that appointment.
\<close>

theorem saved_block_covers_no_appointment:
  assumes "saves_block d d' t before" and "tables_ok d" and "b \<in> set (bookings d')"
    and "b_worker b = t_member t" "now d' < b_ends_at b" "b_client b \<in> c_id ` set (clients d')"
    and "b_status b = Confirmed \<or> b_status b = Pending \<and> unexpired d' b"
    and "meets (block_span (timezone (settings_of d')) (t_block t)) (b_starts_at b, b_ends_at b)"
  shows "\<exists>old. before = Some old \<and>
    meets (block_span (timezone (settings_of d')) old) (b_starts_at b, b_ends_at b)"
proof -
  have same: "bookings d' = bookings d" "now d' = now d" "clients d' = clients d"
    "settings_of d' = settings_of d"
    and c: "before = Some (t_block t) \<or> refuse_over_bookings d (t_member t) (t_block t) before = Inr ()"
    using saved_block_checked [OF assms(1)] by (auto simp: same_but_blocks_def)
  have ok: "b \<in> set (bookings d)" "booking_ok d b" "b_status b = Confirmed \<or> b_status b = Pending \<and> unexpired d b"
    using assms(2,3,7) same by (auto simp: tables_ok_def unexpired_def split: option.splits)
  from c show ?thesis
  proof
    assume "refuse_over_bookings d (t_member t) (t_block t) before = Inr ()"
    then obtain old where "before = Some old"
      "meets (block_span (timezone (settings_of d)) old) (b_starts_at b, b_ends_at b)"
      by (rule nothing_in_the_way [OF _ ok(1,2) assms(4) ok(3)])
        (use assms(5,6,8) same in simp_all)
    then show ?thesis using same by simp
  qed (use assms(8) same in simp)
qed

text \<open>A body for the worker's own afternoon, and the worker's block moved.\<close>

definition sample_afternoon :: time_off_change where
  "sample_afternoon = \<lparr>tc_starts_at = Some (13 * hour_us), tc_ends_at = Some (16 * hour_us),
     tc_first_day = None, tc_last_day = None, tc_reason = Some (Some ''Dentist'')\<rparr>"

definition sample_longer :: time_off_change where
  "sample_longer = \<lparr>tc_starts_at = Some (9 * hour_us), tc_ends_at = None,
     tc_first_day = None, tc_last_day = None, tc_reason = None\<rparr>"

lemma sample_refusals:
  "map_sum id (\<lambda>_. ()) (create_time_off sample sample_owner 1 sample_afternoon) = Inl (OverlapsBookings [21] 1)"
  "map_sum id (\<lambda>_. ()) (update_time_off sample sample_owner 9 sample_longer) = Inl (OverlapsBookings [20] 1)"
  "map_sum id (\<lambda>_. ()) (create_time_off sample sample_worker 1 sample_afternoon) =
     Inl (ApiError 403 ''owner_only'')"
  by code_simp+

text \<open>A merchant's override put booking 21 into a block; the block may still grow around it.\<close>

definition sample_overridden :: db where
  "sample_overridden = sample\<lparr>time_offs := map (\<lambda>t. t\<lparr>t_block := Instants (14 * hour_us) (15 * hour_us)\<rparr>)
     (time_offs sample)\<rparr>"

definition sample_grown :: "db \<times> time_off" where
  "sample_grown = (case update_time_off sample_overridden sample_owner 9
       (sample_longer\<lparr>tc_starts_at := Some (13 * hour_us)\<rparr>) of
     Inr p \<Rightarrow> p | Inl _ \<Rightarrow> (sample, time_offs sample ! 0))"

lemma sample_grown_saved:
  "saves_block sample_overridden (fst sample_grown) (snd sample_grown) (Some (Instants (14 * hour_us) (15 * hour_us)))"
proof -
  have "\<not> isl (update_time_off sample_overridden sample_owner 9
      (sample_longer\<lparr>tc_starts_at := Some (13 * hour_us)\<rparr>))"
    by code_simp
  then have "update_time_off sample_overridden sample_owner 9 (sample_longer\<lparr>tc_starts_at := Some (13 * hour_us)\<rparr>) =
      Inr (fst sample_grown, snd sample_grown)"
    by (auto simp: sample_grown_def isl_def split: sum.split)
  moreover have "first_row (filter (\<lambda>t. t_id t = 9 \<and> t_source t = Manual) (time_offs sample_overridden)) =
      Some (time_offs sample_overridden ! 0)"
    by code_simp
  moreover have "t_block (time_offs sample_overridden ! 0) = Instants (14 * hour_us) (15 * hour_us)"
    by code_simp
  ultimately show ?thesis using Changed by metis
qed

theorem saved_block_covers_no_appointment_witness:
  "\<exists>old. Some (Instants (14 * hour_us) (15 * hour_us)) = Some old \<and>
    meets (block_span (timezone (settings_of (fst sample_grown))) old)
      (b_starts_at (bookings sample ! 1), b_ends_at (bookings sample ! 1))"
  by (rule saved_block_covers_no_appointment [OF sample_grown_saved, of "bookings sample ! 1"]) code_simp+

section \<open>A saved block closes the calendar\<close>

lemma saved_block_in:
  assumes "saves_block d d' t before"
  shows "t \<in> set (time_offs d')"
  using assms
proof cases
  case (Created current m body)
  show ?thesis by (rule create_time_off_Inr [OF Created(2)]) (simp add: record_audit_def)
next
  case (Changed current i change old)
  show ?thesis
    by (rule update_time_off_Inr [OF Changed(2)]) (auto simp: record_audit_def update_where_def image_iff)
qed

lemma block_size_checks:
  "block_size_ok b \<Longrightarrow> case b of Instants s e \<Rightarrow> e - s \<le> 366 * day_us | Days f l \<Rightarrow> f \<le> l \<and> l - f < 366"
  by (auto simp: block_size_ok_def LONGEST_def LONGEST_DAYS_def split: block.splits)

text \<open>Both writers keep the constraints of migrations 0019 and 0028.\<close>

lemma saves_block_keeps_tables:
  assumes "saves_block d d' t before" "tables_ok d"
    and "fst (block_span (timezone (settings_of d)) (t_block t)) < snd (block_span (timezone (settings_of d)) (t_block t))"
  shows "tables_ok d'"
proof -
  have same: "same_but_blocks d d'" using saved_block_checked [OF assms(1)] by blast
  have rows: "r \<in> set (time_offs d) \<or> t_block r = t_block t" if "r \<in> set (time_offs d')" for r
    using assms(1)
  proof cases
    case (Created current m body)
    show ?thesis
      by (rule create_time_off_Inr [OF Created(2)]) (use that in \<open>auto simp: record_audit_def\<close>)
  next
    case (Changed current i change old)
    show ?thesis
      by (rule update_time_off_Inr [OF Changed(2)]) (use that in \<open>auto simp: record_audit_def update_where_def\<close>)
  qed
  have size: "block_size_ok (t_block t) \<or> (\<exists>r \<in> set (time_offs d). t_block r = t_block t)"
    using assms(1)
  proof cases
    case (Created current m body)
    show ?thesis by (rule create_time_off_Inr [OF Created(2)]) simp
  next
    case (Changed current i change old)
    show ?thesis by (rule update_time_off_Inr [OF Changed(2)]) (use merged_block_size in metis)
  qed
  have old: "blocks_ok d" using assms(2) by (simp add: tables_ok_def)
  let ?fits = "\<lambda>b. (case b of Instants s e \<Rightarrow> e - s \<le> 366 * day_us | Days f l \<Rightarrow> f \<le> l \<and> l - f < 366) \<and>
    fst (block_span (timezone (settings_of d)) b) < snd (block_span (timezone (settings_of d)) b)"
  have fits: "?fits (t_block r)" if "r \<in> set (time_offs d)" for r
    using old that by (simp add: blocks_ok_def)
  have new: "?fits (t_block t)"
    using size
  proof
    assume "block_size_ok (t_block t)"
    then show ?thesis using block_size_checks assms(3) by blast
  next
    assume "\<exists>r \<in> set (time_offs d). t_block r = t_block t"
    then obtain r where r: "r \<in> set (time_offs d)" "t_block r = t_block t" by blast
    show ?thesis using fits [OF r(1)] unfolding r(2) .
  qed
  have "?fits (t_block r)" if "r \<in> set (time_offs d')" for r
    using rows [OF that]
  proof
    assume "t_block r = t_block t"
    then show ?thesis using new by (simp only:)
  qed (rule fits)
  then have "blocks_ok d'"
    using same by (simp add: blocks_ok_def same_but_blocks_def)
  then show ?thesis
    using assms(2) same
    by (simp add: tables_ok_def same_but_blocks_def services_ok_def booking_ok_def hours_of_def)
qed

text \<open>
  C25: From the moment a block of time off is saved, new or changed, no availability answer
  offers its member for a slot that meets it: whole local days or instants, whatever the
  window asked.
\<close>

theorem saved_block_closes_the_calendar:
  assumes "saves_block d d' t before" and "tables_ok d"
    and "fst (block_span (timezone (settings_of d)) (t_block t)) < snd (block_span (timezone (settings_of d)) (t_block t))"
    and "read_availability d' clock limited service since til member = Inr a"
    and "open_service d' service = Some s"
    and "window clock (timezone (settings_of d')) since til (min_notice_minutes (settings_of d'))
      (booking_horizon_days (settings_of d')) = (first, final, earliest)"
    and "padded (timezone (settings_of d')) first final"
    and "k < length (o_slots a)" and "t_member t \<in> set (takers a k)"
  shows "\<not> meets (block_span (timezone (settings_of d')) (t_block t))
             (o_slots a ! k, o_slots a ! k + o_duration_minutes a * minute_us)"
  by (rule availability_respects_time_off [OF saves_block_keeps_tables [OF assms(1-3)] assms(4-9)
      saved_block_in [OF assms(1)] refl])

text \<open>The dentist takes until one o'clock.\<close>

definition sample_late :: "db \<times> time_off" where
  "sample_late = (case update_time_off sample sample_owner 9
       (sample_longer\<lparr>tc_starts_at := None, tc_ends_at := Some (13 * hour_us)\<rparr>) of
     Inr p \<Rightarrow> p | Inl _ \<Rightarrow> (sample, time_offs sample ! 0))"

definition sample_late_answer :: availability_out where
  "sample_late_answer = (case read_availability (fst sample_late) 0 False 7 0 0 None of Inr a \<Rightarrow> a)"

lemma sample_late_saved:
  "saves_block sample (fst sample_late) (snd sample_late) (Some (t_block (time_offs sample ! 0)))"
proof -
  have "\<not> isl (update_time_off sample sample_owner 9
      (sample_longer\<lparr>tc_starts_at := None, tc_ends_at := Some (13 * hour_us)\<rparr>))"
    by code_simp
  then have "update_time_off sample sample_owner 9
      (sample_longer\<lparr>tc_starts_at := None, tc_ends_at := Some (13 * hour_us)\<rparr>) = Inr (fst sample_late, snd sample_late)"
    by (auto simp: sample_late_def isl_def split: sum.split)
  moreover have "first_row (filter (\<lambda>t. t_id t = 9 \<and> t_source t = Manual) (time_offs sample)) =
      Some (time_offs sample ! 0)"
    by code_simp
  ultimately show ?thesis by (rule Changed)
qed

theorem saved_block_closes_the_calendar_witness:
  "\<not> meets (block_span (timezone (settings_of (fst sample_late))) (t_block (snd sample_late)))
     (o_slots sample_late_answer ! 0,
      o_slots sample_late_answer ! 0 + o_duration_minutes sample_late_answer * minute_us)"
  by (rule saved_block_closes_the_calendar [OF sample_late_saved, of 0 False 7 0 0 None sample_late_answer
    sample_service 0 0 hour_us 0]) code_simp+

end
