(* ===== verification/History.thy ===== *)
theory History
  imports BookingLinks TimeOff
begin

text \<open>
  The steps of a business's bookings: the clock, the members, the clients, the worker, an erasure and
  the members' time off, each a handler or a statement of the code. Shows that every one of them keeps the table in order and
  every booking in its life cycle.
\<close>

section \<open>The steps of the table\<close>

text \<open>
  One step of a business's bookings: the clock, a member, a client, the worker or an erasure. Every
  writer takes the business's lock first, so their transactions follow one another.
\<close>

inductive table_step :: "db \<Rightarrow> db \<Rightarrow> bool" where
  Tick: "now d \<le> t \<Longrightarrow> table_step d (d\<lparr>now := t\<rparr>)"
| Sweep: "EXPIRE d = Inr (d', n) \<Longrightarrow> table_step d d'"
| Release: "EXPIRE_ONE d i = Inr (d', n) \<Longrightarrow> table_step d d'"
| Check_lands: "PAID d i ttl = Inr (d', rows) \<Longrightarrow> table_step d d'"
| Change: "transition d current i change ip agent = Inr (d', s) \<Longrightarrow> table_step d d'"
| Move: "reschedule d current i move ip agent = Inr (d', moved) \<Longrightarrow> table_step d d'"
| Client_cancels: "cancel_link i pct host agent d h = Inr (d', v) \<Longrightarrow> table_step d d'"
| Client_moves: "reschedule_link to host agent d h = Inr (d', v) \<Longrightarrow> table_step d d'"
| Client_confirms: "confirm_consents i host agent d h = Inr (d', v) \<Longrightarrow> table_step d d'"
| Erased: "end_for_erasure d client reason at actor = Inr (d', ids) \<Longrightarrow> table_step d d'"
| Online: "book_online number configured d online prover live = Inr (d', b, w, account) \<Longrightarrow> table_step d d'"
| By_hand: "book number d current mb ip agent = Inr (d', b, w) \<Longrightarrow> table_step d d'"
| Block_made: "create_time_off d current m body = Inr (d', t) \<Longrightarrow> table_step d d'"
| Block_changed: "update_time_off d current i body = Inr (d', t) \<Longrightarrow> table_step d d'"
| Block_deleted: "delete_time_off d current i = Inr d' \<Longrightarrow> table_step d d'"

lemma same_but_blocks_keeps:
  assumes "same_but_blocks d d'" "bookings_ok d"
  shows "evolves d d' \<and> bookings_ok d'"
  using assms evolves_same [of d' d] bookings_ok_cong [OF assms(2), of d']
  by (simp add: same_but_blocks_def)

lemma evolves_lapses: "lapses d d' \<Longrightarrow> evolves d d'"
  unfolding evolves_def lapses_def using follows_refl follows_status [OF Lapse] by metis

lemma book_online_evolves:
  assumes "book_online number configured d online prover live = Inr (d', b, w, account)" "bookings_ok d"
  shows "evolves d d'" "bookings_ok d'"
proof -
  obtain d3 where "lapses d d3" "bookings d' = bookings d3 @ [b]" "bookings_ok d'"
    using book_online_Inr [OF assms] by metis
  then show "evolves d d'" "bookings_ok d'"
    using evolves_lapses evolves_add evolves_trans by metis+
qed

lemma book_evolves:
  assumes "book number d current new ip agent = Inr (d', b, w)" "bookings_ok d"
  shows "evolves d d'" "bookings_ok d'"
proof -
  obtain d2 where "lapses d d2" "bookings d' = bookings d2 @ [b]" "bookings_ok d'"
    using book_Inr [OF assms] by metis
  then show "evolves d d'" "bookings_ok d'"
    using evolves_lapses evolves_add evolves_trans by metis+
qed

lemma confirm_consents_evolves:
  assumes "confirm_consents i host agent d h = Inr (d', v)" "bookings_ok d"
  shows "evolves d d'" "bookings_ok d'"
proof -
  obtain row e version d1 x where r: "resolve d h = Inr row" "i = b_id (lr_booking row)"
    "created_event d i = Some e" "pending_consents d i (b_client (lr_booking row)) \<noteq> []"
    "ea_policy_version (e_args e) = Some version"
    "record_consents d (b_client (lr_booking row)) version
      (map (\<lambda>p. (p, True)) (pending_consents d i (b_client (lr_booking row)))) Booking_page = Inr d1"
    "d' = insert_event d1 i Consent_confirmed (client_event host agent None)"
    "v = view_of row x (settings_of d') []"
    by (rule confirm_consents_Inr [OF assms(1)])
  have same: "same_tables d d1" "bookings d1 = bookings d"
    using consents_same [OF r(6)] by blast+
  show "evolves d d'" by (rule evolves_same) (simp add: r(7) same)
  show "bookings_ok d'"
    unfolding r(7) by (rule bookings_ok_log [OF bookings_ok_same [OF assms(2) same] insert_event_log])
qed

lemma table_step_keeps:
  assumes "table_step d d'" "bookings_ok d"
  shows "evolves d d' \<and> bookings_ok d'"
  using assms
proof cases
  case (Tick t)
  then show ?thesis
    using bookings_ok_cong [OF assms(2), of d'] evolves_same [of d' d] by simp
next
  case Sweep
  then show ?thesis using EXPIRE_evolves EXPIRE_same(2) [OF assms(2)] by blast
next
  case Release
  then show ?thesis using EXPIRE_ONE_evolves assms(2) by blast
next
  case Check_lands
  then show ?thesis using PAID_evolves assms(2) by blast
next
  case Change
  then show ?thesis using transition_evolves assms(2) by blast
next
  case Move
  then show ?thesis using reschedule_evolves assms(2) by blast
next
  case Client_cancels
  then show ?thesis using cancel_link_bookings(2,3) assms(2) by blast
next
  case Client_moves
  then show ?thesis using reschedule_link_bookings(1,2) assms(2) by blast
next
  case Client_confirms
  then show ?thesis using confirm_consents_evolves assms(2) by blast
next
  case Erased
  then show ?thesis using erasure_evolves assms(2) by blast
next
  case Online
  then show ?thesis using book_online_evolves assms(2) by blast
next
  case By_hand
  then show ?thesis using book_evolves assms(2) by blast
next
  case Block_made
  then show ?thesis using same_but_blocks_keeps [OF writers_keep_the_rest(1)] assms(2) by blast
next
  case Block_changed
  then show ?thesis using same_but_blocks_keeps [OF writers_keep_the_rest(2)] assms(2) by blast
next
  case Block_deleted
  then show ?thesis using same_but_blocks_keeps [OF writers_keep_the_rest(3)] assms(2) by blast
qed

end
