(* ===== verification/World.thy ===== *)
theory World
  imports Refunds History
begin

text \<open>
  The whole system of one business: its bookings' handlers, the payment handlers between their
  transactions and their calls, the worker's sweep, Stripe on its own, and processes that die. Shows
  what every interleaving of them keeps.
\<close>

section \<open>Every interleaving\<close>

text \<open>A request or job that calls Stripe, its answer dropped.\<close>

definition quiet :: "('s, 'a) program \<Rightarrow> ('s, unit) program" where
  "quiet p = attempt p (\<lambda>_. give ())"

inductive request :: "'s gateway \<Rightarrow> ('s, unit) program \<Rightarrow> bool" for gw where
  Starts: "request gw (quiet (start_payment gw account b kind))"
| Syncs: "request gw (quiet (sync_payment gw secret_ok i))"
| Resumes: "request gw (quiet (resume_payment gw configured secret_ok contended i kind))"
| Abandons: "request gw (quiet (abandon_payment gw secret_ok i))"
| Settles: "request gw (settle gw ready i)"
| Told: "request gw (handle_event gw ready kind object_id)"
| Shows: "request gw (quiet (read_account gw configured limited))"
| Connects: "request gw (quiet (connect_account gw configured limited host url current))"

text \<open>
  Stripe's state, the tables and the programs under way. A step is one transaction or one call of one
  of them, a request that arrives, one that ends or whose process dies, or Stripe's own move.
\<close>

type_synonym 's system = "'s \<times> db \<times> ('s, unit) program list"

inductive system_step :: "'s gateway \<Rightarrow> 's system \<Rightarrow> 's system \<Rightarrow> bool" for gw where
  Stripe_moves: "system_step gw (s, d, ps) (s', d, ps)"
| Commits: "table_step d d' \<Longrightarrow> system_step gw (s, d, ps) (s, d', ps)"
| Sweeps: "sweep_business clock d = Inr (d', n) \<Longrightarrow> system_step gw (s, d, ps) (s, d', ps)"
| Erases: "system_step gw (s, d, ps) (s, settle_ended ids d, ps)"
| Arrives: "request gw p \<Longrightarrow> system_step gw (s, d, ps) (s, d, ps @ [p])"
| Transacts: "system_step gw (s, d, ps @ Transaction f k # qs) (s, f d, ps @ k d # qs)"
| Calls: "system_step gw (s, d, ps @ Call c k # qs) (c s, d, ps @ k s # qs)"
| Ends: "system_step gw (s, d, ps @ p # qs) (s, d, ps @ qs)"

lemma quiet_steady: "lasting I \<Longrightarrow> steady I p \<Longrightarrow> steady I (quiet p)"
  unfolding quiet_def by (rule steady_attempt) (auto intro: steadies)

lemma request_steady: "request gw p \<Longrightarrow> steady (advances d) p"
  by (induction rule: request.induct)
    (auto intro!: quiet_steady lasting_after intro: steadies steady_weaken [OF steady_settle])

text \<open>A handler of bookings leaves the payments alone.\<close>

lemma confirm_leaves:
  assumes "confirm_consents i host agent d h = Inr (d', v)"
  shows "leaves_payments d d'"
proof (rule confirm_consents_Inr [OF assms])
  fix row e version d1
  assume c: "record_consents d (b_client (lr_booking row)) version
      (map (\<lambda>p. (p, True)) (pending_consents d i (b_client (lr_booking row)))) Booking_page = Inr d1"
    "d' = insert_event d1 i Consent_confirmed (client_event host agent None)"
  show ?thesis
    unfolding c(2)
    using consents_same [OF c(1)] leaves_payments_kinds(1,3) insert_event_log leaves_payments_trans by blast
qed

lemma cancel_leaves:
  assumes "cancel_link i pct host agent d h = Inr (d', v)"
  shows "leaves_payments d d'"
proof (rule cancel_link_Inr [OF assms])
  fix d1 rows
  assume c: "CLIENT_CANCEL d i = Inr (d1, rows)"
    "same_but_mail (insert_event d1 i (Became Cancelled_by_client)
       (client_event host agent (Some (Refund_pct pct)))) d'"
  show ?thesis
    by (rule leaves_payments_trans [OF leaves_payments_kinds(4) [OF c(1) [unfolded CLIENT_CANCEL_def]]
        leaves_payments_trans [OF leaves_payments_kinds(3) [OF insert_event_log] leaves_payments_kinds(2) [OF c(2)]]])
qed

lemma EXPIRE_leaves_payments: "EXPIRE d = Inr (d', n) \<Longrightarrow> leaves_payments d d'"
  by (auto simp: EXPIRE_def split: sum.splits
      intro: leaves_payments_trans [OF leaves_payments_kinds(4) leaves_payments_kinds(3) [OF log_all_log]])

lemma move_link_leaves:
  assumes "reschedule_link change host agent d h = Inr (d', v)"
  shows "leaves_payments d d'"
proof (rule reschedule_link_Inr [OF assms])
  fix row d1 n d2 rows moved
  assume c: "EXPIRE d = Inr (d1, n)"
    "update_bookings d1 (move_where d1 (lr_booking row) (mv_reschedule_count change))
       (move_set (lr_booking row) (mv_starts_at change)) = Inr (d2, rows)"
    "same_but_mail (insert_event d2 (b_id (lr_booking row)) Rescheduled (client_event host agent
       (Some (Moved (b_starts_at (lr_booking row)) (b_starts_at moved))))) d'"
  show ?thesis
    by (rule leaves_payments_trans [OF EXPIRE_leaves_payments [OF c(1)] leaves_payments_trans
        [OF leaves_payments_kinds(4) [OF c(2)] leaves_payments_trans
          [OF leaves_payments_kinds(3) [OF insert_event_log] leaves_payments_kinds(2) [OF c(3)]]]])
qed

lemma erasure_leaves:
  assumes "end_for_erasure d client reason at actor = Inr (d', ids)"
  shows "leaves_payments d d'"
proof -
  obtain d1 ended where u: "update_bookings d (END_where d client at) END_set = Inr (d1, ended)"
    "d' = fold (\<lambda>b d. insert_event d (b_id b) (Became (b_status b))
                 (no_args\<lparr>ea_actor := actor, ea_details := Some (Erasure reason at)\<rparr>)) ended d1"
    using assms by (auto simp: end_for_erasure_def split: sum.splits)
  have "same_but_log d1 d'" unfolding u(2) by (rule fold_log) simp
  then show ?thesis
    using leaves_payments_kinds(3,4) u(1) leaves_payments_trans by blast
qed

lemma table_step_leaves:
  assumes "table_step d d'" "bookings_ok d"
  shows "leaves_payments d d'"
  using assms
proof cases
  case (Tick t)
  then show ?thesis by (simp add: leaves_payments_def)
next
  case (Sweep n)
  then show ?thesis by (rule EXPIRE_leaves_payments)
next
  case (Release i n)
  then show ?thesis using EXPIRE_ONE_payments by (simp add: leaves_payments_def)
next
  case (Check_lands i ttl rows)
  then show ?thesis using leaves_payments_kinds(4) unfolding PAID_def by blast
next
  case Change
  then show ?thesis by (rule transition_leaves)
next
  case (Move current i move ip agent moved)
  show ?thesis by (rule reschedule_Inr [OF Move assms(2)])
next
  case Client_cancels
  then show ?thesis by (rule cancel_leaves)
next
  case Client_moves
  then show ?thesis by (rule move_link_leaves)
next
  case Client_confirms
  then show ?thesis by (rule confirm_leaves)
next
  case Erased
  then show ?thesis by (rule erasure_leaves)
next
  case Online
  show ?thesis by (rule book_online_Inr [OF Online assms(2)])
next
  case By_hand
  show ?thesis by (rule book_Inr [OF By_hand assms(2)])
next
  case Block_made
  then show ?thesis using writers_keep_the_rest(1) by (simp add: same_but_blocks_def leaves_payments_def)
next
  case Block_changed
  then show ?thesis using writers_keep_the_rest(2) by (simp add: same_but_blocks_def leaves_payments_def)
next
  case Block_deleted
  then show ?thesis using writers_keep_the_rest(3) by (simp add: same_but_blocks_def leaves_payments_def)
qed

lemma table_step_advances: "table_step d d' \<Longrightarrow> money_ok d \<Longrightarrow> advances d d'"
  using table_step_keeps table_step_leaves advances_bookings [of d d']
  by (auto simp: leaves_payments_def money_ok_def)

definition system_ok :: "'s system \<Rightarrow> bool" where
  "system_ok S \<longleftrightarrow> (case S of (s, d, ps) \<Rightarrow> money_ok d \<and> (\<forall>p \<in> set ps. steady (advances d) p))"

lemma onward:
  assumes "advances d d'" "system_ok (s, d, ps)"
  shows "system_ok (s', d', ps)"
  using assms steady_onward advances_ok by (fastforce simp: system_ok_def)

lemma system_step_keeps:
  assumes "system_step gw S S'" "system_ok S"
  shows "advances (fst (snd S)) (fst (snd S')) \<and> system_ok S'"
  using assms
proof cases
  case (Transacts s d ps f k qs)
  have a: "advances d (f d)" and k: "steady (advances (f d)) (k d)"
    using assms(2) advances_refl [of d] by (auto simp: Transacts system_ok_def)
  have "steady (advances (f d)) p" if "p \<in> set (ps @ qs)" for p
    using that assms(2) steady_onward [OF _ a] by (auto simp: Transacts system_ok_def)
  then show ?thesis using a k advances_ok by (auto simp: Transacts system_ok_def)
next
  case (Commits d d' s ps)
  have "money_ok d" using assms(2) Commits(1) by (simp add: system_ok_def)
  note a = table_step_advances [OF Commits(3) this]
  show ?thesis using a onward [OF a] assms(2) Commits by simp
next
  case (Sweeps clock d d' n s ps)
  have "money_ok d" using assms(2) Sweeps(1) by (simp add: system_ok_def)
  note a = sweep_business_advances [OF Sweeps(3) this]
  show ?thesis using a onward [OF a] assms(2) Sweeps by simp
next
  case (Erases s d ps ids)
  then have "advances d (settle_ended ids d)"
    using advances_mail [OF settle_ended_mail] assms(2) by (auto simp: system_ok_def)
  note a = this
  show ?thesis using onward [OF a] assms(2) Erases a by simp
next
  case (Arrives p s d ps)
  then show ?thesis using assms(2) request_steady advances_refl by (auto simp: system_ok_def)
qed (use assms(2) advances_refl in \<open>auto simp: system_ok_def\<close>)

lemma system_keeps:
  "(system_step gw)\<^sup>*\<^sup>* S S' \<Longrightarrow> system_ok S \<Longrightarrow> advances (fst (snd S)) (fst (snd S')) \<and> system_ok S'"
proof (induction rule: rtranclp_induct)
  case base
  then show ?case by (auto simp: system_ok_def intro: advances_refl)
next
  case (step S1 S2)
  then show ?case using system_step_keeps [OF step.hyps(2)] advances_trans by blast
qed

lemma idle_ok: "money_ok d \<Longrightarrow> system_ok (s, d, [])"
  by (simp add: system_ok_def)

lemma history_advances:
  assumes "(system_step gw)\<^sup>*\<^sup>* (s, d, []) (s', d', ps)" "money_ok d"
  shows "advances d d'"
  using system_keeps [OF assms(1) idle_ok [OF assms(2)]] by simp

section \<open>A run is a history\<close>

lemma run_steps:
  assumes "perform p (s, d) = ((s', d'), r)"
  shows "(system_step gw)\<^sup>*\<^sup>* (s, d, ps @ [p]) (s', d', ps @ [Return r])"
  using assms
proof (induction p arbitrary: s d)
  case (Transaction f k)
  have "system_step gw (s, d, ps @ [Transaction f k]) (s, f d, ps @ [k d])"
    by (rule Transacts)
  moreover have "(system_step gw)\<^sup>*\<^sup>* (s, f d, ps @ [k d]) (s', d', ps @ [Return r])"
    by (rule Transaction.IH [OF rangeI]) (use Transaction.prems in simp)
  ultimately show ?case by (rule converse_rtranclp_into_rtranclp)
next
  case (Call c k)
  have "system_step gw (s, d, ps @ [Call c k]) (c s, d, ps @ [k s])"
    by (rule Calls)
  moreover have "(system_step gw)\<^sup>*\<^sup>* (c s, d, ps @ [k s]) (s', d', ps @ [Return r])"
    by (rule Call.IH [OF rangeI]) (use Call.prems in simp)
  ultimately show ?case by (rule converse_rtranclp_into_rtranclp)
qed simp

lemma request_runs:
  assumes "request gw p" "perform p (s, d) = ((s', d'), r)"
  shows "(system_step gw)\<^sup>*\<^sup>* (s, d, ps) (s', d', ps)"
proof -
  have "system_step gw (s, d, ps) (s, d, ps @ [p])" by (rule Arrives [OF assms(1)])
  moreover have "(system_step gw)\<^sup>*\<^sup>* (s, d, ps @ [p]) (s', d', ps @ [Return r])"
    by (rule run_steps [OF assms(2)])
  moreover have "system_step gw (s', d', ps @ [Return r]) (s', d', ps)"
    using Ends [of gw s' d' ps "Return r" "[]"] by simp
  ultimately show ?thesis
    by (meson converse_rtranclp_into_rtranclp rtranclp.rtrancl_into_rtrancl)
qed

text \<open>One run of the sample: Stripe tells of booking 22's payment, which books it.\<close>

definition sample_news :: "(intents, unit) program" where
  "sample_news = handle_event sample_stripe True ''payment_intent.succeeded'' (Some ''pi_2'')"

definition sample_landed :: db where
  "sample_landed = snd (fst (perform sample_news (sample_intents, sample_shop)))"

lemma sample_lands:
  "map p_status (payments sample_landed) = [Paid, Paid]"
  "map b_status (bookings sample_landed) = [Confirmed, Pending, Pending]"
  by code_simp+

lemma sample_history:
  "\<exists>s'. (system_step sample_stripe)\<^sup>*\<^sup>* (sample_intents, sample_shop, []) (s', sample_landed, [])"
proof -
  obtain s' d' r where r: "perform sample_news (sample_intents, sample_shop) = ((s', d'), r)"
    by (metis prod.collapse)
  have "d' = sample_landed" by (simp add: sample_landed_def r)
  then show ?thesis using request_runs [OF Told r [unfolded sample_news_def]] by blast
qed

lemma sample_money_ok: "money_ok sample_shop"
  by code_simp

section \<open>What every history keeps\<close>

lemma history_bookings:
  assumes "(system_step gw)\<^sup>*\<^sup>* (s, d, []) (s', d', ps)" "money_ok d" "b \<in> set (bookings d)"
  obtains b' where "b' \<in> set (bookings d')" "follows b b'" "bookings_ok d'"
  using history_advances [OF assms(1,2)] assms(3) that
  by (auto simp: advances_def evolves_def money_ok_def)

lemma history_payments:
  assumes "(system_step gw)\<^sup>*\<^sup>* (s, d, []) (s', d', ps)" "money_ok d" "p \<in> set (payments d)"
  obtains p' where "p' \<in> set (payments d')" "goes_on p p'"
  using history_advances [OF assms(1,2)] assms(3) that
  by (auto simp: advances_def payments_go_on_def)





text \<open>A booking the client cancelled stays cancelled, under every later history.\<close>

lemma cancelled_stays:
  assumes c: "cancel_link i pct host agent d h = Inr (d', v)" and ok: "money_ok d"
    and hist: "(system_step gw)\<^sup>*\<^sup>* (s, d', []) (s', d'', ps)"
  obtains b where "b \<in> set (bookings d'')" "b_id b = i" "b_status b = Cancelled_by_client" "bookings_ok d''"
proof -
  have ok1: "bookings_ok d" and ok2: "money_ok d'"
    using ok table_step_advances [OF Client_cancels [OF c] ok] by (simp_all add: money_ok_def advances_def)
  obtain row x d1 rows b0 where r: "resolve d h = Inr row" "i = b_id (lr_booking row)"
    by (rule cancel_link_Inr [OF c])
  let ?b = "(lr_booking row)\<lparr>b_status := Cancelled_by_client\<rparr>"
  have "?b \<in> set (bookings d')"
    using resolve_Inr(1) [OF r(1)] r(2) cancel_link_bookings(1) [OF c ok1] by force
  then obtain b' where "b' \<in> set (bookings d'')" "follows ?b b'" "bookings_ok d''"
    by (rule history_bookings [OF hist ok2])
  then show ?thesis
    using that terminal_final r(2) by (auto simp: follows_def TERMINAL_def)
qed

text \<open>
  C23: Once a client has cancelled, the booking stays cancelled under every later history, and
  no link of it, whichever was mailed, ever opens it again.
\<close>

theorem client_cancellation_is_final:
  assumes "cancel_link i pct host agent d h = Inr (d', v)" and "money_ok d"
    and "(system_step gw)\<^sup>*\<^sup>* (s, d', []) (s', d'', ps)"
  shows "(\<exists>b \<in> set (bookings d''). b_id b = i \<and> b_status b = Cancelled_by_client) \<and>
    (\<forall>h' row. resolve d'' h' = Inr row \<longrightarrow> b_id (lr_booking row) \<noteq> i)"
proof -
  obtain b where b: "b \<in> set (bookings d'')" "b_id b = i" "b_status b = Cancelled_by_client" "bookings_ok d''"
    by (rule cancelled_stays [OF assms])
  have "b_id (lr_booking row) \<noteq> i" if row: "resolve d'' h' = Inr row" for h' row
  proof
    assume "b_id (lr_booking row) = i"
    then have "lr_booking row = b"
      using same_id_same [OF b(4) resolve_Inr(1) [OF row] b(1)] b(2) by simp
    then show False using resolve_Inr(3) [OF row] b(3) by (simp add: link_live_def)
  qed
  then show ?thesis using b(1-3) by blast
qed

theorem client_cancellation_is_final_witness:
  "\<exists>d' v. cancel_link 20 0 None None sample ''digest'' = Inr (d', v) \<and>
     (\<exists>b. b \<in> set (bookings d') \<and> b_id b = 20 \<and> b_status b = Cancelled_by_client)"
proof -
  obtain d' v where c: "cancel_link 20 0 None None sample ''digest'' = Inr (d', v)"
    using sample_cancels by blast
  have "money_ok sample" by code_simp
  then show ?thesis
    using c client_cancellation_is_final [OF c _ rtranclp.rtrancl_refl] by blast
qed

text \<open>
  C2: Whatever Stripe answers and however its calls interleave with other requests, a payment
  is never lost, what it is for and what it costs never change, it leaves open once and for
  good, and a settled one keeps when it was settled and what was sent back.
\<close>

theorem money_only_moves_forward:
  assumes "(system_step gw)\<^sup>*\<^sup>* (s, d, []) (s', d', ps)" and "money_ok d" and "p \<in> set (payments d)"
  shows "\<exists>p' \<in> set (payments d'). terms_of p' = terms_of p \<and>
    (p_status p \<noteq> Open \<longrightarrow> p_status p' = p_status p) \<and>
    (p_settled_at p \<noteq> None \<longrightarrow> p_settled_at p' = p_settled_at p \<and> p_refunded_minor p' = p_refunded_minor p)"
proof -
  obtain p' where "p' \<in> set (payments d')" "goes_on p p'"
    by (rule history_payments [OF assms])
  then show ?thesis by (intro bexI [of _ p']) (auto simp: goes_on_def payment_step_simps)
qed

theorem money_only_moves_forward_witness:
  "\<exists>p. p \<in> set (payments sample_landed) \<and> terms_of p = terms_of (sample_payment 30 20 ''pi_1'' Paid) \<and>
    p_status p = Paid"
proof -
  obtain s' where h: "(system_step sample_stripe)\<^sup>*\<^sup>* (sample_intents, sample_shop, []) (s', sample_landed, [])"
    using sample_history by blast
  have "sample_payment 30 20 ''pi_1'' Paid \<in> set (payments sample_shop)"
    "p_status (sample_payment 30 20 ''pi_1'' Paid) = Paid"
    by (simp_all add: sample_shop_def sample_payment_def)
  then show ?thesis using money_only_moves_forward [OF h sample_money_ok] by fastforce
qed

text \<open>
  C3: In every such history a booking has one payment at most that is not cancelled, no
  payment sends back more than was paid or less than nothing, and only one that was paid and
  is settled has sent anything back.
\<close>

theorem books_always_balance:
  assumes "(system_step gw)\<^sup>*\<^sup>* (s, d, []) (s', d', ps)" and "money_ok d" and "p \<in> set (payments d')"
  shows "0 \<le> p_refunded_minor p \<and> p_refunded_minor p \<le> p_amount_minor p \<and>
    (p_refunded_minor p \<noteq> 0 \<longrightarrow> p_status p = Paid \<and> p_settled_at p \<noteq> None) \<and>
    (p_status p = Open \<longrightarrow> p_settled_at p = None) \<and>
    (\<forall>q \<in> set (payments d'). p_booking q = p_booking p \<longrightarrow> p_status q \<noteq> Canceled \<longrightarrow>
       p_status p \<noteq> Canceled \<longrightarrow> q = p)"
proof -
  have ok: "payments_ok d'" using history_advances [OF assms(1,2)] by (simp add: advances_def money_ok_def)
  then have "payment_checks p" "settled_right p" using assms(3) by (simp_all add: payments_ok_def)
  moreover have "q = p" if "q \<in> set (payments d')" "p_booking q = p_booking p" "p_status q \<noteq> Canceled"
    "p_status p \<noteq> Canceled" for q
    using apart_in [OF ok that(1) assms(3)] that by (auto simp: payment_clash_def)
  ultimately show ?thesis by (auto simp: payment_checks_def settled_right_def)
qed

theorem books_always_balance_witness:
  "p_refunded_minor (payments sample_landed ! 1) \<le> p_amount_minor (payments sample_landed ! 1)"
proof -
  obtain s' where h: "(system_step sample_stripe)\<^sup>*\<^sup>* (sample_intents, sample_shop, []) (s', sample_landed, [])"
    using sample_history by blast
  have "length (payments sample_landed) = 2" using sample_lands(1) by (metis length_map length_Cons list.size(3) numeral_2_eq_2)
  then have "payments sample_landed ! 1 \<in> set (payments sample_landed)" by simp
  then show ?thesis using books_always_balance [OF h sample_money_ok] by blast
qed

end
