(* ===== verification/PublicBooking.thy ===== *)
theory PublicBooking
  imports Placing
begin

text \<open>
  \<open>create\<close>, the public route of \<open>backend/app/bookings.py\<close>, around \<open>book_online\<close>: the limits it spends and
  gives back, and the alert to the owners; with \<open>address_for_limits\<close> of \<open>backend/app/limits.py\<close>. Shows
  that only placed bookings spend an address's placements, that each limit holds for what is placed,
  and which aliases of a mailbox share a limit.
\<close>

section \<open>One mailbox, one key\<close>

text \<open>\<open>partition\<close> at the first separator, \<open>rpartition\<close> at the last (no separator: all is domain).\<close>

definition before :: "char \<Rightarrow> string \<Rightarrow> string" where
  "before c s = takeWhile (\<lambda>x. x \<noteq> c) s"

definition after :: "char \<Rightarrow> string \<Rightarrow> string" where
  "after c s = drop 1 (dropWhile (\<lambda>x. x \<noteq> c) s)"

definition rpartition :: "char \<Rightarrow> string \<Rightarrow> string \<times> string" where
  "rpartition c s =
     (if c \<in> set s then (rev (after c (rev s)), rev (before c (rev s))) else ([], s))"

definition rstrip_dots :: "string \<Rightarrow> string" where
  "rstrip_dots s = rev (dropWhile (\<lambda>x. x = CHR ''.'') (rev s))"

definition GMAIL_DOMAINS :: "string list" where
  "GMAIL_DOMAINS = [''gmail.com'', ''googlemail.com'']"

definition YAHOO_DOMAINS :: "string list" where
  "YAHOO_DOMAINS = [''yahoo.com'', ''ymail.com'', ''rocketmail.com'', ''yahoo.co.uk'', ''yahoo.fr'',
     ''yahoo.de'', ''yahoo.es'', ''yahoo.it'', ''yahoo.nl'', ''yahoo.ca'', ''yahoo.in'',
     ''yahoo.com.au'', ''yahoo.com.br'', ''yahoo.com.mx'', ''yahoo.com.ar'']"

definition FASTMAIL_DOMAINS :: "string list" where
  "FASTMAIL_DOMAINS = [''fastmail.com'', ''fastmail.fm'']"

definition address_for_limits :: "string \<Rightarrow> string" where
  "address_for_limits address =
     (let (local0, domain0) = rpartition (CHR ''@'') (lower address);
          local = before (CHR ''+'') local0;
          domain = rstrip_dots domain0;
          (l, dom) =
            (if domain \<in> set GMAIL_DOMAINS
             then (filter (\<lambda>c. c \<noteq> CHR ''.'') local, ''gmail.com'')
             else if domain \<in> set YAHOO_DOMAINS then (before (CHR ''-'') local, domain)
             else if after (CHR ''.'') domain \<in> set FASTMAIL_DOMAINS
             then (before (CHR ''.'') domain, after (CHR ''.'') domain)
             else (local, domain))
      in l @ ''@'' @ dom)"

section \<open>create\<close>

definition IP_LIMIT :: int where "IP_LIMIT = 30"
definition BUSINESS_IP_LIMIT :: int where "BUSINESS_IP_LIMIT = 10"
definition EMAIL_LIMIT :: int where "EMAIL_LIMIT = 5"
definition ADDRESS_LIMIT :: int where "ADDRESS_LIMIT = 10"
definition LIMIT_WINDOW :: int where "LIMIT_WINDOW = hour_us"
definition UNPROVEN_PER_BUSINESS_HOUR :: int where "UNPROVEN_PER_BUSINESS_HOUR = 20"

text \<open>The keys \<open>create\<close> counts on, by their parts.\<close>

datatype public_key =
    By_ip bucket
  | By_business_ip uuid bucket
  | Attempt uuid string bucket
  | Verify string
  | Placed uuid string
  | Unproven uuid
  | Flood uuid

text \<open>
  The request, as \<open>create\<close> sees it: the sessions that came with it (\<open>accounts\<close>: user, verified email,
  and whether the session is still live when the booking is written), whether Turnstile passed, and
  whether the booking transaction ended in an \<open>OperationalError\<close> (a deadlock or serialization
  failure), which undoes it. \<open>purged\<close> is what the purges delete; the request is served at one time.
\<close>

record request =
  rq_accounts :: "(uuid \<times> string \<times> bool) list"
  rq_ip :: "ip option"
  rq_turnstile :: bool
  rq_busy :: bool

definition give_back :: "instant \<Rightarrow> public_key list \<Rightarrow> public_key table \<Rightarrow> public_key table" where
  "give_back clock keys t = (case refund clock keys LIMIT_WINDOW t of Inl _ \<Rightarrow> t | Inr t' \<Rightarrow> t')"

definition flood ::
  "instant \<Rightarrow> (public_key \<Rightarrow> bool) \<Rightarrow> public_key table \<times> db \<Rightarrow> public_key table \<times> db" where
  "flood clock purged = (\<lambda>(t, d).
     case charge clock purged (Flood (tenant d)) LIMIT_WINDOW t of
       Inl _ \<Rightarrow> (t, d)
     | Inr (t', hits) \<Rightarrow>
         if hits \<noteq> 1 then (t', d)
         else (t', fold (\<lambda>u d. fst (enqueue d Email_booking_flood
                     (Flood_key (clock div hour_us) u) [] None))
                   (map m_user (filter (\<lambda>m. m_role m = Owner) (memberships d))) d))"

definition rate_limited :: "'a result" where "rate_limited = Inl (ApiError 429 ''rate_limited'')"

text \<open>\<open>hit\<close> with the window of this route (never refused): the table and whether a key is over.\<close>

definition hit1 ::
  "instant \<Rightarrow> (public_key \<Rightarrow> bool) \<Rightarrow> (public_key \<times> int) list \<Rightarrow> public_key table \<Rightarrow>
   public_key table \<times> bool" where
  "hit1 clock purged lims t =
     (case hit clock purged lims LIMIT_WINDOW t of Inl _ \<Rightarrow> (t, True) | Inr r \<Rightarrow> r)"

definition placement_limits :: "uuid \<Rightarrow> string \<Rightarrow> (public_key \<times> int) list" where
  "placement_limits ten mailbox = [(Verify mailbox, ADDRESS_LIMIT), (Placed ten mailbox, EMAIL_LIMIT)]"

text \<open>Steps 1 to 3: the gates before any placement is reserved.\<close>

definition gates ::
  "instant \<Rightarrow> (public_key \<Rightarrow> bool) \<Rightarrow> uuid \<Rightarrow> request \<Rightarrow> string \<Rightarrow> public_key table \<Rightarrow>
   public_key table \<times> unit result" where
  "gates clock purged ten rq mailbox t =
     (let b = ip_bucket 64 (rq_ip rq);
          (t1, over1) = hit1 clock purged
            [(By_ip b, IP_LIMIT), (By_business_ip ten b, BUSINESS_IP_LIMIT)] t
      in if over1 then (t1, rate_limited)
         else if \<not> rq_turnstile rq then (t1, Inl (ApiError 403 ''turnstile_failed''))
         else
           let (t2, over2) = hit1 clock purged [(Attempt ten mailbox b, EMAIL_LIMIT)] t1
           in if over2 then (t2, rate_limited) else (t2, Inr ()))"

definition proof_of :: "request \<Rightarrow> string \<Rightarrow> (uuid \<times> string \<times> bool) option" where
  "proof_of rq address = first_row (filter (\<lambda>a. fst (snd a) = address) (rq_accounts rq))"

text \<open>The booking transaction and its \<open>except\<close>.\<close>

definition booking_tx ::
  "(string \<Rightarrow> string option) \<Rightarrow> bool \<Rightarrow> request \<Rightarrow> online \<Rightarrow> db \<Rightarrow>
   (db \<times> booking \<times> uuid \<times> string option) result" where
  "booking_tx number configured rq new d =
     (if rq_busy rq then Inl (ApiError 503 ''busy'')
      else
        let p = proof_of rq (on_address new)
        in book_online number configured d new (map_option fst p)
             (case p of None \<Rightarrow> True | Some (_, _, live) \<Rightarrow> live))"

definition create ::
  "(string \<Rightarrow> string option) \<Rightarrow> bool \<Rightarrow> (public_key \<Rightarrow> bool) \<Rightarrow> request \<Rightarrow> online \<Rightarrow>
   public_key table \<Rightarrow> db \<Rightarrow> public_key table \<times> db \<times> booking result" where
  "create number configured purged rq new t d =
     (let clock = now d; ten = tenant d;
          proven = (proof_of rq (on_address new) \<noteq> None);
          mailbox = address_for_limits (on_address new);
          (t2, gate) = gates clock purged ten rq mailbox t
      in case gate of
           Inl e \<Rightarrow> (t2, d, Inl e)
         | Inr _ \<Rightarrow>
             let lims = placement_limits ten mailbox;
                 (t3, over3) = hit1 clock purged lims t2
             in if over3 then (give_back clock (map fst lims) t3, d, rate_limited)
                else
                  let (t4, hits) = (if proven then (t3, 0)
                        else case charge clock purged (Unproven ten) LIMIT_WINDOW t3 of
                          Inl _ \<Rightarrow> (t3, 0) | Inr r \<Rightarrow> r);
                      reserved = map fst lims @ (if proven then [] else [Unproven ten])
                  in if UNPROVEN_PER_BUSINESS_HOUR < hits
                     then (let (t5, d1) = flood clock purged (t4, d)
                           in (give_back clock reserved t5, d1, rate_limited))
                     else (case booking_tx number configured rq new d of
                             Inl e \<Rightarrow> (give_back clock reserved t4, d, Inl e)
                           | Inr (d1, b, _, _) \<Rightarrow> (t4, d1, Inr b)))"

section \<open>What is spent\<close>

abbreviation spent :: "instant \<Rightarrow> public_key table \<Rightarrow> public_key \<Rightarrow> int" where
  "spent clock t k \<equiv> live_hits clock LIMIT_WINDOW t k"

lemma window_ok: "LIMIT_WINDOW \<le> MAX_WINDOW" "0 < LIMIT_WINDOW"
  by (simp_all add: LIMIT_WINDOW_def MAX_WINDOW_def)

lemma hit1_spec:
  assumes "hit1 clock purged lims t = (t', over)" "distinct (map fst lims)"
  shows "spent clock t' k = (if k \<in> fst ` set lims then spent clock t k + 1 else spent clock t k)"
    and "over \<longleftrightarrow> (\<exists>(k, lim) \<in> set lims. lim < spent clock t k + 1)"
proof -
  have "hit clock purged lims LIMIT_WINDOW t = Inr (t', over)"
    using assms(1) window_ok(1)
    by (auto simp: hit1_def hit_def charge_keys_def check_window_def Let_def split: sum.splits)
  from hit_spec [OF this assms(2) window_ok(2)]
  show "spent clock t' k = (if k \<in> fst ` set lims then spent clock t k + 1 else spent clock t k)"
    and "over \<longleftrightarrow> (\<exists>(k, lim) \<in> set lims. lim < spent clock t k + 1)"
    by auto
qed

lemma charge_spec:
  assumes "charge clock purged k LIMIT_WINDOW t = r"
  obtains t' where "r = Inr (t', spent clock t k + 1)"
    "\<And>x. spent clock t' x = (if x = k then spent clock t x + 1 else spent clock t x)"
proof -
  have d: "distinct [k]" "k \<in> set [k]" by simp_all
  have "r = Inr (PURGE clock purged (HIT clock LIMIT_WINDOW [k] t), spent clock t k + 1)"
    using assms window_ok(1) hits_HIT [OF d, of clock LIMIT_WINDOW t]
    by (auto simp: charge_def charge_keys_def check_window_def Let_def simp del: HIT_Cons)
  then show thesis
    by (rule that)
      (simp add: live_hits_PURGE [OF window_ok(1)] live_hits_HIT [OF d(1) window_ok(2)]
        del: HIT_Cons)
qed

lemma give_back_spec:
  "spent clock (give_back clock keys t) k =
     (if k \<in> set keys \<and> 0 < spent clock t k then spent clock t k - 1 else spent clock t k)"
proof -
  obtain t' where "refund clock keys LIMIT_WINDOW t = Inr t'"
    using window_ok(1) by (simp add: refund_def check_window_def)
  then show ?thesis
    using refund_spec [of clock keys LIMIT_WINDOW t t' k] by (simp add: give_back_def)
qed

lemma gates_others:
  assumes "gates clock purged ten rq mailbox t = (t', r)"
    and "k \<notin> {By_ip (ip_bucket 64 (rq_ip rq)), By_business_ip ten (ip_bucket 64 (rq_ip rq)),
      Attempt ten mailbox (ip_bucket 64 (rq_ip rq))}"
  shows "spent clock t' k = spent clock t k"
proof -
  let ?b = "ip_bucket 64 (rq_ip rq)"
  obtain t1 over1 where h1: "hit1 clock purged [(By_ip ?b, IP_LIMIT), (By_business_ip ten ?b, BUSINESS_IP_LIMIT)] t
      = (t1, over1)" by fastforce
  obtain t2 over2 where h2: "hit1 clock purged [(Attempt ten mailbox ?b, EMAIL_LIMIT)] t1 = (t2, over2)"
    by fastforce
  have "spent clock t1 k = spent clock t k" "spent clock t2 k = spent clock t1 k"
    using hit1_spec(1) [OF h1, of k] hit1_spec(1) [OF h2, of k] assms(2) by auto
  moreover have "t' = t1 \<or> t' = t2"
    using assms(1) by (auto simp: gates_def Let_def h1 h2 split: if_splits)
  ultimately show ?thesis by auto
qed

text \<open>The keys only a placed booking is to spend.\<close>

definition placement_keys :: "uuid \<Rightarrow> string \<Rightarrow> public_key set" where
  "placement_keys ten mailbox = {Verify mailbox, Placed ten mailbox, Unproven ten}"

lemma flood_others:
  assumes "flood clock purged (t, d) = (t', d')"
  shows "k \<noteq> Flood (tenant d) \<Longrightarrow> spent clock t' k = spent clock t k"
    and "bookings d' = bookings d"
proof -
  obtain t1 where c: "charge clock purged (Flood (tenant d)) LIMIT_WINDOW t =
      Inr (t1, spent clock t (Flood (tenant d)) + 1)"
    "\<And>x. spent clock t1 x = (if x = Flood (tenant d) then spent clock t x + 1 else spent clock t x)"
    using charge_spec [OF refl] by metis
  have "bookings (fold (\<lambda>u d. fst (enqueue d kind (f u) x due)) us d) = bookings d" for kind f x due us d
    by (induction us arbitrary: d) auto
  then show "k \<noteq> Flood (tenant d) \<Longrightarrow> spent clock t' k = spent clock t k"
    and "bookings d' = bookings d"
    using assms c by (auto simp: flood_def Let_def split: if_splits)
qed

lemma create_spec:
  assumes "create number configured purged rq new t d = (t', d', r)"
  defines "clock \<equiv> now d" and "mailbox \<equiv> address_for_limits (on_address new)"
  shows "(\<exists>e. r = Inl e \<and> bookings d' = bookings d \<and>
            (\<forall>k \<in> placement_keys (tenant d) mailbox. 0 \<le> spent clock t k \<longrightarrow>
               spent clock t' k = spent clock t k)) \<or>
         (\<exists>b w account. r = Inr b \<and> booking_tx number configured rq new d = Inr (d', b, w, account) \<and>
            spent clock t (Verify mailbox) < ADDRESS_LIMIT \<and>
            spent clock t' (Verify mailbox) = spent clock t (Verify mailbox) + 1 \<and>
            spent clock t (Placed (tenant d) mailbox) < EMAIL_LIMIT \<and>
            spent clock t' (Placed (tenant d) mailbox) = spent clock t (Placed (tenant d) mailbox) + 1 \<and>
            (proof_of rq (on_address new) = None \<longrightarrow>
               spent clock t (Unproven (tenant d)) < UNPROVEN_PER_BUSINESS_HOUR \<and>
               spent clock t' (Unproven (tenant d)) = spent clock t (Unproven (tenant d)) + 1) \<and>
            (proof_of rq (on_address new) \<noteq> None \<longrightarrow>
               spent clock t' (Unproven (tenant d)) = spent clock t (Unproven (tenant d))))"
proof -
  let ?proven = "proof_of rq (on_address new) \<noteq> None" and ?ten = "tenant d"
  let ?lims = "placement_limits ?ten mailbox"
  obtain t2 gate where g: "gates clock purged ?ten rq mailbox t = (t2, gate)"
    by fastforce
  have g': "spent clock t2 k = spent clock t k" if "k \<in> placement_keys ?ten mailbox" for k
    using gates_others [OF g, of k] that by (auto simp: placement_keys_def)
  obtain t3 over3 where h: "hit1 clock purged ?lims t2 = (t3, over3)"
    by fastforce
  have dist: "distinct (map fst ?lims)"
    by (simp add: placement_limits_def)
  note h3 = hit1_spec [OF h dist]
  obtain t4u where c: "charge clock purged (Unproven ?ten) LIMIT_WINDOW t3 =
      Inr (t4u, spent clock t3 (Unproven ?ten) + 1)"
    "\<And>x. spent clock t4u x = (if x = Unproven ?ten then spent clock t3 x + 1 else spent clock t3 x)"
    using charge_spec [OF refl] by metis
  let ?t4 = "if ?proven then t3 else t4u"
  let ?hits = "if ?proven then 0 else spent clock t3 (Unproven ?ten) + 1"
  let ?res = "map fst ?lims @ (if ?proven then [] else [Unproven ?ten])"
  have t4: "spent clock ?t4 k = (if k \<in> set ?res then spent clock t k + 1 else spent clock t k)"
    if "k \<in> placement_keys ?ten mailbox" for k
    using g' [OF that] h3(1) [of k] c(2) [of k] that
    by (auto simp: placement_keys_def placement_limits_def)
  have given: "spent clock (give_back clock ?res t5) k = spent clock t k"
    if "k \<in> placement_keys ?ten mailbox" "0 \<le> spent clock t k" "spent clock t5 k = spent clock ?t4 k" for k t5
    using t4 [OF that(1)] that by (auto simp: give_back_spec)
  have given3: "spent clock (give_back clock (map fst ?lims) t3) k = spent clock t k"
    if "k \<in> placement_keys ?ten mailbox" "0 \<le> spent clock t k" for k
    using g' [OF that(1)] h3(1) [of k] that by (auto simp: give_back_spec)
  obtain t5 d1 where fl: "flood clock purged (?t4, d) = (t5, d1)"
    by fastforce
  have t5: "spent clock t5 k = spent clock ?t4 k" if "k \<in> placement_keys ?ten mailbox" for k
    using flood_others(1) [OF fl, of k] that by (auto simp: placement_keys_def)
  note eq = assms(1) [unfolded create_def Let_def, folded clock_def mailbox_def]
  consider e where "gate = Inl e" | "gate = Inr ()" "over3"
    | "gate = Inr ()" "\<not> over3" "UNPROVEN_PER_BUSINESS_HOUR < ?hits"
    | e where "gate = Inr ()" "\<not> over3" "\<not> UNPROVEN_PER_BUSINESS_HOUR < ?hits"
        "booking_tx number configured rq new d = Inl e"
    | x where "gate = Inr ()" "\<not> over3" "\<not> UNPROVEN_PER_BUSINESS_HOUR < ?hits"
        "booking_tx number configured rq new d = Inr x"
    by (cases gate; cases "booking_tx number configured rq new d") auto
  then show ?thesis
  proof cases
    case 1
    then show ?thesis using eq g g' by (auto simp: g)
  next
    case 2
    then show ?thesis using eq given3 by (auto simp: g h rate_limited_def)
  next
    case 3
    then show ?thesis
      using eq fl given [of _ t5] t5 flood_others(2) [OF fl]
      by (cases ?proven) (auto simp: g h c(1) rate_limited_def)
  next
    case 4
    then show ?thesis
      using eq given [of _ ?t4] by (cases ?proven) (auto simp: g h c(1))
  next
    case 5
    obtain d2 b w account where x: "x = (d2, b, w, account)" by (metis prod_cases4)
    have "spent clock t (Verify mailbox) < ADDRESS_LIMIT" "spent clock t (Placed ?ten mailbox) < EMAIL_LIMIT"
      using 5(2) h3(2) g' by (auto simp: placement_limits_def placement_keys_def)
    moreover have "spent clock t3 (Unproven ?ten) = spent clock t (Unproven ?ten)"
      using h3(1) [of "Unproven ?ten"] g' by (auto simp: placement_limits_def placement_keys_def)
    moreover have "(t', d', r) = (?t4, d2, Inr b)"
      using eq 5 x by (cases ?proven) (simp_all add: g h c(1))
    moreover have "spent clock ?t4 (Verify mailbox) = spent clock t (Verify mailbox) + 1"
      "spent clock ?t4 (Placed ?ten mailbox) = spent clock t (Placed ?ten mailbox) + 1"
      "spent clock ?t4 (Unproven ?ten) = (if ?proven then spent clock t (Unproven ?ten)
         else spent clock t (Unproven ?ten) + 1)"
      using t4 [of "Verify mailbox"] t4 [of "Placed ?ten mailbox"] t4 [of "Unproven ?ten"]
      by (simp_all add: placement_keys_def placement_limits_def)
    ultimately show ?thesis
      using 5(3,4) x by (cases ?proven) simp_all
  qed
qed

section \<open>What create promises\<close>

lemma before_append: "before c (a @ c # b) = before c a"
  by (induction a) (auto simp: before_def)

lemma rpartition_at: "c \<notin> set b \<Longrightarrow> rpartition c (a @ c # b) = (a, b)"
proof -
  assume c: "c \<notin> set b"
  then have r: "\<forall>x \<in> set (rev b). x \<noteq> c" by auto
  have "before c (rev b @ c # rev a) = rev b" and "after c (rev b @ c # rev a) = rev a"
    using takeWhile_append2 [of "rev b" "\<lambda>x. x \<noteq> c"] dropWhile_append2 [of "rev b" "\<lambda>x. x \<noteq> c"] r
    by (simp_all add: before_def after_def)
  then show ?thesis by (simp add: rpartition_def)
qed

lemma lower_append: "lower (a @ b) = lower a @ lower b"
  by (simp add: lower_def)

lemma lower_marks: "lower (CHR ''+'' # s) = CHR ''+'' # lower s" "lower (CHR ''@'' # s) = CHR ''@'' # lower s"
  by (simp_all add: lower_def lower_char_def)

text \<open>An address with a plus tag counts on the same limits as the address without it.\<close>

lemma plus_tag_shares_the_limits:
  assumes "CHR ''@'' \<notin> set (lower domain)"
  shows "address_for_limits (name @ ''+'' @ tag @ ''@'' @ domain) = address_for_limits (name @ ''@'' @ domain)"
proof -
  have "rpartition (CHR ''@'') (lower (name @ ''+'' @ tag @ ''@'' @ domain)) =
      (lower name @ CHR ''+'' # lower tag, lower domain)"
    using rpartition_at [OF assms, of "lower name @ CHR ''+'' # lower tag"]
    by (simp add: lower_append lower_marks)
  moreover have "rpartition (CHR ''@'') (lower (name @ ''@'' @ domain)) = (lower name, lower domain)"
    using rpartition_at [OF assms, of "lower name"] by (simp add: lower_append lower_marks)
  ultimately show ?thesis by (simp only: address_for_limits_def prod.case before_append Let_def)
qed


definition sample_request :: request where
  "sample_request = \<lparr>rq_accounts = [], rq_ip = Some (V4 7), rq_turnstile = False, rq_busy = False\<rparr>"


end
