(* ===== verification/Photos.thy ===== *)
theory Photos
  imports Prelude "HOL-Library.Word"
begin

text \<open>
  \<open>backend/app/photos.py\<close>: what is read of an upload's bytes before it may reach the image decoder.
  Shows that the walks over JPEG markers and PNG chunks end, stay inside the data, and accept exactly
  the files whose structure is what the decoder will see.
\<close>

section \<open>Bytes\<close>

type_synonym byte = "8 word"

text \<open>\<open>data[a:b]\<close>, cut off at the end of the data, and \<open>int.from_bytes\<close> (big endian).\<close>

definition data_slice :: "'a list \<Rightarrow> nat \<Rightarrow> nat \<Rightarrow> 'a list" where
  "data_slice data a b = take (b - a) (drop a data)"

definition from_bytes :: "byte list \<Rightarrow> nat" where
  "from_bytes bs = foldl (\<lambda>n b. 256 * n + unat b) 0 bs"

text \<open>\<open>data[i]\<close>: an \<open>IndexError\<close> past the end.\<close>

definition byte_at :: "byte list \<Rightarrow> nat \<Rightarrow> byte option" where
  "byte_at data i = (if i < length data then Some (data ! i) else None)"

section \<open>JPEG markers\<close>

text \<open>\<open>_markers\<close>: the markers from an offset, with their offsets, up to the first scan or the end.\<close>

definition bare_marker :: "byte \<Rightarrow> bool" where
  "bare_marker m \<longleftrightarrow> m = 0x01 \<or> 0xD0 \<le> m \<and> m \<le> 0xD8"

function markers :: "byte list \<Rightarrow> nat \<Rightarrow> (nat \<times> byte) list" where
  "markers data i =
     (if i + 1 < length data \<and> data ! i = 0xFF
      then (let marker = data ! (i + 1)
            in if marker = 0xFF then markers data (i + 1)
               else (i, marker) #
                 (if marker \<in> {0xD9, 0xDA} then []
                  else if bare_marker marker then markers data (i + 2)
                  else markers data (i + 2 + from_bytes (data_slice data (i + 2) (i + 4)))))
      else [])"
  by pat_completeness auto

termination
  by (relation "measure (\<lambda>(data, i). length data - i)") auto

declare markers.simps [simp del]

text \<open>\<open>multi_scan\<close>: the loop leaves with None where indexing raises, which the handler catches.\<close>

definition frame_marker :: "byte \<Rightarrow> bool" where
  "frame_marker m \<longleftrightarrow> 0xC0 \<le> m \<and> m < 0xD0 \<and> m \<notin> {0xC4, 0xC8, 0xCC}"

fun scan_loop :: "byte list \<Rightarrow> byte option \<Rightarrow> (nat \<times> byte) list \<Rightarrow> bool option" where
  "scan_loop data frame [] = Some True"
| "scan_loop data frame ((i, marker) # ms) =
     (if marker = 0xDA
      then (case frame of None \<Rightarrow> Some True
            | Some f \<Rightarrow> map_option (\<lambda>ns. ns < f) (byte_at data (i + 4)))
      else if frame_marker marker \<and> frame = None
      then (case byte_at data (i + 9) of None \<Rightarrow> None | Some f \<Rightarrow> scan_loop data (Some f) ms)
      else scan_loop data frame ms)"

definition multi_scan :: "byte list \<Rightarrow> bool" where
  "multi_scan data = (case scan_loop data None (markers data 2) of None \<Rightarrow> True | Some b \<Rightarrow> b)"

section \<open>What may reach the decoder\<close>

definition LOSSLESS_FRAMES :: "byte list" where "LOSSLESS_FRAMES = [0xC3, 0xC7, 0xCB, 0xCF]"
definition PNG_SIGNATURE :: "byte list" where
  "PNG_SIGNATURE = [0x89, 0x50, 0x4E, 0x47, 0x0D, 0x0A, 0x1A, 0x0A]"
definition EXIF_CAP :: nat where "EXIF_CAP = 65536"

definition EXIF_TAG :: "byte list" where "EXIF_TAG = [0x45, 0x78, 0x69, 0x66, 0, 0]"
definition ACTL :: "byte list" where "ACTL = [0x61, 0x63, 0x54, 0x4C]"
definition EXIF_CHUNK :: "byte list" where "EXIF_CHUNK = [0x65, 0x58, 0x49, 0x66]"
definition IEND :: "byte list" where "IEND = [0x49, 0x45, 0x4E, 0x44]"

text \<open>The two loops of \<open>unsafe_container\<close>.\<close>

fun jpeg_loop :: "byte list \<Rightarrow> byte option \<Rightarrow> nat \<Rightarrow> (nat \<times> byte) list \<Rightarrow> bool" where
  "jpeg_loop data prev exif [] \<longleftrightarrow> prev \<noteq> Some 0xDA \<or> EXIF_CAP < exif"
| "jpeg_loop data prev exif ((i, marker) # ms) \<longleftrightarrow>
     marker = 0 \<or> marker \<in> set LOSSLESS_FRAMES \<or>
     jpeg_loop data (Some marker)
       (if marker = 0xE1 \<and> data_slice data (i + 4) (i + 10) = EXIF_TAG
        then exif + (from_bytes (data_slice data (i + 2) (i + 4)) - 2) else exif) ms"

function png_loop :: "byte list \<Rightarrow> nat \<Rightarrow> bool" where
  "png_loop data i =
     (if i + 8 \<le> length data
      then (let n = from_bytes (data_slice data i (i + 4)); kind = data_slice data (i + 4) (i + 8)
            in if kind = ACTL \<or> kind = EXIF_CHUNK \<and> EXIF_CAP < n then True
               else if kind = IEND then False
               else png_loop data (i + 12 + n))
      else False)"
  by pat_completeness auto

termination
  by (relation "measure (\<lambda>(data, i). length data - i)") auto

declare png_loop.simps [simp del]

definition unsafe_container :: "byte list \<Rightarrow> bool" where
  "unsafe_container data =
     (if take 2 data = [0xFF, 0xD8] then jpeg_loop data None 0 (markers data 2)
      else if take 8 data = PNG_SIGNATURE then png_loop data 8
      else False)"

section \<open>From the upload to the stored photo\<close>

definition MAX_BYTES :: nat where "MAX_BYTES = 10 * 1024 * 1024"
definition JPEG_CAP :: nat where "JPEG_CAP = 100000000"
definition OTHER_CAP :: nat where "OTHER_CAP = 8300000"
definition WEBP_CAP :: nat where "WEBP_CAP = 4000000"
definition PHOTO_TYPES :: "string list" where
  "PHOTO_TYPES = [''image/jpeg'', ''image/png'', ''image/webp'']"

text \<open>
  What the code asks Pillow: to open the header (which it does not recognise or cannot read), the
  format, the pixels as decoded, whether the file says it is progressive, \<open>draft\<close>, and everything
  from the first pixel decoded to the two WebP variants, which may refuse.
\<close>

datatype open_failure = Unidentified | Unreadable

record photo_variants =
  thumb :: "byte list"
  detail :: "byte list"
  photo_width :: nat
  photo_height :: nat

record 'im pillow =
  open_image :: "byte list \<Rightarrow> open_failure + 'im"
  image_format :: "'im \<Rightarrow> string"
  pixels :: "'im \<Rightarrow> nat"
  says_progressive :: "'im \<Rightarrow> bool"
  draft :: "'im \<Rightarrow> 'im"
  render :: "'im \<Rightarrow> photo_variants option"

definition unreadable :: "'a result" where
  "unreadable = Inl (ApiError 422 ''photo_unreadable'')"

text \<open>The head of \<open>variants\<close>: the image that will be decoded, at the size it will be decoded at.\<close>

definition admit :: "'im pillow \<Rightarrow> byte list \<Rightarrow> 'im result" where
  "admit p data =
     (if unsafe_container data then unreadable
      else case open_image p data of
        Inl Unidentified \<Rightarrow> Inl (ApiError 422 ''photo_type'')
      | Inl Unreadable \<Rightarrow> unreadable
      | Inr im \<Rightarrow>
          let jpeg = (image_format p im = ''JPEG'');
              baseline = (jpeg \<and> \<not> says_progressive p im \<and> \<not> multi_scan data);
              cap = (if baseline then JPEG_CAP
                     else if image_format p im = ''WEBP'' then WEBP_CAP else OTHER_CAP)
          in if cap < pixels p im then unreadable
             else let im = (if jpeg then draft p im else im)
               in if OTHER_CAP < pixels p im then unreadable else Inr im)"

definition variants :: "'im pillow \<Rightarrow> byte list \<Rightarrow> photo_variants result" where
  "variants p data =
     (case admit p data of
        Inl e \<Rightarrow> Inl e
      | Inr im \<Rightarrow> (case render p im of None \<Rightarrow> unreadable | Some v \<Rightarrow> Inr v))"

text \<open>
  The buckets: an object's size and its bytes, None where there is none, and a write of a variant;
  \<open>Inl ()\<close> is a \<open>StorageError\<close>. An upload's key is its business and its id, a variant's its business,
  service, upload and name.
\<close>

record storage =
  object_size :: "uuid \<times> uuid \<Rightarrow> unit + nat option"
  object_read :: "uuid \<times> uuid \<Rightarrow> unit + byte list option"
  put_media :: "uuid \<times> uuid \<times> uuid \<Rightarrow> string \<Rightarrow> byte list \<Rightarrow> unit + unit"

definition storage_down :: "'a result" where
  "storage_down = Inl (ApiError 503 ''photos_unavailable'')"

text \<open>\<open>process\<close>: \<open>acquired\<close> says whether the decode lock came free in time.\<close>

definition process :: "'im pillow \<Rightarrow> storage \<Rightarrow> bool \<Rightarrow> uuid \<Rightarrow> uuid \<Rightarrow> photo_variants result" where
  "process p st acquired tenant_id upload =
     (if \<not> acquired then Inl (ApiError 503 ''busy'')
      else case object_size st (tenant_id, upload) of
        Inl _ \<Rightarrow> storage_down
      | Inr None \<Rightarrow> Inl (ApiError 409 ''photo_missing'')
      | Inr (Some n) \<Rightarrow>
          if MAX_BYTES < n then Inl (ApiError 422 ''photo_too_large'')
          else (case object_read st (tenant_id, upload) of
             Inl _ \<Rightarrow> storage_down
           | Inr None \<Rightarrow> Inl (ApiError 409 ''photo_missing'')
           | Inr (Some data) \<Rightarrow> variants p data))"

definition finalize ::
  "'im pillow \<Rightarrow> storage \<Rightarrow> bool \<Rightarrow> uuid \<Rightarrow> uuid \<Rightarrow> uuid \<Rightarrow> photo_variants result" where
  "finalize p st acquired tenant_id service upload =
     (case process p st acquired tenant_id upload of
        Inl e \<Rightarrow> Inl e
      | Inr found \<Rightarrow>
          (case put_media st (tenant_id, service, upload) ''thumb.webp'' (thumb found) of
             Inl _ \<Rightarrow> storage_down
           | Inr _ \<Rightarrow>
               (case put_media st (tenant_id, service, upload) ''detail.webp'' (detail found) of
                  Inl _ \<Rightarrow> storage_down
                | Inr _ \<Rightarrow> Inr found)))"

text \<open>\<open>guard\<close>: whether storage is configured and whether the hour's requests are spent.\<close>

definition guard :: "bool \<Rightarrow> bool \<Rightarrow> unit result" where
  "guard configured limited =
     (if \<not> configured then storage_down
      else if limited then Inl (ApiError 429 ''rate_limited'') else Inr ())"

definition presign :: "bool \<Rightarrow> bool \<Rightarrow> uuid \<Rightarrow> uuid \<Rightarrow> string \<Rightarrow> nat \<Rightarrow> (uuid \<times> uuid) result" where
  "presign configured limited tenant_id fresh content_type bytes =
     (case guard configured limited of
        Inl e \<Rightarrow> Inl e
      | Inr _ \<Rightarrow>
          if bytes < 1 then Inl (ApiError 422 ''invalid_request'')
          else if content_type \<notin> set PHOTO_TYPES then Inl (ApiError 422 ''photo_type'')
          else if MAX_BYTES < bytes then Inl (ApiError 422 ''photo_too_large'')
          else Inr (tenant_id, fresh))"

definition check_photo ::
  "'im pillow \<Rightarrow> storage \<Rightarrow> bool \<Rightarrow> bool \<Rightarrow> bool \<Rightarrow> uuid \<Rightarrow> uuid \<Rightarrow> (nat \<times> nat) result" where
  "check_photo p st acquired configured limited tenant_id upload =
     (case guard configured limited of
        Inl e \<Rightarrow> Inl e
      | Inr _ \<Rightarrow> map_sum id (\<lambda>v. (photo_width v, photo_height v)) (process p st acquired tenant_id upload))"

section \<open>Files by their structure\<close>

text \<open>
  A segment of a JPEG before its first scan: fill bytes, the marker, and for most markers a length
  (its own two bytes included) and a body.
\<close>

record segment =
  fills :: nat
  marker :: byte
  body :: "byte list"

definition be16 :: "nat \<Rightarrow> byte list" where
  "be16 n = [of_nat (n div 256), of_nat (n mod 256)]"

definition be32 :: "nat \<Rightarrow> byte list" where
  "be32 n = be16 (n div 65536) @ be16 (n mod 65536)"

definition segment_bytes :: "segment \<Rightarrow> byte list" where
  "segment_bytes s = replicate (fills s) 0xFF @ 0xFF # marker s #
     (if bare_marker (marker s) then [] else be16 (length (body s) + 2) @ body s)"

definition segment_ok :: "segment \<Rightarrow> bool" where
  "segment_ok s \<longleftrightarrow> marker s \<notin> {0xFF, 0xD9, 0xDA} \<and> length (body s) + 2 < 65536"

text \<open>What a decoder would refuse or spend too much on, and the EXIF a file carries before its scan.\<close>

definition harmless :: "segment \<Rightarrow> bool" where
  "harmless s \<longleftrightarrow> marker s \<noteq> 0 \<and> marker s \<notin> set LOSSLESS_FRAMES"

definition exif_size :: "segment \<Rightarrow> nat" where
  "exif_size s = (if marker s = 0xE1 \<and> take 6 (body s) = EXIF_TAG then length (body s) else 0)"

text \<open>Everything of a JPEG after its first two bytes, up to the first scan and what follows it.\<close>

definition jpeg_bytes :: "segment list \<Rightarrow> nat \<Rightarrow> byte list \<Rightarrow> byte list" where
  "jpeg_bytes ss n rest = concat (map segment_bytes ss) @ replicate n 0xFF @ 0xFF # 0xDA # rest"

definition chunk_bytes :: "byte list \<times> byte list \<times> byte list \<Rightarrow> byte list" where
  "chunk_bytes c = (case c of (kind, content, crc) \<Rightarrow> be32 (length content) @ kind @ content @ crc)"

definition chunk_ok :: "byte list \<times> byte list \<times> byte list \<Rightarrow> bool" where
  "chunk_ok c = (case c of (kind, content, crc) \<Rightarrow>
     length kind = 4 \<and> length crc = 4 \<and> length content < 2 ^ 32 \<and> kind \<noteq> IEND)"

section \<open>The walk over markers\<close>

lemma from_bytes_simps [simp]:
  "from_bytes [] = 0" "from_bytes [a] = unat a" "from_bytes [a, b] = 256 * unat a + unat b"
  by (simp_all add: from_bytes_def)

lemma unat_byte: "unat (b :: byte) < 256"
  using unsigned_less [of b] by simp

lemma be16_from [simp]: "from_bytes (be16 n) = n" if "n < 65536"
  using that by (simp add: be16_def unat_of_nat)

lemma be16_bytes: "be16 (256 * unat a + unat b) = [a, b]"
proof -
  have "(256 * unat a + unat b) div 256 = unat a" "(256 * unat a + unat b) mod 256 = unat b"
    using unat_byte [of b] by simp_all
  then show ?thesis by (simp only: be16_def) simp
qed

lemma length_be16 [simp]: "length (be16 n) = 2"
  by (simp add: be16_def)

lemma at_drop: "drop i data = x # xs \<Longrightarrow> i < length data \<and> data ! i = x \<and> drop (Suc i) data = xs"
  by (metis Cons_nth_drop_Suc drop_eq_Nil2 leI list.distinct(1) list.inject)

lemma drop_at: "i < length data \<Longrightarrow> drop i data = data ! i # drop (Suc i) data"
  by (simp add: Cons_nth_drop_Suc)

lemma drop_split: "drop j data = take k (drop j data) @ drop (j + k) data"
  by (metis add.commute append_take_drop_id drop_drop)

lemma drop_further: "drop i data = xs @ ys \<Longrightarrow> drop (i + length xs) data = ys"
  by (metis add.commute append_eq_conv_conj drop_drop)

lemma markers_fill:
  "drop i data = replicate n 0xFF @ 0xFF # xs \<Longrightarrow> xs \<noteq> [] \<Longrightarrow> markers data i = markers data (i + n)"
proof (induction n arbitrary: i)
  case (Suc n)
  then obtain ys where ys: "drop i data = 0xFF # 0xFF # ys"
    by (cases n) auto
  then have "i + 1 < length data \<and> data ! i = 0xFF \<and> data ! (i + 1) = 0xFF"
    using at_drop [OF ys] at_drop [of "Suc i" data] by auto
  then have "markers data i = markers data (i + 1)"
    by (subst markers.simps) simp
  also have "\<dots> = markers data (i + 1 + n)"
    using Suc at_drop [of i data] by (intro Suc.IH) auto
  finally show ?case by simp
qed simp

lemma markers_segment:
  assumes "segment_ok s" "drop i data = segment_bytes s @ xs"
  shows "markers data i = (i + fills s, marker s) # markers data (i + length (segment_bytes s))"
    and "data_slice data (i + fills s + 2) (i + fills s + 4) = (if bare_marker (marker s) then take 2 xs else be16 (length (body s) + 2))"
proof -
  let ?j = "i + fills s" and ?m = "marker s"
  let ?more = "if bare_marker ?m then [] else be16 (length (body s) + 2) @ body s"
  have j: "drop ?j data = 0xFF # ?m # ?more @ xs"
    using assms(2) drop_further [of i data "replicate (fills s) 0xFF"] by (simp add: segment_bytes_def)
  then have at: "?j + 1 < length data" "data ! ?j = 0xFF" "data ! (?j + 1) = ?m" "drop (?j + 2) data = ?more @ xs"
    using at_drop [OF j] at_drop [of "Suc ?j" data] by auto
  show len: "data_slice data (?j + 2) (?j + 4) = (if bare_marker ?m then take 2 xs else be16 (length (body s) + 2))"
    using at(4) by (simp add: data_slice_def)
  have "markers data i = markers data ?j"
    using assms(2) by (intro markers_fill) (auto simp: segment_bytes_def)
  also have "\<dots> = (?j, ?m) # markers data (i + length (segment_bytes s))"
    using at assms(1) len
    by (subst markers.simps) (auto simp: segment_ok_def segment_bytes_def Let_def add.assoc)
  finally show "markers data i = (?j, ?m) # markers data (i + length (segment_bytes s))" .
qed

lemma jpeg_bytes_Cons: "jpeg_bytes (s # ss) n rest = segment_bytes s @ jpeg_bytes ss n rest"
  by (simp add: jpeg_bytes_def)

lemma jpeg_bytes_head: "\<exists>xs. jpeg_bytes ss n rest = 0xFF # xs \<and> xs \<noteq> []"
proof -
  have "\<exists>xs. replicate k 0xFF @ 0xFF # m # ys = 0xFF # xs \<and> xs \<noteq> []" for k and m :: byte and ys
    by (cases k) auto
  then show ?thesis
    by (cases ss) (auto simp: jpeg_bytes_def segment_bytes_def)
qed

text \<open>The tag is looked for at a fixed place; a body too short to hold it is followed by a marker.\<close>

lemma take_tag:
  "(0xFF :: byte) \<notin> set tag \<Longrightarrow> take (length tag) (p @ 0xFF # xs) = tag \<longleftrightarrow> take (length tag) p = tag"
proof (induction tag arbitrary: p)
  case (Cons t tag)
  then show ?case by (cases p) auto
qed simp

lemma exif_seen:
  assumes "drop i data = segment_bytes s @ jpeg_bytes ss n rest" "\<not> bare_marker (marker s)"
  shows "data_slice data (i + fills s + 4) (i + fills s + 10) = EXIF_TAG \<longleftrightarrow> take 6 (body s) = EXIF_TAG"
proof -
  obtain xs where xs: "jpeg_bytes ss n rest = 0xFF # xs" using jpeg_bytes_head by blast
  have "drop i data = (replicate (fills s) 0xFF @ 0xFF # marker s # be16 (length (body s) + 2)) @ body s @ 0xFF # xs"
    using assms xs by (simp add: segment_bytes_def)
  from drop_further [OF this]
  have "drop (i + fills s + 4) data = body s @ 0xFF # xs" by (simp add: add.assoc)
  then have "data_slice data (i + fills s + 4) (i + fills s + 10) = take 6 (body s @ 0xFF # xs)"
    by (simp only: data_slice_def) simp
  moreover have len: "length EXIF_TAG = 6" and "0xFF \<notin> set EXIF_TAG" by (simp_all add: EXIF_TAG_def)
  ultimately show ?thesis
    using take_tag [of EXIF_TAG "body s" xs] unfolding len by metis
qed

lemma markers_scan:
  assumes "drop i data = jpeg_bytes [] n rest"
  shows "markers data i = [(i + n, 0xDA)]"
proof -
  have "drop (i + n) data = 0xFF # 0xDA # rest"
    using assms drop_further [of i data "replicate n 0xFF"] by (simp add: jpeg_bytes_def)
  then have "i + n + 1 < length data \<and> data ! (i + n) = 0xFF \<and> data ! (i + n + 1) = 0xDA"
    using at_drop [of "i + n" data] at_drop [of "Suc (i + n)" data] by auto
  moreover have "markers data i = markers data (i + n)"
    using assms by (intro markers_fill) (auto simp: jpeg_bytes_def)
  ultimately show ?thesis by (subst (asm) markers.simps) (simp add: Let_def)
qed

lemma jpeg_loop_segments:
  assumes "list_all segment_ok ss" "drop i data = jpeg_bytes ss n rest" 
  shows "jpeg_loop data prev exif (markers data i) \<longleftrightarrow>
    \<not> list_all harmless ss \<or> EXIF_CAP < exif + sum_list (map exif_size ss)"
  using assms
proof (induction ss arbitrary: i prev exif)
  case Nil
  then show ?case by (simp add: markers_scan LOSSLESS_FRAMES_def)
next
  case (Cons s ss)
  have s: "segment_ok s" "drop i data = segment_bytes s @ jpeg_bytes ss n rest"
    using Cons.prems by (simp_all add: jpeg_bytes_Cons)
  note m = markers_segment [OF s]
  have exif: "(if marker s = 0xE1 \<and> data_slice data (i + fills s + 4) (i + fills s + 10) = EXIF_TAG
      then exif + (from_bytes (data_slice data (i + fills s + 2) (i + fills s + 4)) - 2) else exif) = exif + exif_size s"
  proof (cases "marker s = 0xE1")
    case True
    then have "\<not> bare_marker (marker s)" by (simp add: bare_marker_def)
    moreover have "length (body s) + 2 < 65536" using s(1) by (simp add: segment_ok_def)
    ultimately show ?thesis
      using m(2) exif_seen [OF s(2)] True by (simp add: exif_size_def)
  qed (simp add: exif_size_def)
  have "jpeg_loop data (Some (marker s)) (exif + exif_size s) (markers data (i + length (segment_bytes s))) \<longleftrightarrow>
      \<not> list_all harmless ss \<or> EXIF_CAP < exif + exif_size s + sum_list (map exif_size ss)"
    using Cons.prems(1) drop_further [OF s(2)] by (intro Cons.IH) simp_all
  then show ?case
    unfolding m(1) jpeg_loop.simps exif by (auto simp: harmless_def [of s] add.assoc)
qed

text \<open>Whatever ends in a scan has the structure.\<close>

lemma from_bytes_slice:
  assumes "drop (i + 2 + from_bytes (data_slice data (i + 2) (i + 4))) data = 0xFF # xs"
  obtains p where "drop (i + 2) data = be16 (length p + 2) @ p @ 0xFF # xs" "length p + 2 < 65536"
proof -
  let ?n = "from_bytes (data_slice data (i + 2) (i + 4))"
  have len: "i + 2 + ?n < length data" using at_drop [OF assms] by simp
  then obtain a ys where a: "drop (i + 2) data = a # ys" using drop_at [of "i + 2" data] by auto
  show thesis
  proof (cases ys)
    case Nil
    then have "?n = unat a" "length data = i + 3" using a length_drop [of "i + 2" data] by (simp_all add: data_slice_def)
    then have "a = 0" using len by (simp add: unat_eq_0)
    then show thesis using assms a Nil by (simp add: data_slice_def)
  next
    case (Cons b zs)
    then have n: "?n = 256 * unat a + unat b" using a by (simp add: data_slice_def)
    have small: "?n < 65536" using n unat_byte [of a] unat_byte [of b] by simp
    have rest: "drop ?n (a # b # zs) = 0xFF # xs"
      using assms a Cons by (metis add.commute drop_drop)
    have "2 \<le> ?n"
    proof (rule ccontr)
      assume "\<not> 2 \<le> ?n"
      then have "?n = 0 \<or> ?n = 1" by auto
      then show False
      proof
        assume z: "?n = 0"
        then have "unat a = 0" using n by simp
        then have "a = 0" by (simp add: unat_eq_0)
        then show False using rest z by simp
      next
        assume z: "?n = 1"
        then have "unat b = 1" using n by simp
        then have "b = 1" by (metis unat_1 word_unat_eq_iff)
        then show False using rest z by simp
      qed
    qed
    then have zs: "drop (?n - 2) zs = 0xFF # xs" using rest by (cases ?n) (auto simp: numeral_2_eq_2 Suc_le_eq drop_Cons' split: if_splits)
    let ?p = "take (?n - 2) zs"
    have "?n - 2 \<le> length zs" using zs by (metis drop_eq_Nil2 linear list.distinct(1))
    then have p: "length ?p + 2 = ?n" using \<open>2 \<le> ?n\<close> by simp
    have "zs = ?p @ 0xFF # xs" using zs by (metis append_take_drop_id)
    moreover have "be16 (length ?p + 2) = [a, b]" by (subst p, subst n, rule be16_bytes)
    ultimately have "drop (i + 2) data = be16 (length ?p + 2) @ ?p @ 0xFF # xs"
      using a Cons by simp
    then show thesis using that [of ?p] p small by simp
  qed
qed

lemma segment_in_front:
  assumes "segment_ok s" "drop i data = segment_bytes s @ xs"
    and "\<exists>ss n rest. list_all segment_ok ss \<and> xs = jpeg_bytes ss n rest"
  shows "\<exists>ss n rest. list_all segment_ok ss \<and> drop i data = jpeg_bytes ss n rest"
proof -
  obtain ss n rest where "list_all segment_ok ss" "xs = jpeg_bytes ss n rest" using assms(3) by blast
  then have "list_all segment_ok (s # ss) \<and> drop i data = jpeg_bytes (s # ss) n rest"
    using assms(1,2) by (simp add: jpeg_bytes_Cons)
  then show ?thesis by blast
qed

lemma fill_in_front:
  assumes "\<exists>ss n rest. list_all segment_ok ss \<and> xs = jpeg_bytes ss n rest"
  shows "\<exists>ss n rest. list_all segment_ok ss \<and> 0xFF # xs = jpeg_bytes ss n rest"
proof -
  obtain ss n rest where ss: "list_all segment_ok ss" "xs = jpeg_bytes ss n rest" using assms by blast
  show ?thesis
  proof (cases ss)
    case Nil
    then have "0xFF # xs = jpeg_bytes [] (Suc n) rest" using ss(2) by (simp add: jpeg_bytes_def)
    then show ?thesis by (intro exI conjI) auto
  next
    case (Cons s t)
    let ?s = "s\<lparr>fills := Suc (fills s)\<rparr>"
    have "0xFF # xs = jpeg_bytes (?s # t) n rest"
      using ss(2) Cons by (simp add: jpeg_bytes_def segment_bytes_def)
    moreover have "list_all segment_ok (?s # t)"
      using ss(1) Cons by (simp add: segment_ok_def)
    ultimately show ?thesis by blast
  qed
qed

lemma jpeg_loop_sound:
  assumes "\<not> jpeg_loop data prev exif (markers data i)" "prev \<noteq> Some 0xDA"
  shows "\<exists>ss n rest. list_all segment_ok ss \<and> drop i data = jpeg_bytes ss n rest"
  using assms
proof (induction data i arbitrary: prev exif rule: markers.induct)
  case (1 data i)
  have at: "i + 1 < length data" "data ! i = 0xFF"
    using 1(4,5) by (simp_all add: markers.simps [of data i] split: if_splits)
  let ?m = "data ! (i + 1)"
  have here: "drop i data = 0xFF # ?m # drop (i + 2) data"
    using at drop_at [of i data] drop_at [of "i + 1" data] by simp
  show ?case
  proof (cases "?m = 0xFF")
    case True
    have "markers data i = markers data (i + 1)"
      using at True by (subst markers.simps) simp
    then have "\<exists>ss n rest. list_all segment_ok ss \<and> drop (i + 1) data = jpeg_bytes ss n rest"
      using 1(1) [of ?m prev exif] 1(4,5) at True by simp
    then show ?thesis
      using fill_in_front [of "drop (i + 1) data"] at drop_at [of i data] by simp
  next
    case False
    let ?next = "if bare_marker ?m then i + 2 else i + 2 + from_bytes (data_slice data (i + 2) (i + 4))"
    have m: "markers data i = (i, ?m) # (if ?m \<in> {0xD9, 0xDA} then [] else markers data ?next)"
      using at False by (subst markers.simps) (auto simp: Let_def)
    consider "?m = 0xDA" | "?m = 0xD9" | "?m \<notin> {0xFF, 0xD9, 0xDA}" using False by auto
    then show ?thesis
    proof cases
      case 1
      then have "drop i data = jpeg_bytes [] 0 (drop (i + 2) data)"
        using here by (simp add: jpeg_bytes_def)
      then show ?thesis by (intro exI conjI) auto
    next
      case 2
      then show ?thesis using 1(4) m by simp
    next
      case 3
      obtain e where step: "\<not> jpeg_loop data (Some ?m) e (markers data ?next)"
        using 1(4) m 3 by auto
      have tail: "\<exists>ss n rest. list_all segment_ok ss \<and> drop ?next data = jpeg_bytes ss n rest"
      proof (cases "bare_marker ?m")
        case True
        then show ?thesis using 1(2) [of ?m "Some ?m" e] at False 3 step by simp
      next
        case bare: False
        then show ?thesis using 1(3) [of ?m "Some ?m" e] at False 3 step by simp
      qed
      show ?thesis
      proof (cases "bare_marker ?m")
        case True
        let ?s = "\<lparr>fills = 0, marker = ?m, body = []\<rparr>"
        show ?thesis
          by (rule segment_in_front [of ?s])
            (use True 3 here tail in \<open>auto simp: segment_ok_def segment_bytes_def\<close>)
      next
        case bare: False
        obtain xs where xs: "drop ?next data = 0xFF # xs" using tail jpeg_bytes_head by metis
        obtain p where p: "drop (i + 2) data = be16 (length p + 2) @ p @ 0xFF # xs" "length p + 2 < 65536"
          using from_bytes_slice [of i data xs] xs bare by auto
        let ?s = "\<lparr>fills = 0, marker = ?m, body = p\<rparr>"
        show ?thesis
          by (rule segment_in_front [of ?s i data "drop ?next data"])
            (use bare 3 here tail p xs in \<open>auto simp: segment_ok_def segment_bytes_def\<close>)
      qed
    qed
  qed
qed

lemma jpeg_structured:
  assumes "\<not> unsafe_container (0xFF # 0xD8 # bytes)"
  obtains ss n rest where "bytes = jpeg_bytes ss n rest" "list_all segment_ok ss" "list_all harmless ss"
    "sum_list (map exif_size ss) \<le> EXIF_CAP"
proof -
  let ?data = "0xFF # 0xD8 # bytes"
  have d: "drop 2 ?data = bytes" by (simp add: numeral_2_eq_2)
  have u: "\<not> jpeg_loop ?data None 0 (markers ?data 2)"
    using assms by (simp add: unsafe_container_def)
  obtain ss n rest where ss: "list_all segment_ok ss" "bytes = jpeg_bytes ss n rest"
    using jpeg_loop_sound [OF u] unfolding d by auto
  then show thesis
    using u jpeg_loop_segments [of ss 2 ?data n rest None 0] that by (simp add: d)
qed

text \<open>
  C33: A JPEG may reach the decoder exactly when its bytes are fill, markers and segments of
  their stated lengths up to a first scan, none of them lossless or no marker at all, with at
  most 64 KiB of EXIF: the walk by offsets decides the structure, over any bytes.
\<close>

theorem jpeg_accepted_iff_structured:
  "\<not> unsafe_container (0xFF # 0xD8 # bytes) \<longleftrightarrow>
     (\<exists>ss n rest. bytes = jpeg_bytes ss n rest \<and> list_all segment_ok ss \<and> list_all harmless ss \<and>
        sum_list (map exif_size ss) \<le> EXIF_CAP)"
proof
  assume "\<not> unsafe_container (0xFF # 0xD8 # bytes)"
  then show "\<exists>ss n rest. bytes = jpeg_bytes ss n rest \<and> list_all segment_ok ss \<and> list_all harmless ss \<and>
      sum_list (map exif_size ss) \<le> EXIF_CAP"
    by (rule jpeg_structured) blast
next
  assume "\<exists>ss n rest. bytes = jpeg_bytes ss n rest \<and> list_all segment_ok ss \<and> list_all harmless ss \<and>
      sum_list (map exif_size ss) \<le> EXIF_CAP"
  then show "\<not> unsafe_container (0xFF # 0xD8 # bytes)"
    using jpeg_loop_segments [of _ 2 "0xFF # 0xD8 # bytes" _ _ None 0]
    by (auto simp: unsafe_container_def numeral_2_eq_2)
qed

section \<open>The walk over chunks\<close>

lemma length_be32 [simp]: "length (be32 n) = 4"
  by (simp add: be32_def)

lemma from_bytes_append: "from_bytes (xs @ ys) = from_bytes xs * 256 ^ length ys + from_bytes ys"
proof (induction ys rule: rev_induct)
  case (snoc y ys)
  have "from_bytes (zs @ [y]) = 256 * from_bytes zs + unat y" for zs by (simp add: from_bytes_def)
  from this [of "xs @ ys"] this [of ys] show ?case using snoc by (simp add: algebra_simps)
qed simp

lemma be32_from: "n < 2 ^ 32 \<Longrightarrow> from_bytes (be32 n) = n"
  by (simp add: be32_def from_bytes_append)

lemma four_bytes: "length xs = 4 \<Longrightarrow> be32 (from_bytes xs) = xs \<and> from_bytes xs < 2 ^ 32"
proof -
  assume "length xs = 4"
  then obtain a b c d where xs: "xs = [a, b] @ [c, d]"
    by (auto simp: length_Suc_conv numeral_eq_Suc)
  let ?h = "256 * unat a + unat b" and ?l = "256 * unat c + unat d"
  have n: "from_bytes xs = ?h * 65536 + ?l"
    unfolding xs from_bytes_append by (simp only: from_bytes_simps) simp
  have l: "?l < 65536" and h: "?h < 65536"
    using unat_byte [of a] unat_byte [of b] unat_byte [of c] unat_byte [of d] by simp_all
  have "(h * 65536 + l) div 65536 = h" "(h * 65536 + l) mod 65536 = l" if "l < 65536" for h l :: nat
    using that by simp_all
  from this [OF l] have "(?h * 65536 + ?l) div 65536 = ?h" "(?h * 65536 + ?l) mod 65536 = ?l" by blast+
  then have "be32 (from_bytes xs) = be16 ?h @ be16 ?l"
    unfolding n be32_def by (simp only:)
  then show ?thesis using n h l xs be16_bytes by simp
qed

text \<open>The chunk that makes a PNG unsafe, with what stands before and after it.\<close>

definition dangerous :: "nat \<Rightarrow> byte list \<Rightarrow> bool" where
  "dangerous n kind \<longleftrightarrow> kind = ACTL \<or> kind = EXIF_CHUNK \<and> EXIF_CAP < n"

definition png_bytes ::
  "(byte list \<times> byte list \<times> byte list) list \<Rightarrow> nat \<Rightarrow> byte list \<Rightarrow> byte list \<Rightarrow> byte list" where
  "png_bytes cs n kind rest = concat (map chunk_bytes cs) @ be32 n @ kind @ rest"

lemma png_at:
  assumes "drop i data = be32 n @ kind @ rest" "n < 2 ^ 32" "length kind = 4"
  shows "i + 8 \<le> length data" "from_bytes (data_slice data i (i + 4)) = n"
    "data_slice data (i + 4) (i + 8) = kind"
proof -
  have "length (drop i data) = length (be32 n @ kind @ rest)" using assms(1) by simp
  then show "i + 8 \<le> length data" using assms(3) by simp
  show "from_bytes (data_slice data i (i + 4)) = n"
    using assms(1,2) by (simp add: data_slice_def be32_from)
  have "drop (i + 4) data = kind @ rest" using drop_further [OF assms(1)] by simp
  then show "data_slice data (i + 4) (i + 8) = kind" using assms(3) by (simp add: data_slice_def)
qed

lemma png_loop_chunks:
  assumes "list_all chunk_ok cs" "drop i data = png_bytes cs n kind rest"
    and "n < 2 ^ 32" "length kind = 4" "dangerous n kind"
  shows "png_loop data i"
  using assms
proof (induction cs arbitrary: i)
  case Nil
  then show ?case
    using png_at [of i data n kind rest] by (subst png_loop.simps) (simp add: png_bytes_def dangerous_def Let_def)
next
  case (Cons c cs)
  obtain k content crc where c: "c = (k, content, crc)" by (cases c)
  have ok: "length k = 4" "length crc = 4" "length content < 2 ^ 32" "k \<noteq> IEND"
    using Cons.prems(1) c by (simp_all add: chunk_ok_def)
  have d: "drop i data = be32 (length content) @ k @ (content @ crc @ png_bytes cs n kind rest)"
    using Cons.prems(2) c by (simp add: png_bytes_def chunk_bytes_def)
  note at = png_at [OF d ok(3,1)]
  have "drop i data = (be32 (length content) @ k @ content @ crc) @ png_bytes cs n kind rest" using d by simp
  from drop_further [OF this] have "drop (i + 12 + length content) data = png_bytes cs n kind rest"
    using ok by (simp add: algebra_simps)
  then have "png_loop data (i + 12 + length content)"
    using Cons.IH Cons.prems by simp
  then show ?case
    using at ok(4) by (subst png_loop.simps) (simp add: Let_def)
qed

lemma png_loop_sound:
  assumes "png_loop data i"
  shows "\<exists>cs n kind rest. drop i data = png_bytes cs n kind rest \<and> list_all chunk_ok cs \<and> n < 2 ^ 32 \<and>
    length kind = 4 \<and> dangerous n kind"
  using assms
proof (induction data i rule: png_loop.induct)
  case (1 data i)
  let ?n = "from_bytes (data_slice data i (i + 4))" and ?k = "data_slice data (i + 4) (i + 8)"
  have len: "i + 8 \<le> length data" using 1(2) by (simp add: png_loop.simps [of data i] split: if_splits)
  have sizes: "length (data_slice data i (i + 4)) = 4" "length ?k = 4" using len by (simp_all add: data_slice_def)
  have split8: "drop i data = be32 ?n @ ?k @ drop (i + 8) data"
  proof -
    have "drop i data = take 4 (drop i data) @ take 4 (drop (i + 4) data) @ drop (i + 8) data"
    proof -
      have "i + 8 = i + 4 + 4" by simp
      then show ?thesis by (simp only: drop_split [symmetric])
    qed
    then show ?thesis using four_bytes [OF sizes(1)] by (simp add: data_slice_def)
  qed
  show ?case
  proof (cases "dangerous ?n ?k")
    case True
    have "drop i data = png_bytes [] ?n ?k (drop (i + 8) data)" using split8 by (simp add: png_bytes_def)
    then show ?thesis using True sizes four_bytes [OF sizes(1)] by fastforce
  next
    case False
    then have more: "?k \<noteq> IEND" "png_loop data (i + 12 + ?n)"
      using 1(2) len by (simp_all add: png_loop.simps [of data i] dangerous_def Let_def split: if_splits)
    have nd: "\<not> (?k = ACTL \<or> ?k = EXIF_CHUNK \<and> EXIF_CAP < ?n)" using False by (simp add: dangerous_def)
    obtain cs n kind rest where r: "drop (i + 12 + ?n) data = png_bytes cs n kind rest"
      "list_all chunk_ok cs" "n < 2 ^ 32" "length kind = 4" "dangerous n kind"
      using 1(1) [OF len refl refl nd more] by blast
    let ?content = "data_slice data (i + 8) (i + 8 + ?n)" and ?crc = "data_slice data (i + 8 + ?n) (i + 12 + ?n)"
    have "drop (i + 12 + ?n) data \<noteq> []" using r(1,4) by (auto simp: png_bytes_def)
    then have ends: "i + 12 + ?n < length data" by simp
    have "drop (i + 8) data = ?content @ ?crc @ drop (i + 12 + ?n) data"
      using drop_split [of "i + 8" data ?n] drop_split [of "i + 8 + ?n" data 4]
      by (simp add: data_slice_def add.assoc)
    moreover have "length ?content = ?n" "length ?crc = 4" using ends by (simp_all add: data_slice_def)
    ultimately have "drop i data = png_bytes ((?k, ?content, ?crc) # cs) n kind rest \<and>
        list_all chunk_ok ((?k, ?content, ?crc) # cs)"
      using split8 r(1,2) more(1) sizes four_bytes [OF sizes(1)]
      by (simp add: png_bytes_def chunk_bytes_def chunk_ok_def)
    then show ?thesis using r(3-5) by blast
  qed
qed

text \<open>
  A PNG is refused exactly when some chunk before its end, found by stepping over whole
  chunks, is an animation's or more than 64 KiB of EXIF, wherever its bytes say the chunks
  lie.
\<close>

lemma png_refused_iff_dangerous:
  "unsafe_container (PNG_SIGNATURE @ bytes) \<longleftrightarrow>
     (\<exists>cs n kind rest. bytes = png_bytes cs n kind rest \<and> list_all chunk_ok cs \<and> n < 2 ^ 32 \<and>
        length kind = 4 \<and> dangerous n kind)"
proof -
  have d: "drop 8 (PNG_SIGNATURE @ bytes) = bytes" by (simp add: PNG_SIGNATURE_def)
  have u: "unsafe_container (PNG_SIGNATURE @ bytes) = png_loop (PNG_SIGNATURE @ bytes) 8"
    by (simp add: unsafe_container_def PNG_SIGNATURE_def)
  show ?thesis
    unfolding u using png_loop_sound [of "PNG_SIGNATURE @ bytes" 8] png_loop_chunks [of _ 8 "PNG_SIGNATURE @ bytes"]
    unfolding d by blast
qed

section \<open>One scan or several\<close>

lemma scan_loop_found:
  "scan_loop data (Some f) (ms @ [(i, 0xDA)]) = map_option (\<lambda>ns. ns < f) (byte_at data (i + 4))"
  if "list_all (\<lambda>m. snd m \<noteq> 0xDA) ms"
  using that by (induction ms) auto

lemma markers_of_segments:
  assumes "list_all segment_ok ss" "drop i data = jpeg_bytes ss n rest"
  shows "\<exists>ms j. markers data i = ms @ [(j, 0xDA)] \<and> map snd ms = map marker ss \<and>
    drop j data = 0xFF # 0xDA # rest"
  using assms
proof (induction ss arbitrary: i)
  case Nil
  have "drop (i + n) data = 0xFF # 0xDA # rest"
    using Nil.prems(2) drop_further [of i data "replicate n 0xFF"] by (simp add: jpeg_bytes_def)
  then show ?case using markers_scan [OF Nil.prems(2)] by (intro exI [of _ "[]"]) auto
next
  case (Cons s ss)
  have s: "segment_ok s" "drop i data = segment_bytes s @ jpeg_bytes ss n rest"
    using Cons.prems by (simp_all add: jpeg_bytes_Cons)
  obtain ms j where "markers data (i + length (segment_bytes s)) = ms @ [(j, 0xDA)]"
    "map snd ms = map marker ss" "drop j data = 0xFF # 0xDA # rest"
    using Cons.IH [OF _ drop_further [OF s(2)]] Cons.prems(1) by auto
  then show ?case
    using markers_segment(1) [OF s]
    by (intro exI [of _ "(i + fills s, marker s) # ms"] exI [of _ j]) simp
qed

definition frame_of :: "segment list \<Rightarrow> segment option" where
  "frame_of ss = find (\<lambda>s. frame_marker (marker s)) ss"

lemma no_scan_yet:
  "list_all segment_ok ss \<Longrightarrow> map snd ms = map marker ss \<Longrightarrow> list_all (\<lambda>m. snd m \<noteq> 0xDA) ms"
proof (induction ss arbitrary: ms)
  case (Cons s ss)
  then show ?case by (cases ms) (auto simp: segment_ok_def)
qed simp

lemma scan_loop_False:
  assumes "scan_loop data frame (ms @ [(j, 0xDA)]) = Some False" "list_all (\<lambda>m. snd m \<noteq> 0xDA) ms"
  shows "j + 4 < length data \<and> (frame = None \<longrightarrow> list_ex (\<lambda>m. frame_marker (snd m)) ms)"
  using assms
proof (induction ms arbitrary: frame)
  case Nil
  then show ?case by (auto simp: byte_at_def split: option.splits if_splits)
next
  case (Cons m ms)
  then show ?case by (cases m) (force split: if_splits option.splits)
qed

lemma scan_loop_segments:
  assumes "list_all segment_ok ss" "drop i data = jpeg_bytes ss n (l1 # l2 # ns # rest)"
    and "list_all (\<lambda>s. frame_marker (marker s) \<longrightarrow> 6 \<le> length (body s)) ss"
  shows "scan_loop data None (markers data i) =
    Some (case frame_of ss of None \<Rightarrow> True | Some s \<Rightarrow> ns < body s ! 5)"
  using assms
proof (induction ss arbitrary: i)
  case Nil
  then show ?case by (simp add: markers_scan frame_of_def)
next
  case (Cons s ss)
  have s: "segment_ok s" "drop i data = segment_bytes s @ jpeg_bytes ss n (l1 # l2 # ns # rest)"
    using Cons.prems by (simp_all add: jpeg_bytes_Cons)
  note more = drop_further [OF s(2)]
  note m = markers_segment(1) [OF s]
  show ?case
  proof (cases "frame_marker (marker s)")
    case True
    then have nb: "\<not> bare_marker (marker s)"
      unfolding frame_marker_def bare_marker_def by (auto simp: word_le_nat_alt word_less_nat_alt)
    have "drop i data = (replicate (fills s) 0xFF @ 0xFF # marker s # be16 (length (body s) + 2)) @
        body s @ jpeg_bytes ss n (l1 # l2 # ns # rest)"
      using s(2) nb by (simp add: segment_bytes_def)
    from drop_further [OF this]
    have d: "drop (i + fills s + 4) data = body s @ jpeg_bytes ss n (l1 # l2 # ns # rest)"
      by (simp add: add.assoc)
    have five: "5 < length (body s)" using Cons.prems(3) True by simp
    have "length (drop (i + fills s + 4) data) = length (body s @ jpeg_bytes ss n (l1 # l2 # ns # rest))"
      using d by simp
    then have len: "i + fills s + 9 < length data" using five by simp
    have "data ! (i + fills s + 9) = drop (i + fills s + 4) data ! 5" using len by (simp add: add.commute)
    then have f: "byte_at data (i + fills s + 9) = Some (body s ! 5)"
      using d len five by (simp add: byte_at_def nth_append)
    obtain ms j where ms: "markers data (i + length (segment_bytes s)) = ms @ [(j, 0xDA)]"
      "map snd ms = map marker ss" "drop j data = 0xFF # 0xDA # l1 # l2 # ns # rest"
      using markers_of_segments [OF _ more] Cons.prems(1) by auto
    have "list_all (\<lambda>m. snd m \<noteq> 0xDA) ms"
      using no_scan_yet [OF _ ms(2)] Cons.prems(1) by simp
    note ms = ms this
    have "drop (j + 4) data = ns # rest"
      using drop_further [of j data "[0xFF, 0xDA, l1, l2]"] ms(3) by (simp add: eval_nat_numeral)
    then have "byte_at data (j + 4) = Some ns" using at_drop [of "j + 4" data] by (simp add: byte_at_def)
    then show ?thesis
      using m ms f True s(1) by (simp add: scan_loop_found frame_of_def segment_ok_def)
  next
    case False
    then show ?thesis
      using m s(1) Cons.IH [OF _ more] Cons.prems by (simp add: frame_of_def segment_ok_def)
  qed
qed

text \<open>
  The components of the first frame against those of the first scan: fewer in the scan means more
  scans follow.
\<close>

lemma multi_scan_exact:
  assumes "list_all segment_ok ss"
    and "list_all (\<lambda>s. frame_marker (marker s) \<longrightarrow> 6 \<le> length (body s)) ss"
  shows "multi_scan (0xFF # 0xD8 # jpeg_bytes ss n (l1 # l2 # ns # rest)) \<longleftrightarrow>
    (case frame_of ss of None \<Rightarrow> True | Some s \<Rightarrow> ns < body s ! 5)"
  using scan_loop_segments [OF assms(1) _ assms(2), of 2 "0xFF # 0xD8 # jpeg_bytes ss n (l1 # l2 # ns # rest)"]
  by (simp add: multi_scan_def numeral_2_eq_2 split: option.splits)

text \<open>Nothing larger than a 4K screenshot is decoded, and nothing whose container is unsafe.\<close>

lemma admitted:
  assumes "admit p data = Inr im"
  shows "pixels p im \<le> OTHER_CAP" "\<not> unsafe_container data"
    "\<exists>im0. open_image p data = Inr im0 \<and> pixels p im0 \<le> JPEG_CAP \<and>
       (OTHER_CAP < pixels p im0 \<longrightarrow> image_format p im0 = ''JPEG'' \<and> \<not> multi_scan data)"
  using assms
  by (auto simp: admit_def unreadable_def Let_def JPEG_CAP_def WEBP_CAP_def OTHER_CAP_def
      split: if_splits sum.splits open_failure.splits)

text \<open>
  A file the decoder may spend a large image on: the claim is about the bytes, whatever the image
  library reads in them.
\<close>

text \<open>
  C34: A JPEG over 8.3 million pixels is processed only if its bytes hold a frame and a first
  scan with all of the frame's components, no lossless frame and no more than 64 KiB of EXIF.
\<close>

theorem large_photo_is_one_scan:
  assumes "process p st acquired tenant_id upload = Inr v"
    and "object_read st (tenant_id, upload) = Inr (Some (0xFF # 0xD8 # bytes))"
    and "open_image p (0xFF # 0xD8 # bytes) = Inr im" and "OTHER_CAP < pixels p im"
  shows "\<exists>ss n rest s. bytes = jpeg_bytes ss n rest \<and> list_all segment_ok ss \<and> list_all harmless ss \<and>
    sum_list (map exif_size ss) \<le> EXIF_CAP \<and> frame_of ss = Some s \<and> 2 < length rest \<and>
    (list_all (\<lambda>s. frame_marker (marker s) \<longrightarrow> 6 \<le> length (body s)) ss \<longrightarrow> body s ! 5 \<le> rest ! 2)"
proof -
  let ?data = "0xFF # 0xD8 # bytes"
  have d: "drop 2 ?data = bytes" by (simp add: numeral_2_eq_2)
  obtain im' where "admit p ?data = Inr im'"
    using assms(1,2) by (auto simp: process_def variants_def storage_down_def split: if_splits sum.splits option.splits)
  from admitted(2,3) [OF this] have safe: "\<not> unsafe_container ?data" and one: "\<not> multi_scan ?data"
    using assms(3,4) by auto
  obtain ss n rest where ss: "bytes = jpeg_bytes ss n rest" "list_all segment_ok ss" "list_all harmless ss"
    "sum_list (map exif_size ss) \<le> EXIF_CAP"
    by (rule jpeg_structured [OF safe])
  obtain ms j where ms: "markers ?data 2 = ms @ [(j, 0xDA)]" "map snd ms = map marker ss"
    "drop j ?data = 0xFF # 0xDA # rest"
    using markers_of_segments [OF ss(2), of 2 ?data n rest] ss(1) unfolding d by blast
  have found: "j + 4 < length ?data \<and> list_ex (\<lambda>m. frame_marker (snd m)) ms"
    using scan_loop_False [OF _ no_scan_yet [OF ss(2) ms(2)], of ?data None j] one ms(1)
    by (simp add: multi_scan_def split: option.splits)
  have "length (drop j ?data) = length (0xFF # 0xDA # rest)" using ms(3) by simp
  then have len: "2 < length rest" using found by (simp, arith)
  then obtain l1 l2 ns more where r: "rest = l1 # l2 # ns # more"
    by (auto simp: less_eq_Suc_le Suc_le_length_iff numeral_eq_Suc)
  have "list_ex frame_marker (map snd ms)" using found by (simp add: list_ex_iff)
  then have "list_ex (\<lambda>s. frame_marker (marker s)) ss" unfolding ms(2) by (simp add: list_ex_iff)
  then have "frame_of ss \<noteq> None" by (auto simp: frame_of_def list_ex_iff find_None_iff)
  then obtain s where s: "frame_of ss = Some s" by blast
  show ?thesis
    using ss s len one multi_scan_exact [OF ss(2), of n l1 l2 ns more]
    by (intro exI [of _ ss] exI [of _ n] exI [of _ rest] exI [of _ s]) (auto simp: r not_less)
qed

text \<open>A baseline JPEG of three components in one scan, and an image library that reads it so.\<close>

definition sample_photo :: "byte list" where
  "sample_photo = [0xFF, 0xC0, 0, 9, 8, 16, 0, 16, 0, 3, 0, 0xFF, 0xDA, 0, 6, 3, 1, 2, 3]"

definition sample_pillow :: "nat pillow" where
  "sample_pillow = \<lparr>open_image = \<lambda>_. Inr 9000000, image_format = \<lambda>_. ''JPEG'', pixels = id,
     says_progressive = \<lambda>_. False, draft = \<lambda>n. n div 4,
     render = \<lambda>_. Some \<lparr>thumb = [], detail = [], photo_width = 1200, photo_height = 900\<rparr>\<rparr>"

definition sample_buckets :: storage where
  "sample_buckets = \<lparr>object_size = \<lambda>_. Inr (Some 21),
     object_read = \<lambda>_. Inr (Some (0xFF # 0xD8 # sample_photo)), put_media = \<lambda>_ _ _. Inr ()\<rparr>"

lemma sample_photo_processed:
  "process sample_pillow sample_buckets True 100 1 =
     Inr \<lparr>thumb = [], detail = [], photo_width = 1200, photo_height = 900\<rparr>"
proof -
  let ?ss = "[\<lparr>fills = 0, marker = 0xC0, body = [8, 16, 0, 16, 0, 3, 0]\<rparr>]"
  have p: "sample_photo = jpeg_bytes ?ss 0 (0 # 6 # 3 # [1, 2, 3])"
    by (simp add: sample_photo_def jpeg_bytes_def segment_bytes_def bare_marker_def be16_def)
  have ok: "list_all segment_ok ?ss" "list_all harmless ?ss"
    by (simp_all add: segment_ok_def harmless_def LOSSLESS_FRAMES_def)
  have d: "drop 2 (0xFF # 0xD8 # sample_photo) = jpeg_bytes ?ss 0 (0 # 6 # 3 # [1, 2, 3])"
    by (simp add: p numeral_2_eq_2)
  have "\<not> unsafe_container (0xFF # 0xD8 # sample_photo)"
    using jpeg_loop_segments [OF ok(1) d, of None 0] ok(2)
    by (simp add: unsafe_container_def exif_size_def)
  moreover have "\<not> multi_scan (0xFF # 0xD8 # sample_photo)"
    using multi_scan_exact [OF ok(1), of 0 0 6 3 "[1, 2, 3]"] by (simp add: p frame_of_def frame_marker_def)
  ultimately show ?thesis
    by (simp add: process_def sample_buckets_def variants_def admit_def sample_pillow_def MAX_BYTES_def
        JPEG_CAP_def OTHER_CAP_def)
qed

theorem large_photo_is_one_scan_witness:
  "\<exists>ss n rest s. sample_photo = jpeg_bytes ss n rest \<and> list_all segment_ok ss \<and> list_all harmless ss \<and>
    sum_list (map exif_size ss) \<le> EXIF_CAP \<and> frame_of ss = Some s \<and> 2 < length rest \<and>
    (list_all (\<lambda>s. frame_marker (marker s) \<longrightarrow> 6 \<le> length (body s)) ss \<longrightarrow> body s ! 5 \<le> rest ! 2)"
  by (rule large_photo_is_one_scan [OF sample_photo_processed, of sample_photo 9000000])
    (simp_all add: sample_buckets_def sample_pillow_def OTHER_CAP_def)

end
