(* ===== verification/CspReports.thy ===== *)
theory CspReports
  imports Texts Limits "HOL-Library.List_Lexorder" "HOL-Library.Char_ord"
begin

text \<open>
  \<open>backend/app/csp_reports.py\<close>: what browsers report of violated content security policies, counted
  and logged. Shows that no line ever holds anything but values of closed sets, that every report read
  is logged or counted once, and what a flood can make the process write and keep.
\<close>

section \<open>What a report may hold\<close>

text \<open>
  JSON as \<open>json.loads\<close> reads it (an object's keys are distinct), and what \<open>urlsplit\<close> and its \<open>port\<close>
  answer; that they raise is None, both are arguments below, as is \<open>ip_address\<close>.
\<close>

datatype json = JNull | JBool bool | JNumber int | JString string | JList "json list"
  | JObject "(string \<times> json) list"

record url =
  u_scheme :: string
  u_hostname :: "string option"
  u_port :: "nat option"
  u_path :: string

type_synonym origin = "string \<times> string \<times> nat"

record library =
  urlsplit :: "string \<Rightarrow> url option"
  is_address :: "string \<Rightarrow> bool"

record known_origins =
  known_app :: "origin option"
  known_media :: "origin option"
  known_upload :: "origin option"

definition LEGACY :: string where "LEGACY = ''application/csp-report''"
definition REPORTS_JSON :: string where "REPORTS_JSON = ''application/reports+json''"
definition FORMATS :: "(string \<times> string) list" where
  "FORMATS = [(LEGACY, ''csp-report''), (REPORTS_JSON, ''reports+json'')]"

definition MAX_REPORTS :: nat where "MAX_REPORTS = 10"
definition CSP_IN_FLIGHT :: nat where "CSP_IN_FLIGHT = 2"
definition LINE_BUDGET :: nat where "LINE_BUDGET = 600"
definition DROP_EVERY :: int where "DROP_EVERY = 60 * 1000000"
definition MAX_SERIES :: nat where "MAX_SERIES = 500"
definition CSP_LIMIT :: int where "CSP_LIMIT = 30"
definition MAX_VALUE :: nat where "MAX_VALUE = 4096"

definition PAGES :: "string list" where
  "PAGES = [''/[locale]'', ''/[locale]/account/contact-email'', ''/[locale]/admin'',
     ''/[locale]/admin/sign-in'', ''/[locale]/booking'', ''/[locale]/calendar'', ''/[locale]/clients'',
     ''/[locale]/forgot-password'', ''/[locale]/invite'', ''/[locale]/my-hours'',
     ''/[locale]/my-hours/time-off'', ''/[locale]/opening-hours'', ''/[locale]/privacy'',
     ''/[locale]/reset-password'', ''/[locale]/services'', ''/[locale]/services/new'',
     ''/[locale]/services/[serviceId]'', ''/[locale]/settings'', ''/[locale]/setup'',
     ''/[locale]/sign-in'', ''/[locale]/sign-up'', ''/[locale]/sign-up/complete'', ''/[locale]/team'',
     ''/[locale]/team/[memberId]'', ''/[locale]/team/[memberId]/time-off'', ''/[locale]/terms'',
     ''/[locale]/[slug]'', ''/[locale]/[slug]/book'']"

definition TEMPLATES :: "string list list" where
  "TEMPLATES = map (\<lambda>t. drop 2 (split_on (CHR ''/'') t)) PAGES"

definition dynamic :: "string \<Rightarrow> bool" where
  "dynamic segment \<longleftrightarrow> take 1 segment = ''[''"

definition LITERAL_FIRST :: "string list" where
  "LITERAL_FIRST = map hd (filter (\<lambda>t. t \<noteq> [] \<and> \<not> dynamic (hd t)) TEMPLATES)"

definition PAGE_LOCALES :: "string list" where "PAGE_LOCALES = [''en'', ''nl'', ''pt'']"

definition DIRECTIVES :: "string list" where
  "DIRECTIVES = [''base-uri'', ''block-all-mixed-content'', ''child-src'', ''connect-src'', ''default-src'',
     ''fenced-frame-src'', ''font-src'', ''form-action'', ''frame-ancestors'', ''frame-src'', ''img-src'',
     ''manifest-src'', ''media-src'', ''object-src'', ''require-trusted-types-for'', ''sandbox'',
     ''script-src'', ''script-src-attr'', ''script-src-elem'', ''style-src'', ''style-src-attr'',
     ''style-src-elem'', ''trusted-types'', ''upgrade-insecure-requests'', ''worker-src'']"

definition DISPOSITIONS :: "string list" where "DISPOSITIONS = [''enforce'', ''report'']"

definition KEYWORDS :: "string list" where
  "KEYWORDS = [''inline'', ''eval'', ''wasm-eval'', ''trusted-types-policy'', ''trusted-types-sink'', ''self'']"
definition SCHEMES :: "string list" where "SCHEMES = [''data'', ''blob'', ''filesystem'', ''about'']"
definition EXTENSIONS :: "string list" where
  "EXTENSIONS = [''chrome-extension'', ''moz-extension'', ''safari-web-extension'', ''safari-extension'',
     ''ms-browser-extension'']"
definition PROVIDERS :: "(string \<times> string) list" where
  "PROVIDERS = [(''stripe.com'', ''stripe''), (''stripe.network'', ''stripe''), (''stripecdn.com'', ''stripe''),
     (''link.com'', ''link''), (''cloudflare.com'', ''cloudflare''), (''hcaptcha.com'', ''hcaptcha'')]"
definition CATEGORIES :: "string list" where
  "CATEGORIES = KEYWORDS @ SCHEMES @ map snd PROVIDERS @
     [''media'', ''upload'', ''extension'', ''external'', ''ip-address'', ''other'', ''none'']"

text \<open>A violation is the named tuple of its six items, in the order tuples are sorted by.\<close>

type_synonym violation = "string \<times> string \<times> string \<times> string \<times> string \<times> string"

definition closed_values :: "violation \<Rightarrow> bool" where
  "closed_values v = (case v of (report_format, directive, disposition, page, blocked, source) \<Rightarrow>
     report_format \<in> set (map snd FORMATS) \<and> directive \<in> set (''other'' # DIRECTIVES) \<and>
     disposition \<in> set (''unknown'' # DISPOSITIONS) \<and> page \<in> set (''other'' # PAGES) \<and>
     blocked \<in> set CATEGORIES \<and> source \<in> set CATEGORIES)"

section \<open>Reading a report\<close>

text \<open>\<open>media_type\<close>: the first token of the header.\<close>

definition media_type :: "string option \<Rightarrow> string" where
  "media_type h = lower (strip (hd (split_on (CHR '';'') (case h of None \<Rightarrow> [] | Some t \<Rightarrow> t))))"

definition split_url :: "library \<Rightarrow> json \<Rightarrow> url option" where
  "split_url L v = (case v of
     JString s \<Rightarrow> if MAX_VALUE < length s then None else urlsplit L (strip s) | _ \<Rightarrow> None)"

definition WEB :: "(string \<times> string \<times> nat) list" where
  "WEB = [(''http'', ''http'', 80), (''https'', ''https'', 443), (''ws'', ''http'', 80), (''wss'', ''https'', 443)]"

text \<open>\<open>_origin\<close>: \<open>parts.port or web[1]\<close>, so port 0 counts as none.\<close>

definition origin_of :: "url \<Rightarrow> origin option" where
  "origin_of parts =
     (case (map_of WEB (u_scheme parts), u_hostname parts) of
        (Some (scheme, port), Some host) \<Rightarrow>
          if host = [] then None
          else Some (scheme, host, case u_port parts of None \<Rightarrow> port | Some n \<Rightarrow> if n = 0 then port else n)
      | _ \<Rightarrow> None)"

definition id_char :: "char \<Rightarrow> bool" where
  "id_char c \<longleftrightarrow> (let n = (of_char c :: nat) in
     65 \<le> n \<and> n \<le> 90 \<or> 97 \<le> n \<and> n \<le> 122 \<or> 48 \<le> n \<and> n \<le> 57 \<or> n = 45)"

definition segment_matches :: "string \<Rightarrow> string \<Rightarrow> bool" where
  "segment_matches segment pattern =
     (if pattern = ''[slug]''
      then isascii segment \<and> length segment \<le> 40 \<and> lower segment \<notin> set LITERAL_FIRST \<and> SLUG (lower segment)
      else if dynamic pattern then list_all id_char segment \<and> 1 \<le> length segment \<and> length segment \<le> 64
      else segment = pattern)"

definition page_template :: "library \<Rightarrow> known_origins \<Rightarrow> json \<Rightarrow> string" where
  "page_template L known v =
     (case split_url L v of
        None \<Rightarrow> ''other''
      | Some parts \<Rightarrow>
     (case origin_of parts of
        None \<Rightarrow> ''other''
      | Some orig \<Rightarrow>
          if Some orig \<noteq> known_app known then ''foreign''
          else (let segments = filter (\<lambda>w. w \<noteq> []) (split_on (CHR ''/'') (u_path parts))
            in if segments = [] \<or> hd segments \<notin> set PAGE_LOCALES then ''other''
               else (let matches = filter (\<lambda>t. length t = length (tl segments) \<and>
                       list_all2 segment_matches (tl segments) t) TEMPLATES
                 in if matches = [] then ''other''
                    else join_with (CHR ''/'') ([] # ''[locale]'' #
                           hd (sort_key (\<lambda>t. length (filter dynamic t)) matches))))))"

definition provider :: "string \<Rightarrow> string option" where
  "provider host =
     (let h = removesuffix host ''.''
      in map_option snd (find (\<lambda>p. h = fst p \<or> endswith h (CHR ''.'' # fst p)) PROVIDERS))"

definition resource_class :: "library \<Rightarrow> known_origins \<Rightarrow> json \<Rightarrow> string" where
  "resource_class L known v =
     (case v of
        JNull \<Rightarrow> ''none''
      | JString s \<Rightarrow>
          if s = [] then ''none'' else if MAX_VALUE < length s then ''other''
          else (let word = lower (strip s)
            in if word \<in> set KEYWORDS \<or> word \<in> set SCHEMES then word
               else (case split_url L v of
                  None \<Rightarrow> ''other''
                | Some parts \<Rightarrow>
                    if u_scheme parts \<in> set SCHEMES then u_scheme parts
                    else if u_scheme parts \<in> set EXTENSIONS then ''extension''
                    else (case origin_of parts of
                       None \<Rightarrow> ''other''
                     | Some orig \<Rightarrow>
                         if Some orig = known_app known then ''self''
                         else if Some orig = known_media known then ''media''
                         else if Some orig = known_upload known then ''upload''
                         else if is_address L (fst (snd orig)) then ''ip-address''
                         else (case provider (fst (snd orig)) of None \<Rightarrow> ''external'' | Some p \<Rightarrow> p))))
      | _ \<Rightarrow> ''other'')"

fun directive_of :: "json list \<Rightarrow> string" where
  "directive_of [] = ''other''"
| "directive_of (JString s # vs) =
     (if strip s = [] then directive_of vs
      else let name = (if length s \<le> MAX_VALUE then lower (first_word s) else [])
        in if name \<in> set DIRECTIVES then name else ''other'')"
| "directive_of (_ # vs) = directive_of vs"

definition disposition_of :: "json \<Rightarrow> string" where
  "disposition_of v = (case v of JString s \<Rightarrow> if s \<in> set DISPOSITIONS then s else ''unknown'' | _ \<Rightarrow> ''unknown'')"

text \<open>\<open>dict.get\<close>, with its default.\<close>

definition get_or :: "(string \<times> json) list \<Rightarrow> string \<Rightarrow> json \<Rightarrow> json" where
  "get_or items k v = (case map_of items k of None \<Rightarrow> v | Some x \<Rightarrow> x)"

definition get :: "(string \<times> json) list \<Rightarrow> string \<Rightarrow> json" where
  "get items k = get_or items k JNull"

definition batch_entry :: "json \<Rightarrow> (string \<times> json) list list" where
  "batch_entry entry =
     (case entry of
        JObject e \<Rightarrow>
          if get e ''type'' \<noteq> JString ''csp-violation'' then []
          else (case get e ''body'' of
             JObject items \<Rightarrow>
               [[(''document-uri'', get_or items ''documentURL'' (get e ''url'')),
                 (''effective-directive'', get items ''effectiveDirective''),
                 (''disposition'', get items ''disposition''),
                 (''blocked-uri'', get items ''blockedURL''),
                 (''source-file'', get items ''sourceFile'')]]
           | _ \<Rightarrow> [])
      | _ \<Rightarrow> [])"

definition reports :: "string \<Rightarrow> json option \<Rightarrow> (string \<times> json) list list" where
  "reports media data =
     (case data of
        None \<Rightarrow> []
      | Some d \<Rightarrow>
          if media = LEGACY
          then (case d of
             JObject obj \<Rightarrow> (case get obj ''csp-report'' of JObject report \<Rightarrow> [report] | _ \<Rightarrow> [])
           | _ \<Rightarrow> [])
          else (case d of JList entries \<Rightarrow> concat (map batch_entry entries) | _ \<Rightarrow> []))"

definition violation_of :: "library \<Rightarrow> known_origins \<Rightarrow> string \<Rightarrow> (string \<times> json) list \<Rightarrow> violation" where
  "violation_of L known report_format report =
     (report_format, directive_of [get report ''effective-directive'', get report ''violated-directive''],
      disposition_of (get report ''disposition''), page_template L known (get report ''document-uri''),
      resource_class L known (get report ''blocked-uri''), resource_class L known (get report ''source-file''))"

section \<open>The process\<close>

text \<open>
  What the process keeps between requests, and what it wrote: log lines with their time, and the
  counts added to the metric. A drop line's \<open>seconds\<close> is kept in microseconds, unrounded.
\<close>

datatype reason = Busy | Disconnected | Cross_site | Rate_limited | Limiter_unavailable | Foreign
  | Batch_cap | Global_cap

definition DROP_REASONS :: "reason list" where
  "DROP_REASONS = [Busy, Disconnected, Cross_site, Rate_limited, Limiter_unavailable, Foreign, Batch_cap, Global_cap]"

datatype line =
    Violation_line violation nat
  | Dropped_line bool "(reason \<times> nat) list" int "string option"

type_synonym series = "string \<times> string \<times> string"

record csp =
  in_flight :: nat
  drops :: "reason \<Rightarrow> nat"
  drop_error :: "string option"
  drops_logged_at :: "instant option"
  drops_since :: "instant option"
  series_seen :: "series list"
  lines_since :: "instant option"
  lines_spent :: nat
  log_lines :: "(instant \<times> line) list"
  metered :: "(series \<times> nat) list"

definition fresh_csp :: csp where
  "fresh_csp = \<lparr>in_flight = 0, drops = (\<lambda>_. 0), drop_error = None, drops_logged_at = None,
     drops_since = None, series_seen = [], lines_since = None, lines_spent = 0, log_lines = [], metered = []\<rparr>"

definition no_drops :: "csp \<Rightarrow> bool" where
  "no_drops st \<longleftrightarrow> list_all (\<lambda>r. drops st r = 0) DROP_REASONS"

definition flush_drops :: "instant \<Rightarrow> bool \<Rightarrow> csp \<Rightarrow> csp" where
  "flush_drops clock force st =
     (if no_drops st then st
      else if \<not> force \<and> (case drops_logged_at st of None \<Rightarrow> False | Some t \<Rightarrow> clock - t < DROP_EVERY) then st
      else st\<lparr>
        log_lines := log_lines st @ [(clock, Dropped_line (0 < drops st Limiter_unavailable)
          (map (\<lambda>r. (r, drops st r)) (filter (\<lambda>r. 0 < drops st r) DROP_REASONS))
          (clock - (case drops_since st of None \<Rightarrow> clock | Some t \<Rightarrow> t)) (drop_error st))],
        drops := (\<lambda>_. 0), drop_error := None, drops_logged_at := Some clock, drops_since := None\<rparr>)"

definition count_drop :: "instant \<Rightarrow> reason \<Rightarrow> nat \<Rightarrow> csp \<Rightarrow> csp" where
  "count_drop clock r n st =
     (let st1 = (if no_drops st then st\<lparr>drops_since := Some clock\<rparr> else st)
      in st1\<lparr>drops := (drops st1)(r := drops st1 r + n)\<rparr>)"

definition drop_with :: "instant \<Rightarrow> reason \<Rightarrow> csp \<Rightarrow> csp" where
  "drop_with clock r st = flush_drops clock False (count_drop clock r 1 st)"

definition OVERFLOW :: series where "OVERFLOW = (''other'', ''other'', ''other'')"

definition record_series :: "violation \<Rightarrow> nat \<Rightarrow> csp \<Rightarrow> csp" where
  "record_series v n st =
     (case v of (report_format, directive, disposition, page, blocked, source) \<Rightarrow>
        let s = (directive, disposition, blocked)
        in if s \<notin> set (series_seen st) \<and> MAX_SERIES \<le> length (series_seen st)
           then st\<lparr>metered := metered st @ [(OVERFLOW, n)]\<rparr>
           else st\<lparr>series_seen := List.insert s (series_seen st), metered := metered st @ [(s, n)]\<rparr>)"

definition spend_line :: "instant \<Rightarrow> csp \<Rightarrow> csp \<times> bool" where
  "spend_line clock st =
     (let st1 = (if (case lines_since st of None \<Rightarrow> True | Some t \<Rightarrow> DROP_EVERY \<le> clock - t)
                 then st\<lparr>lines_since := Some clock, lines_spent := 0\<rparr> else st)
      in if LINE_BUDGET \<le> lines_spent st1 then (st1, False)
         else (st1\<lparr>lines_spent := lines_spent st1 + 1\<rparr>, True))"

section \<open>The route\<close>

text \<open>
  \<open>report\<close>, in the three parts its two awaits leave: up to the limiter's call (None: answered 204
  already), from its answer to reading the body, and from the body to the answer.
\<close>

definition begin_report ::
  "instant \<Rightarrow> string option \<Rightarrow> string option \<Rightarrow> csp \<Rightarrow> (csp \<times> string option) result" where
  "begin_report clock content_type site st =
     (let media = media_type content_type
      in if media \<notin> {LEGACY, REPORTS_JSON} then Inl (ApiError 415 ''unsupported_media_type'')
         else if (case site of None \<Rightarrow> False | Some s \<Rightarrow> lower (strip s) \<noteq> ''same-origin'')
         then Inr (drop_with clock Cross_site st, None)
         else if CSP_IN_FLIGHT \<le> in_flight st then Inr (drop_with clock Busy st, None)
         else Inr (st\<lparr>in_flight := in_flight st + 1\<rparr>, Some media))"

definition limiter_answered :: "instant \<Rightarrow> string + int \<Rightarrow> csp \<Rightarrow> csp \<times> bool" where
  "limiter_answered clock hits st =
     (case hits of
        Inl e \<Rightarrow>
          (let st1 = drop_with clock Limiter_unavailable (st\<lparr>drop_error := Some e\<rparr>)
           in (st1\<lparr>in_flight := in_flight st1 - 1\<rparr>, False))
      | Inr n \<Rightarrow>
          (let st1 = st\<lparr>in_flight := in_flight st - 1\<rparr>
           in if CSP_LIMIT < n then (drop_with clock Rate_limited st1, False) else (st1, True)))"

definition log_violation :: "instant \<Rightarrow> violation \<times> nat \<Rightarrow> csp \<Rightarrow> csp" where
  "log_violation clock p st =
     (let (v, n) = p; page = fst (snd (snd (snd v)))
      in if page = ''foreign'' then st
         else (let (st1, left) = spend_line clock (record_series v n st)
           in if left then st1\<lparr>log_lines := log_lines st1 @ [(clock, Violation_line v n)]\<rparr>
              else count_drop clock Global_cap n st1))"

definition read_body ::
  "library \<Rightarrow> known_origins \<Rightarrow> instant \<Rightarrow> string \<Rightarrow> json option option \<Rightarrow> csp \<Rightarrow> csp" where
  "read_body L known clock media body st =
     (case body of
        None \<Rightarrow> drop_with clock Disconnected st
      | Some data \<Rightarrow>
          (let rs = reports media data;
               st1 = (if MAX_REPORTS < length rs then count_drop clock Batch_cap (length rs - MAX_REPORTS) st else st);
               vs = map (violation_of L known (the (map_of FORMATS media))) (take MAX_REPORTS rs);
               found = map (\<lambda>v. (v, count_list vs v)) (sort (remdups vs));
               foreign = sum_list (map snd (filter (\<lambda>p. fst (snd (snd (snd (fst p)))) = ''foreign'') found));
               st2 = (if 0 < foreign then count_drop clock Foreign foreign st1 else st1)
           in flush_drops clock False (fold (log_violation clock) found st2)))"

section \<open>Every field is from a closed set\<close>

lemma find_in: "find P xs = Some x \<Longrightarrow> x \<in> set xs"
  by (auto simp: find_Some_iff)

lemma resource_class_closed: "resource_class L known v \<in> set CATEGORIES"
proof -
  have "p \<in> set (map snd PROVIDERS)" if "provider h = Some p" for h p
    using that by (force simp: provider_def Let_def dest: find_in)
  moreover have "''self'' \<in> set KEYWORDS" by code_simp
  ultimately show ?thesis
    by (auto simp: resource_class_def CATEGORIES_def Let_def split: json.splits option.splits)
qed

lemma directive_closed: "directive_of vs \<in> set (''other'' # DIRECTIVES)"
  by (induction vs rule: directive_of.induct) (auto simp: Let_def)

lemma disposition_closed: "disposition_of v \<in> set (''unknown'' # DISPOSITIONS)"
  by (auto simp: disposition_of_def split: json.splits)

lemma pages_of_templates: "list_all (\<lambda>t. join_with (CHR ''/'') ([] # ''[locale]'' # t) \<in> set PAGES) TEMPLATES"
  by code_simp

lemma page_template_closed: "page_template L known v \<in> set (''foreign'' # ''other'' # PAGES)"
proof -
  have "join_with (CHR ''/'') ([] # ''[locale]'' # hd (sort_key k ts)) \<in> set PAGES"
    if "set ts \<subseteq> set TEMPLATES" "ts \<noteq> []" for k :: "string list \<Rightarrow> nat" and ts
  proof -
    have "sort_key k ts \<noteq> []" using that(2) by (metis length_0_conv length_sort)
    then have "hd (sort_key k ts) \<in> set TEMPLATES"
      using that(1) hd_in_set [of "sort_key k ts"] by auto
    then show ?thesis using pages_of_templates by (simp only: list_all_iff)
  qed
  then show ?thesis
    by (auto simp: page_template_def Let_def simp del: join_with.simps split: option.splits)
qed

lemma violation_closed:
  assumes "media \<in> {LEGACY, REPORTS_JSON}" "v = violation_of L known (the (map_of FORMATS media)) r"
    and "fst (snd (snd (snd v))) \<noteq> ''foreign''"
  shows "closed_values v"
proof -
  have "the (map_of FORMATS media) \<in> set (map snd FORMATS)"
    using assms(1) by (auto simp: FORMATS_def LEGACY_def REPORTS_JSON_def)
  then show ?thesis
    using assms(2,3) directive_closed disposition_closed page_template_closed resource_class_closed
    unfolding closed_values_def violation_of_def by fastforce
qed

text \<open>What a line may hold: a drop line holds counts, a time and the limiter's own error.\<close>

fun line_closed :: "line \<Rightarrow> bool" where
  "line_closed (Violation_line v n) \<longleftrightarrow> closed_values v \<and> 0 < n"
| "line_closed (Dropped_line warning counts seconds e) \<longleftrightarrow> list_all (\<lambda>p. 0 < snd p) counts"

section \<open>Steps\<close>

text \<open>
  The requests under way: waiting for the limiter, or for their body. A step is the part of a request
  between two awaits, the timer, or the shutdown's flush; the clock does not run backwards.
\<close>

datatype task = Limiting string | Reading string

type_synonym process_state = "instant \<times> csp \<times> task list"

inductive csp_step :: "library \<Rightarrow> known_origins \<Rightarrow> process_state \<Rightarrow> process_state \<Rightarrow> bool" for L known where
  Clock: "t \<le> t' \<Longrightarrow> csp_step L known (t, st, ts) (t', st, ts)"
| Answered: "begin_report t content_type site st = Inr (st', None) \<Longrightarrow> csp_step L known (t, st, ts) (t, st', ts)"
| Begins: "begin_report t content_type site st = Inr (st', Some media) \<Longrightarrow>
     csp_step L known (t, st, ts) (t, st', Limiting media # ts)"
| Limited: "limiter_answered t hits st = (st', go) \<Longrightarrow>
     csp_step L known (t, st, us @ Limiting media # vs) (t, st', us @ (if go then [Reading media] else []) @ vs)"
| Reads: "csp_step L known (t, st, us @ Reading media # vs) (t, read_body L known t media body st, us @ vs)"
| Timer: "csp_step L known (t, st, ts) (t, flush_drops t False st, ts)"
| Shutdown: "csp_step L known (t, st, ts) (t, flush_drops t True st, ts)"

definition limiting :: "task list \<Rightarrow> nat" where
  "limiting ts = length (filter (\<lambda>k. case k of Limiting _ \<Rightarrow> True | Reading _ \<Rightarrow> False) ts)"

text \<open>The part of the process a line's content and number depend on, and what each operation does to it.\<close>

definition violations :: "csp \<Rightarrow> (instant \<times> violation \<times> nat) list" where
  "violations st = concat (map (\<lambda>(t, l). case l of Violation_line v n \<Rightarrow> [(t, v, n)] | _ \<Rightarrow> []) (log_lines st))"

lemma violations_append [simp]:
  "log_lines st' = log_lines st @ ls \<Longrightarrow> violations st' = violations st @
     concat (map (\<lambda>(t, l). case l of Violation_line v n \<Rightarrow> [(t, v, n)] | _ \<Rightarrow> []) ls)"
  by (simp add: violations_def)

definition only_drops :: "(instant \<times> line) list \<Rightarrow> bool" where
  "only_drops ls \<longleftrightarrow> list_all (\<lambda>(t, l). case l of Violation_line v n \<Rightarrow> False
     | Dropped_line w counts seconds e \<Rightarrow> list_all (\<lambda>p. 0 < snd p) counts) ls"

definition quiet_csp :: "csp \<Rightarrow> csp \<Rightarrow> bool" where
  "quiet_csp st st' \<longleftrightarrow> (\<exists>ls. only_drops ls \<and> log_lines st' = log_lines st @ ls) \<and>
     in_flight st' = in_flight st \<and> series_seen st' = series_seen st \<and> lines_since st' = lines_since st \<and>
     lines_spent st' = lines_spent st \<and> metered st' = metered st"

lemma quiet_csp_refl [simp]: "quiet_csp st st"
  by (auto simp: quiet_csp_def only_drops_def intro: exI [of _ "[]"])

lemma quiet_csp_trans: "quiet_csp a b \<Longrightarrow> quiet_csp b c \<Longrightarrow> quiet_csp a c"
  unfolding quiet_csp_def only_drops_def by (metis (no_types, lifting) append.assoc list_all_append)

lemma no_violation_in_drops:
  "only_drops ls \<Longrightarrow> concat (map (\<lambda>(t, l). case l of Violation_line v n \<Rightarrow> [(t, v, n)] | _ \<Rightarrow> []) ls) = []"
  by (induction ls) (auto simp: only_drops_def split: line.splits)

lemma quiet_cspD:
  assumes "quiet_csp st st'"
  shows "violations st' = violations st" "in_flight st' = in_flight st" "series_seen st' = series_seen st"
    "lines_since st' = lines_since st" "lines_spent st' = lines_spent st" "metered st' = metered st"
    "list_all (line_closed \<circ> snd) (log_lines st) \<Longrightarrow> list_all (line_closed \<circ> snd) (log_lines st')"
proof -
  obtain ls where ls: "only_drops ls" "log_lines st' = log_lines st @ ls"
    using assms by (auto simp: quiet_csp_def)
  show "violations st' = violations st" using ls no_violation_in_drops [OF ls(1)] by simp
  have "list_all (line_closed \<circ> snd) ls"
    using ls(1) by (induction ls) (auto simp: only_drops_def split: line.splits)
  then show "list_all (line_closed \<circ> snd) (log_lines st')" if "list_all (line_closed \<circ> snd) (log_lines st)"
    using that ls(2) by simp
qed (use assms in \<open>simp_all add: quiet_csp_def\<close>)

lemma quiet_count: "quiet_csp st (count_drop clock r n st)"
  by (simp add: count_drop_def quiet_csp_def Let_def only_drops_def exI [of _ "[]"])

lemma quiet_flush: "quiet_csp st (flush_drops clock force st)"
  by (auto simp: flush_drops_def quiet_csp_def only_drops_def list_all_iff intro: exI [of _ "[]"])

lemma quiet_drop: "quiet_csp st (drop_with clock r st)"
  unfolding drop_with_def by (rule quiet_csp_trans [OF quiet_count quiet_flush])

section \<open>The line budget\<close>

text \<open>
  Over the times of the violation lines so far: the running window holds as many as are spent, what
  came before it lies in an earlier one, and no minute holds more than two windows' worth.
\<close>

definition count_in :: "instant \<Rightarrow> instant \<Rightarrow> instant list \<Rightarrow> nat" where
  "count_in a b ts = length (filter (\<lambda>x. a \<le> x \<and> x < b) ts)"

definition budget :: "instant \<Rightarrow> instant list \<Rightarrow> instant option \<Rightarrow> nat \<Rightarrow> bool" where
  "budget clock ts since n \<longleftrightarrow>
     (\<forall>x \<in> set ts. x \<le> clock) \<and> (\<forall>t. count_in t (t + DROP_EVERY) ts \<le> 2 * LINE_BUDGET) \<and>
     (case since of
        None \<Rightarrow> ts = []
      | Some s \<Rightarrow> s \<le> clock \<and> n \<le> LINE_BUDGET \<and> (\<forall>x \<in> set ts. x < s + DROP_EVERY) \<and>
          count_in s (s + DROP_EVERY) ts = n \<and> (\<forall>t > s - DROP_EVERY. count_in t s ts \<le> LINE_BUDGET))"

lemma count_in_append [simp]: "count_in a b (ts @ [x]) = count_in a b ts + (if a \<le> x \<and> x < b then 1 else 0)"
  by (simp add: count_in_def)

lemma count_in_mono: "\<forall>x \<in> set ts. a \<le> x \<and> x < b \<longrightarrow> a' \<le> x \<and> x < b' \<Longrightarrow> count_in a b ts \<le> count_in a' b' ts"
  unfolding count_in_def by (induction ts) auto

lemma count_in_split: "count_in a c ts \<le> count_in a b ts + count_in b c ts"
  unfolding count_in_def by (induction ts) auto

lemma budget_later: "budget c ts since n \<Longrightarrow> c \<le> c' \<Longrightarrow> budget c' ts since n"
  by (auto simp: budget_def split: option.splits)

lemma budget_restart:
  assumes "budget c ts since n" "case since of None \<Rightarrow> True | Some s \<Rightarrow> DROP_EVERY \<le> c - s"
  shows "budget c ts (Some c) 0"
proof (cases since)
  case None
  then show ?thesis using assms by (simp add: budget_def count_in_def DROP_EVERY_def)
next
  case (Some s)
  have old: "x < c" if "x \<in> set ts" for x
    using assms that Some by (fastforce simp: budget_def)
  have "count_in t c ts \<le> LINE_BUDGET" if "c - DROP_EVERY < t" for t
  proof -
    have "count_in t c ts \<le> count_in s (s + DROP_EVERY) ts"
      by (rule count_in_mono) (use assms that Some in \<open>fastforce simp: budget_def\<close>)
    then show ?thesis using assms(1) Some by (simp add: budget_def)
  qed
  moreover have "count_in c (c + DROP_EVERY) ts = 0"
    using old by (auto simp: count_in_def filter_empty_conv dest!: old)
  ultimately show ?thesis
    using assms(1) old by (fastforce simp: budget_def DROP_EVERY_def)
qed

lemma budget_spend:
  assumes "budget c ts (Some s) n" "n < LINE_BUDGET" "c < s + DROP_EVERY"
  shows "budget c (ts @ [c]) (Some s) (n + 1)"
proof -
  have s: "s \<le> c" "count_in s (s + DROP_EVERY) ts = n" "\<forall>x \<in> set ts. x < s + DROP_EVERY"
    "\<And>t. s - DROP_EVERY < t \<Longrightarrow> count_in t s ts \<le> LINE_BUDGET"
    "\<And>t. count_in t (t + DROP_EVERY) ts \<le> 2 * LINE_BUDGET"
    using assms(1) by (auto simp: budget_def)
  have "count_in t (t + DROP_EVERY) (ts @ [c]) \<le> 2 * LINE_BUDGET" for t
  proof (cases "t \<le> c \<and> c < t + DROP_EVERY")
    case True
    have "count_in t (t + DROP_EVERY) ts \<le> count_in t s ts + count_in s (t + DROP_EVERY) ts"
      by (rule count_in_split)
    moreover have "count_in s (t + DROP_EVERY) ts \<le> n"
      unfolding s(2) [symmetric] by (rule count_in_mono) (use s(3) in auto)
    moreover have "count_in t s ts \<le> LINE_BUDGET" using True s(1) by (intro s(4)) simp
    ultimately show ?thesis using assms(2) True by simp
  next
    case False
    then show ?thesis using s(5) [of t] by auto
  qed
  then show ?thesis
    using assms s by (fastforce simp: budget_def)
qed

section \<open>What every step keeps\<close>

definition metered_ok :: "csp \<Rightarrow> bool" where
  "metered_ok st \<longleftrightarrow> distinct (series_seen st) \<and> length (series_seen st) \<le> MAX_SERIES \<and>
     fst ` set (metered st) \<subseteq> insert OVERFLOW (set (series_seen st))"

definition state_ok :: "instant \<Rightarrow> csp \<Rightarrow> bool" where
  "state_ok t st \<longleftrightarrow> list_all (line_closed \<circ> snd) (log_lines st) \<and> metered_ok st \<and>
     budget t (map fst (violations st)) (lines_since st) (lines_spent st)"

lemma quiet_state_ok: "quiet_csp st st' \<Longrightarrow> state_ok t st \<Longrightarrow> state_ok t st'"
  using quiet_cspD [of st st'] by (simp add: state_ok_def metered_ok_def)

lemma record_series_ok:
  assumes "state_ok t st"
  shows "state_ok t (record_series v n st)" "in_flight (record_series v n st) = in_flight st"
    "log_lines (record_series v n st) = log_lines st"
proof -
  show "in_flight (record_series v n st) = in_flight st" and logs: "log_lines (record_series v n st) = log_lines st"
    by (simp_all add: record_series_def Let_def split: prod.split)
  have "metered_ok (record_series v n st)"
    using assms by (auto simp: state_ok_def metered_ok_def record_series_def Let_def List.insert_def split: prod.split)
  moreover have "lines_since (record_series v n st) = lines_since st" "lines_spent (record_series v n st) = lines_spent st"
    by (simp_all add: record_series_def Let_def split: prod.split)
  ultimately show "state_ok t (record_series v n st)"
    using assms logs by (simp add: state_ok_def violations_def)
qed

lemma spend_line_ok:
  assumes "state_ok t st" "spend_line t st = (st', left)" "closed_values v" "0 < n"
  shows "state_ok t (if left then st'\<lparr>log_lines := log_lines st' @ [(t, Violation_line v n)]\<rparr> else st')"
    "in_flight st' = in_flight st"
proof -
  define st1 where "st1 = (if (case lines_since st of None \<Rightarrow> True | Some s \<Rightarrow> DROP_EVERY \<le> t - s)
    then st\<lparr>lines_since := Some t, lines_spent := 0\<rparr> else st)"
  let ?ts = "map fst (violations st)"
  have b: "budget t ?ts (lines_since st) (lines_spent st)" using assms(1) by (simp add: state_ok_def)
  have same: "log_lines st1 = log_lines st" "in_flight st1 = in_flight st" "metered_ok st1 = metered_ok st"
    by (simp_all add: st1_def metered_ok_def)
  have v: "violations st1 = violations st" using same(1) by (simp add: violations_def)
  have "\<exists>s. lines_since st1 = Some s \<and> t < s + DROP_EVERY"
    by (cases "lines_since st") (auto simp: st1_def DROP_EVERY_def)
  then obtain s where s: "lines_since st1 = Some s" "t < s + DROP_EVERY" by blast
  have b1: "budget t ?ts (Some s) (lines_spent st1)"
  proof (cases "case lines_since st of None \<Rightarrow> True | Some s \<Rightarrow> DROP_EVERY \<le> t - s")
    case True
    then show ?thesis using budget_restart [OF b True] s by (simp add: st1_def)
  next
    case False
    then show ?thesis using b s by (simp add: st1_def)
  qed
  have ok1: "state_ok t st1" using assms(1) same v b1 s(1) by (simp add: state_ok_def)
  have sp: "spend_line t st = (if LINE_BUDGET \<le> lines_spent st1 then (st1, False)
      else (st1\<lparr>lines_spent := lines_spent st1 + 1\<rparr>, True))"
    by (simp add: spend_line_def st1_def Let_def)
  show "in_flight st' = in_flight st" using sp assms(2) same(2) by (auto split: if_splits)
  show "state_ok t (if left then st'\<lparr>log_lines := log_lines st' @ [(t, Violation_line v n)]\<rparr> else st')"
  proof (cases "LINE_BUDGET \<le> lines_spent st1")
    case True
    then show ?thesis using sp assms(2) ok1 by auto
  next
    case False
    then have st': "st' = st1\<lparr>lines_spent := lines_spent st1 + 1\<rparr>" "left" using sp assms(2) by auto
    have "budget t (?ts @ [t]) (Some s) (lines_spent st1 + 1)"
      using budget_spend [OF b1 _ s(2)] False by simp
    then show ?thesis
      using st' ok1 assms(3,4) s(1) v
      by (simp add: state_ok_def metered_ok_def violations_def)
  qed
qed

lemma log_violation_ok:
  assumes "state_ok t st" "0 < snd p" "fst (snd (snd (snd (fst p)))) \<noteq> ''foreign'' \<Longrightarrow> closed_values (fst p)"
  shows "state_ok t (log_violation t p st) \<and> in_flight (log_violation t p st) = in_flight st"
proof (cases "fst (snd (snd (snd (fst p)))) = ''foreign''")
  case True
  moreover obtain v n where "p = (v, n)" by (cases p)
  ultimately show ?thesis using assms(1) by (simp add: log_violation_def Let_def)
next
  case False
  obtain v n where p: "p = (v, n)" by (cases p)
  obtain st1 left where sp: "spend_line t (record_series v n st) = (st1, left)" by force
  note r = record_series_ok [OF assms(1), of v n]
  note k = spend_line_ok [OF r(1) sp, of v n]
  have "closed_values v" "0 < n" using assms(2,3) False p by auto
  with k have k: "state_ok t (if left then st1\<lparr>log_lines := log_lines st1 @ [(t, Violation_line v n)]\<rparr> else st1)"
    "in_flight st1 = in_flight st" using r(2) by auto
  show ?thesis
  proof (cases left)
    case True
    then show ?thesis using k sp p False by (simp add: log_violation_def Let_def)
  next
    case other: False
    then have "log_violation t p st = count_drop t Global_cap n st1"
      using sp p False by (simp add: log_violation_def Let_def)
    then show ?thesis
      using k other quiet_state_ok [OF quiet_count, of t st1] quiet_cspD(2) [OF quiet_count] by simp
  qed
qed

lemma log_violations_ok:
  assumes "state_ok t st"
    and "\<And>p. p \<in> set ps \<Longrightarrow> 0 < snd p \<and> (fst (snd (snd (snd (fst p)))) \<noteq> ''foreign'' \<longrightarrow> closed_values (fst p))"
  shows "state_ok t (fold (log_violation t) ps st) \<and> in_flight (fold (log_violation t) ps st) = in_flight st"
  using assms
proof (induction ps arbitrary: st)
  case (Cons p ps)
  have "state_ok t (log_violation t p st) \<and> in_flight (log_violation t p st) = in_flight st"
    by (rule log_violation_ok) (use Cons.prems in auto)
  then show ?case using Cons.IH [of "log_violation t p st"] Cons.prems(2) by simp
qed simp

lemma read_body_ok:
  assumes "state_ok t st" "media \<in> {LEGACY, REPORTS_JSON}"
  shows "state_ok t (read_body L known t media body st) \<and> in_flight (read_body L known t media body st) = in_flight st"
proof (cases body)
  case None
  then show ?thesis
    using quiet_state_ok [OF quiet_drop assms(1)] quiet_cspD(2) [OF quiet_drop] by (simp add: read_body_def)
next
  case (Some data)
  define rs where "rs = reports media data"
  define st1 where "st1 = (if MAX_REPORTS < length rs then count_drop t Batch_cap (length rs - MAX_REPORTS) st else st)"
  define vs where "vs = map (violation_of L known (the (map_of FORMATS media))) (take MAX_REPORTS rs)"
  define found where "found = map (\<lambda>v. (v, count_list vs v)) (sort (remdups vs))"
  define foreign where "foreign = sum_list (map snd (filter (\<lambda>p. fst (snd (snd (snd (fst p)))) = ''foreign'') found))"
  define st2 where "st2 = (if 0 < foreign then count_drop t Foreign foreign st1 else st1)"
  have body: "read_body L known t media body st = flush_drops t False (fold (log_violation t) found st2)"
    unfolding st2_def foreign_def found_def vs_def st1_def rs_def by (simp add: read_body_def Some Let_def)
  have q: "quiet_csp st st2"
    using quiet_csp_trans [OF quiet_count quiet_count] quiet_count by (simp add: st1_def st2_def)
  have "0 < snd p \<and> (fst (snd (snd (snd (fst p)))) \<noteq> ''foreign'' \<longrightarrow> closed_values (fst p))" if "p \<in> set found" for p
  proof -
    have "p \<in> (\<lambda>v. (v, count_list vs v)) ` set vs" using that by (simp add: found_def)
    then obtain v where v: "p = (v, count_list vs v)" "v \<in> set vs" by blast
    have "count_list vs v \<noteq> 0" using v(2) by (simp add: count_list_0_iff)
    moreover have "\<exists>r. v = violation_of L known (the (map_of FORMATS media)) r"
      using v(2) by (force simp: vs_def)
    then obtain r where "v = violation_of L known (the (map_of FORMATS media)) r" by blast
    ultimately show ?thesis using v(1) violation_closed [OF assms(2)] by auto
  qed
  from log_violations_ok [OF quiet_state_ok [OF q assms(1)] this]
  have "state_ok t (fold (log_violation t) found st2) \<and> in_flight (fold (log_violation t) found st2) = in_flight st2"
    by blast
  then show ?thesis
    unfolding body using quiet_state_ok [OF quiet_flush] quiet_cspD(2) [OF quiet_flush] quiet_cspD(2) [OF q] by simp
qed

definition media_ok :: "task \<Rightarrow> bool" where
  "media_ok k = (case k of Limiting m \<Rightarrow> m \<in> {LEGACY, REPORTS_JSON} | Reading m \<Rightarrow> m \<in> {LEGACY, REPORTS_JSON})"

definition process_ok :: "process_state \<Rightarrow> bool" where
  "process_ok S = (case S of (t, st, ts) \<Rightarrow> state_ok t st \<and> in_flight st = limiting ts \<and>
     in_flight st \<le> CSP_IN_FLIGHT \<and> list_all media_ok ts)"

lemma state_ok_other:
  "state_ok t (st\<lparr>in_flight := n\<rparr>) \<longleftrightarrow> state_ok t st" "state_ok t (st\<lparr>drop_error := e\<rparr>) \<longleftrightarrow> state_ok t st"
  by (simp_all add: state_ok_def metered_ok_def violations_def)

lemma begin_report_ok:
  assumes "begin_report t content_type site st = Inr (st', next)" "state_ok t st"
  shows "state_ok t st'"
    "(case next of None \<Rightarrow> in_flight st' = in_flight st
      | Some m \<Rightarrow> in_flight st' = in_flight st + 1 \<and> m \<in> {LEGACY, REPORTS_JSON} \<and> in_flight st < CSP_IN_FLIGHT)"
  using assms quiet_state_ok [OF quiet_drop assms(2)] quiet_cspD(2) [OF quiet_drop]
  by (auto simp: begin_report_def Let_def state_ok_other split: if_splits)

lemma limiter_answered_ok:
  assumes "limiter_answered t hits st = (st', go)" "state_ok t st"
  shows "state_ok t st'" "in_flight st' = in_flight st - 1"
  using assms state_ok_other quiet_state_ok [OF quiet_drop] quiet_cspD(2) [OF quiet_drop]
  by (auto simp: limiter_answered_def Let_def split: sum.splits if_splits)

lemma csp_step_ok: "csp_step L known S S' \<Longrightarrow> process_ok S \<Longrightarrow> process_ok S'"
proof (induction rule: csp_step.induct)
  case (Clock t t' st ts)
  then show ?case using budget_later by (auto simp: process_ok_def state_ok_def)
next
  case (Answered t content_type site st st' ts)
  then show ?case using begin_report_ok [OF Answered(1)] by (simp add: process_ok_def)
next
  case (Begins t content_type site st st' media ts)
  then show ?case using begin_report_ok [OF Begins(1)] by (simp add: process_ok_def limiting_def media_ok_def)
next
  case (Limited t hits st st' go us media vs)
  then show ?case
    using limiter_answered_ok [OF Limited(1)] by (auto simp: process_ok_def limiting_def media_ok_def)
next
  case (Reads t st us media vs body)
  then show ?case
    using read_body_ok [of t st media] by (auto simp: process_ok_def limiting_def media_ok_def)
next
  case (Timer t st ts)
  then show ?case
    using quiet_state_ok [OF quiet_flush] quiet_cspD(2) [OF quiet_flush] by (simp add: process_ok_def)
next
  case (Shutdown t st ts)
  then show ?case
    using quiet_state_ok [OF quiet_flush] quiet_cspD(2) [OF quiet_flush] by (simp add: process_ok_def)
qed

lemma reachable_ok:
  assumes "(csp_step L known)\<^sup>*\<^sup>* (t0, fresh_csp, []) (t, st, ts)"
  shows "process_ok (t, st, ts)"
  using assms
proof (induction rule: rtranclp_induct)
  case base
  show ?case
    by (simp add: process_ok_def state_ok_def metered_ok_def fresh_csp_def violations_def budget_def
        count_in_def limiting_def)
qed (rule csp_step_ok)

text \<open>
  C35: However reports, answers of the limiter, bodies and the timer interleave and whatever
  the bodies hold, every violation line the process writes has each of its six fields from
  that field's closed set: no host, path, name or script of a page ever reaches the log.
\<close>

theorem csp_lines_hold_only_closed_values:
  assumes "(csp_step L known)\<^sup>*\<^sup>* (t0, fresh_csp, []) (t, st, ts)"
  shows "list_all (line_closed \<circ> snd) (log_lines st)"
  using reachable_ok [OF assms] by (simp add: process_ok_def state_ok_def)

text \<open>
  C36: In every such history at most two limiter calls run at once, the metric gets at most
  501 series, and no minute, wherever it starts, holds more than two budgets of violation
  lines.
\<close>

theorem csp_flood_is_bounded:
  assumes "(csp_step L known)\<^sup>*\<^sup>* (t0, fresh_csp, []) (t, st, ts)"
  shows "limiting ts \<le> 2 \<and> card (fst ` set (metered st)) \<le> 501 \<and>
    count_in since (since + 60 * 1000000) (map fst (violations st)) \<le> 1200"
proof (intro conjI)
  have ok: "process_ok (t, st, ts)" by (rule reachable_ok [OF assms])
  then show "limiting ts \<le> 2" by (simp add: process_ok_def CSP_IN_FLIGHT_def)
  have m: "length (series_seen st) \<le> 500" "fst ` set (metered st) \<subseteq> insert OVERFLOW (set (series_seen st))"
    using ok by (simp_all add: process_ok_def state_ok_def metered_ok_def MAX_SERIES_def)
  have "card (fst ` set (metered st)) \<le> card (insert OVERFLOW (set (series_seen st)))"
    by (rule card_mono [OF _ m(2)]) simp
  also have "\<dots> \<le> 501"
    using m(1) card_length [of "series_seen st"] by (simp add: card_insert_if)
  finally show "card (fst ` set (metered st)) \<le> 501" .
  show "count_in since (since + 60 * 1000000) (map fst (violations st)) \<le> 1200"
    using ok by (simp add: process_ok_def state_ok_def budget_def DROP_EVERY_def LINE_BUDGET_def)
qed

section \<open>Every report is counted once\<close>

text \<open>What was ever dropped for a reason: what is still to be written, and what the drop lines say.\<close>

definition line_drops :: "reason \<Rightarrow> line \<Rightarrow> nat" where
  "line_drops r l = (case l of Violation_line v n \<Rightarrow> 0
     | Dropped_line w counts s e \<Rightarrow> (case map_of counts r of None \<Rightarrow> 0 | Some n \<Rightarrow> n))"

definition dropped :: "csp \<Rightarrow> reason \<Rightarrow> nat" where
  "dropped st r = drops st r + sum_list (map (line_drops r \<circ> snd) (log_lines st))"

definition logged :: "csp \<Rightarrow> nat" where
  "logged st = sum_list (map (\<lambda>p. snd (snd p)) (violations st))"

lemma flushed_counts: "line_drops r (Dropped_line w (map (\<lambda>r. (r, f r)) (filter (\<lambda>r. 0 < f r) DROP_REASONS)) s e) = f r"
proof -
  have all: "r \<in> set DROP_REASONS" by (cases r) (simp_all add: DROP_REASONS_def)
  have "map_of (map (\<lambda>r. (r, f r)) rs) r = (if r \<in> set rs then Some (f r) else None)" for rs
    by (induction rs) auto
  then show ?thesis using all by (simp add: line_drops_def)
qed

lemma flush_counts: "dropped (flush_drops t force st) r = dropped st r" "logged (flush_drops t force st) = logged st"
proof -
  show "dropped (flush_drops t force st) r = dropped st r"
    using flushed_counts by (simp add: flush_drops_def dropped_def)
  show "logged (flush_drops t force st) = logged st"
    using quiet_cspD(1) [OF quiet_flush] by (simp add: logged_def)
qed

lemma count_drop_counts:
  "dropped (count_drop t k n st) r = dropped st r + (if r = k then n else 0)" "logged (count_drop t k n st) = logged st"
  by (simp_all add: count_drop_def dropped_def logged_def violations_def Let_def)

lemma log_violation_counts:
  assumes "log_violation t p st = st'"
  shows "logged st' + dropped st' Global_cap = logged st + dropped st Global_cap +
      (if fst (snd (snd (snd (fst p)))) = ''foreign'' then 0 else snd p)"
    and "r \<noteq> Global_cap \<Longrightarrow> dropped st' r = dropped st r"
proof -
  obtain v n where p: "p = (v, n)" by (cases p)
  obtain st1 left where sp: "spend_line t (record_series v n st) = (st1, left)" by force
  have "log_lines (record_series v n st) = log_lines st" "drops (record_series v n st) = drops st"
    by (simp_all add: record_series_def Let_def split: prod.split)
  then have same: "log_lines st1 = log_lines st" "drops st1 = drops st"
    using sp by (auto simp: spend_line_def Let_def split: if_splits)
  then have c: "dropped st1 r = dropped st r" "logged st1 = logged st" for r
    by (simp_all add: dropped_def logged_def violations_def)
  have st': "st' = (if fst (snd (snd (snd v))) = ''foreign'' then st
      else if left then st1\<lparr>log_lines := log_lines st1 @ [(t, Violation_line v n)]\<rparr> else count_drop t Global_cap n st1)"
    using assms sp p by (auto simp: log_violation_def Let_def)
  have add: "dropped (st1\<lparr>log_lines := log_lines st1 @ [(t, Violation_line v n)]\<rparr>) r = dropped st1 r"
    "logged (st1\<lparr>log_lines := log_lines st1 @ [(t, Violation_line v n)]\<rparr>) = logged st1 + n" for r
    by (simp_all add: dropped_def logged_def violations_def line_drops_def)
  show "logged st' + dropped st' Global_cap = logged st + dropped st Global_cap +
      (if fst (snd (snd (snd (fst p)))) = ''foreign'' then 0 else snd p)"
    unfolding st' by (simp add: p c add count_drop_counts)
  show "dropped st' r = dropped st r" if "r \<noteq> Global_cap"
    unfolding st' using that by (simp add: c add count_drop_counts)
qed

lemma log_violations_counts:
  "logged (fold (log_violation t) ps st) + dropped (fold (log_violation t) ps st) Global_cap =
     logged st + dropped st Global_cap +
     sum_list (map snd (filter (\<lambda>p. fst (snd (snd (snd (fst p)))) \<noteq> ''foreign'') ps))"
proof (induction ps arbitrary: st)
  case (Cons p ps)
  show ?case
    using Cons [of "log_violation t p st"] log_violation_counts(1) [OF refl, where t = t and p = p and st = st]
    by (simp split: if_splits)
qed simp

lemma log_violations_leave:
  "r \<noteq> Global_cap \<Longrightarrow> dropped (fold (log_violation t) ps st) r = dropped st r"
  by (induction ps arbitrary: st) (simp_all add: log_violation_counts(2) [OF refl])

lemma counted_all: "sum_list (map (\<lambda>v. count_list vs v) (sort (remdups vs))) = length vs"
proof -
  have "sum_list (map (count_list vs) (sort (remdups vs))) = (\<Sum>v \<in> set vs. count_list vs v)"
    by (subst sum_list_distinct_conv_sum_set) simp_all
  then show ?thesis by (simp add: sum_count_set)
qed

lemma sum_filter_split:
  "sum_list (map f (filter P xs)) + sum_list (map f (filter (\<lambda>x. \<not> P x) xs)) = (sum_list (map f xs) :: nat)"
  by (induction xs) auto

text \<open>
  Reading a body counts each of its reports exactly once: in a violation line, or among
  those beyond the batch, of another origin, or beyond the line budget.
\<close>

lemma csp_every_report_counted_once:
  "logged (read_body L known t media (Some data) st) + dropped (read_body L known t media (Some data) st) Global_cap +
     dropped (read_body L known t media (Some data) st) Foreign + dropped (read_body L known t media (Some data) st) Batch_cap =
   logged st + dropped st Global_cap + dropped st Foreign + dropped st Batch_cap + length (reports media data)"
proof -
  define rs where "rs = reports media data"
  define st1 where "st1 = (if MAX_REPORTS < length rs then count_drop t Batch_cap (length rs - MAX_REPORTS) st else st)"
  define vs where "vs = map (violation_of L known (the (map_of FORMATS media))) (take MAX_REPORTS rs)"
  define found where "found = map (\<lambda>v. (v, count_list vs v)) (sort (remdups vs))"
  define foreign where "foreign = sum_list (map snd (filter (\<lambda>p. fst (snd (snd (snd (fst p)))) = ''foreign'') found))"
  define st2 where "st2 = (if 0 < foreign then count_drop t Foreign foreign st1 else st1)"
  define st3 where "st3 = fold (log_violation t) found st2"
  have body: "read_body L known t media (Some data) st = flush_drops t False st3"
    unfolding st3_def st2_def foreign_def found_def vs_def st1_def rs_def by (simp add: read_body_def Let_def)
  have st1: "logged st1 = logged st" "dropped st1 Global_cap = dropped st Global_cap"
    "dropped st1 Foreign = dropped st Foreign"
    "dropped st1 Batch_cap = dropped st Batch_cap + (length rs - MAX_REPORTS)"
    by (simp_all add: st1_def count_drop_counts)
  have st2: "logged st2 = logged st1" "dropped st2 Global_cap = dropped st1 Global_cap"
    "dropped st2 Foreign = dropped st1 Foreign + foreign" "dropped st2 Batch_cap = dropped st1 Batch_cap"
    by (simp_all add: st2_def count_drop_counts)
  have found: "sum_list (map snd found) = length vs"
    using counted_all [of vs] by (simp add: found_def comp_def)
  have st3: "logged st3 + dropped st3 Global_cap + foreign = logged st2 + dropped st2 Global_cap + length vs"
    using log_violations_counts [of t found st2] found
      sum_filter_split [of snd "\<lambda>p. fst (snd (snd (snd (fst p)))) = ''foreign''" found]
    by (simp add: st3_def foreign_def)
  have "dropped st3 Foreign = dropped st2 Foreign" "dropped st3 Batch_cap = dropped st2 Batch_cap"
    by (simp_all add: st3_def log_violations_leave)
  then show ?thesis
    unfolding body flush_counts using st1 st2 st3 by (simp add: vs_def rs_def)
qed

section \<open>A flood\<close>

text \<open>Two reports of one page, over a fresh process.\<close>

definition sample_library :: library where
  "sample_library = \<lparr>urlsplit = \<lambda>s. if s = ''https://app/nl/team?secret'' then
       Some \<lparr>u_scheme = ''https'', u_hostname = Some ''app'', u_port = None, u_path = ''/nl/team''\<rparr> else None,
     is_address = \<lambda>_. False\<rparr>"

definition sample_known :: known_origins where
  "sample_known = \<lparr>known_app = Some (''https'', ''app'', 443), known_media = None, known_upload = None\<rparr>"

definition sample_report :: json where
  "sample_report = JObject [(''csp-report'', JObject [(''document-uri'', JString ''https://app/nl/team?secret''),
     (''effective-directive'', JString ''script-src''), (''blocked-uri'', JString ''inline''),
     (''disposition'', JString ''report'')])]"

definition sample_read :: csp where
  "sample_read = read_body sample_library sample_known 5 LEGACY (Some (Some sample_report)) fresh_csp"

lemma sample_line:
  "log_lines sample_read = [(5, Violation_line (''csp-report'', ''script-src'', ''report'',
     ''/[locale]/team'', ''inline'', ''none'') 1)]"
  by code_simp

lemma sample_reached:
  "(csp_step sample_library sample_known)\<^sup>*\<^sup>* (5, fresh_csp, []) (5, sample_read, [])"
proof -
  let ?step = "csp_step sample_library sample_known"
  let ?st = "fresh_csp\<lparr>in_flight := 1\<rparr>"
  have "media_type (Some LEGACY) = LEGACY" by code_simp
  then have "begin_report 5 (Some LEGACY) None fresh_csp = Inr (?st, Some LEGACY)"
    by (simp add: begin_report_def Let_def CSP_IN_FLIGHT_def fresh_csp_def)
  then have "?step (5, fresh_csp, []) (5, ?st, [Limiting LEGACY])" by (rule Begins)
  moreover have "limiter_answered 5 (Inr 1) ?st = (fresh_csp, True)"
    by (simp add: limiter_answered_def fresh_csp_def CSP_LIMIT_def)
  then have "?step (5, ?st, [] @ Limiting LEGACY # []) (5, fresh_csp, [] @ (if True then [Reading LEGACY] else []) @ [])"
    by (rule Limited)
  moreover have "?step (5, fresh_csp, [] @ Reading LEGACY # []) (5, sample_read, [] @ [])"
    unfolding sample_read_def by (rule Reads)
  ultimately show ?thesis by (simp add: converse_rtranclp_into_rtranclp)
qed

theorem csp_lines_hold_only_closed_values_witness: "list_all (line_closed \<circ> snd) (log_lines sample_read)"
  by (rule csp_lines_hold_only_closed_values [OF sample_reached])

theorem csp_flood_is_bounded_witness: "count_in 0 (0 + 60 * 1000000) (map fst (violations sample_read)) \<le> 1200"
  using csp_flood_is_bounded [OF sample_reached, of 0] by blast

end
