(* ===== verification/Identity.thy ===== *)
theory Identity
  imports Texts
begin

text \<open>
  The people of the platform as the database holds them: accounts and their passwords, platform
  admins with their sessions, second factors and audit record (migrations 0036, 0037, 0039, 0069 and
  0083), and the sessions of members and of people (0006 and 0057). \<open>SecondFactor\<close> and \<open>Sessions\<close> hold
  what the code does with them.
\<close>

section \<open>Rows\<close>

text \<open>
  Bytes are a \<open>string\<close>, one \<open>char\<close> each. The addresses and browsers a row keeps for the record are
  left out: nothing reads them. A charge is a uuidv7: when it was made, and its random part.
\<close>

type_synonym bytes = string
type_synonym attempt_id = "instant \<times> nat"

record admin_session =
  a_hash :: bytes
  a_user :: uuid
  a_expires_at :: instant
  a_last_seen_at :: instant
  a_second_factor_at :: "instant option"

record factor =
  ticket_hash :: "bytes option"
  ticket_expires_at :: "instant option"
  secret_ct :: "bytes option"
  proof_hash :: "bytes option"
  confirmed_at :: "instant option"
  last_step :: int
  failed_attempts :: int
  failures_leaked_at :: "instant option"
  failures_since_pass :: int
  recovery_code_hashes :: "bytes list"
  charges :: "attempt_id list"

text \<open>The column defaults of \<open>second_factors\<close>, a row just inserted.\<close>

definition new_factor :: factor where
  "new_factor = \<lparr>ticket_hash = None, ticket_expires_at = None, secret_ct = None, proof_hash = None,
     confirmed_at = None, last_step = 0, failed_attempts = 0, failures_leaked_at = None,
     failures_since_pass = 0, recovery_code_hashes = [], charges = []\<rparr>"

datatype platform_action =
    Admin_granted | Admin_revoked | Setup_completed | Admin_signed_in | Admin_sign_in_failed
  | Admin_signed_out | Business_read | Totp_enrolment_issued | Totp_enrolment_attempted
  | Totp_enrolment_failed | Totp_enrolled | Second_factor_attempted | Second_factor_passed
  | Second_factor_failed | Second_factor_locked | Second_factor_unlocked | Recovery_code_used
  | Erasure_reapplied

datatype platform_kind = Auth | Read | Write

fun KIND :: "platform_action \<Rightarrow> platform_kind" where
  "KIND Admin_granted = Write"
| "KIND Admin_revoked = Write"
| "KIND Totp_enrolment_issued = Write"
| "KIND Erasure_reapplied = Write"
| "KIND Business_read = Read"
| "KIND _ = Auth"

datatype platform_target = Of_user uuid | Of_business string

datatype platform_details = Totp_count int | Totp_locked int | Totp_passed int | With_recovery_code
  | Count int | Codes_left nat | Via_cli

record platform_event =
  v_at :: instant
  v_actor :: "uuid option"
  v_action :: platform_action
  v_tenant :: "uuid option"
  v_target :: "platform_target option"
  v_reason :: "string option"
  v_details :: "platform_details option"

record business_session =
  b_hash :: bytes
  b_tenant :: uuid
  b_user :: uuid
  b_owner :: bool
  b_expires_at :: instant
  b_last_seen_at :: instant

record account_session =
  p_hash :: bytes
  p_user :: uuid
  p_started_at :: instant
  p_expires_at :: instant
  p_last_seen_at :: instant
  p_started_by :: "bytes option"

datatype auth_action = Sign_in_succeeded | Sign_in_failed | Signed_out | Signed_out_everywhere
  | Password_reset_completed | Account_signed_in | Account_signed_out

record auth_event =
  e_tenant :: "uuid option"
  e_actor :: "uuid option"
  e_action :: auth_action
  e_target :: "uuid option"

section \<open>The database\<close>

text \<open>
  \<open>accounts\<close> is \<open>users\<close> by email, \<open>password_of\<close> is \<open>password_credentials\<close>; \<open>seats\<close> are the memberships
  that are not removed, oldest first: tenant, user and whether an owner. \<open>reset_links\<close> are the live
  rows of \<open>email_tokens\<close> for a password reset: token hash, email and expiry. \<open>platform_events\<close> and
  \<open>auth_events\<close> (the rows of \<open>audit_events\<close> that signing in and out writes) have the newest first.
\<close>

record identity =
  accounts :: "string \<Rightarrow> uuid option"
  password_of :: "uuid \<Rightarrow> string option"
  admins :: "uuid list"
  admin_sessions :: "admin_session list"
  factors :: "uuid \<Rightarrow> factor option"
  platform_events :: "platform_event list"
  seats :: "(uuid \<times> uuid \<times> bool) list"
  sessions :: "business_session list"
  account_sessions :: "account_session list"
  reset_links :: "(bytes \<times> string \<times> instant) list"
  auth_events :: "auth_event list"

definition new_identity :: identity where
  "new_identity = \<lparr>accounts = (\<lambda>_. None), password_of = (\<lambda>_. None), admins = [], admin_sessions = [],
     factors = (\<lambda>_. None), platform_events = [], seats = [], sessions = [], account_sessions = [],
     reset_links = [], auth_events = []\<rparr>"

text \<open>\<open>admin.record\<close>: one row of the platform's audit record, in the caller's transaction.\<close>

definition add_event ::
  "instant \<Rightarrow> platform_action \<Rightarrow> uuid option \<Rightarrow> platform_target option \<Rightarrow> platform_details option \<Rightarrow>
   identity \<Rightarrow> identity" where
  "add_event at action actor target det V =
     V\<lparr>platform_events := \<lparr>v_at = at, v_actor = actor, v_action = action, v_tenant = None,
        v_target = target, v_reason = None, v_details = det\<rparr> # platform_events V\<rparr>"

text \<open>The CHECK \<open>reason_on_write\<close>, and the row of a command with its reason.\<close>

definition reason_on_write :: "platform_action \<Rightarrow> string option \<Rightarrow> bool" where
  "reason_on_write action reason \<longleftrightarrow>
     KIND action \<noteq> Write \<or> \<not> list_all isspace (case reason of None \<Rightarrow> [] | Some r \<Rightarrow> r)"

definition add_command ::
  "instant \<Rightarrow> platform_action \<Rightarrow> uuid \<Rightarrow> string \<Rightarrow> identity \<Rightarrow> identity result" where
  "add_command at action user reason V =
     (if \<not> reason_on_write action (Some reason) then Inl (Uncaught ''reason_on_write'')
      else if 500 < length reason then Inl (Uncaught ''platform_audit_events_reason_check'')
      else Inr (V\<lparr>platform_events := \<lparr>v_at = at, v_actor = None, v_action = action, v_tenant = None,
             v_target = Some (Of_user user), v_reason = Some reason, v_details = Some Via_cli\<rparr> #
             platform_events V\<rparr>))"

end
