(* ===== verification/SecondFactor.thy ===== *)
theory SecondFactor
  imports Identity Limits
begin

text \<open>
  The second factor of a platform admin: \<open>backend/app/totp.py\<close>, the routes and guards of
  \<open>backend/app/admin_auth.py\<close>, the commands of \<open>backend/app/admin.py\<close> and the database functions they
  call (migrations 0037, 0039, 0069, 0083, 0084). Every transaction is one definition, so the step
  relation interleaves requests as the database may. Shows how few wrong codes anyone can have
  checked, that a code and a recovery code work once, what lifts a lock, and that only a recorded
  pass opens an admin session.
  The sweep of the audit record (failures after 30 days, the rest after a year) is not one of the
  steps: the counts are of what was recorded, kept or not.
\<close>

section \<open>TOTP\<close>

text \<open>
  SHA-256, HMAC-SHA1 and AES-GCM (\<open>seal\<close> and \<open>unseal\<close>: nonce, text and associated data) are not the
  program's; \<open>key_set\<close> is that \<open>key()\<close> found one.
\<close>

record crypto =
  sha256 :: "bytes \<Rightarrow> bytes"
  hmac_sha1 :: "bytes \<Rightarrow> bytes \<Rightarrow> bytes"
  seal :: "bytes \<Rightarrow> bytes \<Rightarrow> bytes \<Rightarrow> bytes"
  unseal :: "bytes \<Rightarrow> bytes \<Rightarrow> bytes \<Rightarrow> bytes option"
  key_set :: bool

definition STEP :: int where "STEP = 30"
definition VERSION :: bytes where "VERSION = [CHR 0x01]"
definition NONCE :: nat where "NONCE = 12"

text \<open>\<open>struct.pack\<close> and \<open>struct.unpack\<close>, big-endian.\<close>

definition unpack :: "bytes \<Rightarrow> int" where
  "unpack bs = foldl (\<lambda>n c. 256 * n + of_char c) 0 bs"

fun pack :: "nat \<Rightarrow> int \<Rightarrow> bytes" where
  "pack 0 n = []"
| "pack (Suc k) n = pack k (n div 256) @ [char_of (n mod 256)]"

text \<open>\<open>str\<close> of a number and \<open>zfill\<close>.\<close>

fun decimal :: "nat \<Rightarrow> string" where
  "decimal n = (if n < 10 then [char_of (48 + n)] else decimal (n div 10) @ [char_of (48 + n mod 10)])"

declare decimal.simps [simp del]

definition zfill :: "nat \<Rightarrow> string \<Rightarrow> string" where
  "zfill n s = replicate (n - length s) (CHR ''0'') @ s"

definition code_of :: "crypto \<Rightarrow> bytes \<Rightarrow> int \<Rightarrow> string" where
  "code_of C secret step =
     (let digest = hmac_sha1 C secret (pack 8 step);
          offset = of_char (digest ! (length digest - 1)) mod 16;
          number = unpack (take 4 (drop offset digest)) mod 2 ^ 31
      in zfill 6 (decimal (nat (number mod 1000000))))"

definition step_at :: "instant \<Rightarrow> int" where
  "step_at clock = clock div 1000000 div STEP"

text \<open>The first of the three steps whose code was typed.\<close>

definition matching_step :: "crypto \<Rightarrow> bytes \<Rightarrow> string \<Rightarrow> instant \<Rightarrow> int option" where
  "matching_step C secret typed clock =
     (if \<not> isascii typed then None
      else first_row (filter (\<lambda>step. code_of C secret step = typed)
        [step_at clock - 1, step_at clock, step_at clock + 1]))"

definition totp_proof :: "crypto \<Rightarrow> bytes \<Rightarrow> bytes" where
  "totp_proof C v = sha256 C v"

text \<open>\<open>str.upper\<close> on Latin-1; the two letters whose capital is not in it stay as they are.\<close>

definition capitals :: "char \<Rightarrow> string" where
  "capitals c = (let n = (of_char c :: nat) in
     if n = 223 then ''SS''
     else if 97 \<le> n \<and> n \<le> 122 \<or> 224 \<le> n \<and> n \<le> 254 \<and> n \<noteq> 247 then [char_of (n - 32)]
     else [c])"

definition normalise :: "string \<Rightarrow> string" where
  "normalise typed = filter (\<lambda>c. c \<noteq> CHR '' '' \<and> c \<noteq> CHR ''-'') (concat (map capitals typed))"

definition ALPHABET :: string where "ALPHABET = ''ABCDEFGHIJKLMNOPQRSTUVWXYZ234567''"

text \<open>\<open>base64.b32encode\<close> of a whole number of groups of five bytes.\<close>

definition b32encode :: "bytes \<Rightarrow> string" where
  "b32encode raw = map (\<lambda>i. ALPHABET ! nat (unpack raw div 32 ^ (8 * length raw div 5 - 1 - i) mod 32))
     [0..<8 * length raw div 5]"

text \<open>\<open>new_code\<close>, of its ten random bytes.\<close>

definition new_code :: "bytes \<Rightarrow> string" where
  "new_code raw = (let c = b32encode raw in
     join_with (CHR ''-'') (map (\<lambda>i. take 4 (drop i c)) [0, 4, 8, 12]))"

text \<open>\<open>encrypt\<close> with the nonce it drew, and \<open>decrypt\<close>, None where it raises; a user's bytes are 16.\<close>

definition user_bytes :: "uuid \<Rightarrow> bytes" where "user_bytes u = pack 16 (int u)"

definition encrypt :: "crypto \<Rightarrow> bytes \<Rightarrow> bytes \<Rightarrow> uuid \<Rightarrow> bytes" where
  "encrypt C nonce secret u = VERSION @ nonce @ seal C nonce secret (user_bytes u)"

definition decrypt :: "crypto \<Rightarrow> bytes \<Rightarrow> uuid \<Rightarrow> bytes option" where
  "decrypt C blob u =
     (if take 1 blob \<noteq> VERSION then None
      else unseal C (take NONCE (drop 1 blob)) (drop (1 + NONCE) blob) (user_bytes u))"

section \<open>Admin sessions\<close>

definition ADMIN_IDLE :: int where "ADMIN_IDLE = 30 * minute_us"
definition ADMIN_ABSOLUTE :: int where "ADMIN_ABSOLUTE = 8 * hour_us"
definition FRESH :: int where "FRESH = 15 * minute_us"

definition admin_live :: "instant \<Rightarrow> bytes \<Rightarrow> admin_session \<Rightarrow> bool" where
  "admin_live clock h s \<longleftrightarrow> a_hash s = h \<and> clock < a_expires_at s \<and> clock - ADMIN_IDLE < a_last_seen_at s"

definition live_admin_user :: "instant \<Rightarrow> bytes \<Rightarrow> identity \<Rightarrow> uuid option" where
  "live_admin_user clock h V = map_option a_user (first_row (filter (admin_live clock h) (admin_sessions V)))"

text \<open>
  \<open>start_admin_session\<close>: whether one started. The purge skips rows others hold: \<open>kept\<close> is the
  database's choice among the expired.
\<close>

definition start_admin_session ::
  "instant \<Rightarrow> (admin_session \<Rightarrow> bool) \<Rightarrow> uuid option \<Rightarrow> string option \<Rightarrow> bytes \<Rightarrow> identity \<Rightarrow>
   (bool \<times> identity) result" where
  "start_admin_session clock kept user hash id_hash V =
     (case (user, hash) of
        (Some u, Some p) \<Rightarrow>
          if u \<notin> set (admins V) \<or> password_of V u \<noteq> Some p then Inr (False, V)
          else if list_ex (\<lambda>s. a_hash s = id_hash) (admin_sessions V)
          then Inl (Uncaught ''admin_sessions_pkey'')
          else Inr (True, V\<lparr>admin_sessions := filter (\<lambda>s. clock < a_expires_at s \<or> kept s)
            (admin_sessions V @ [\<lparr>a_hash = id_hash, a_user = u, a_expires_at = clock + ADMIN_ABSOLUTE,
               a_last_seen_at = clock, a_second_factor_at = None\<rparr>])\<rparr>)
      | _ \<Rightarrow> Inr (False, V))"

text \<open>\<open>AdminSession\<close>: the user, whether a second factor passed, whether just now, and enrolled.\<close>

record admin_view =
  w_user :: uuid
  factor_passed :: bool
  factor_fresh :: bool
  enrolled :: bool

definition is_enrolled :: "identity \<Rightarrow> uuid \<Rightarrow> bool" where
  "is_enrolled V u \<longleftrightarrow> (case factors V u of None \<Rightarrow> False | Some f \<Rightarrow> confirmed_at f \<noteq> None)"

definition admin_view_of :: "instant \<Rightarrow> identity \<Rightarrow> admin_session \<Rightarrow> admin_view" where
  "admin_view_of clock V s = \<lparr>w_user = a_user s, factor_passed = (a_second_factor_at s \<noteq> None),
     factor_fresh = (case a_second_factor_at s of None \<Rightarrow> False | Some t \<Rightarrow> clock - FRESH < t),
     enrolled = is_enrolled V (a_user s)\<rparr>"

definition resolve_admin_session :: "instant \<Rightarrow> bytes \<Rightarrow> identity \<Rightarrow> admin_view option \<times> identity" where
  "resolve_admin_session clock h V =
     (map_option (admin_view_of clock V) (first_row (filter (admin_live clock h) (admin_sessions V))),
      V\<lparr>admin_sessions := update_where
          (\<lambda>s. admin_live clock h s \<and> a_last_seen_at s < clock - minute_us)
          (\<lambda>s. s\<lparr>a_last_seen_at := clock\<rparr>) (admin_sessions V)\<rparr>)"

definition end_admin_session :: "bytes \<Rightarrow> identity \<Rightarrow> uuid option \<times> identity" where
  "end_admin_session h V =
     (map_option a_user (first_row (filter (\<lambda>s. a_hash s = h) (admin_sessions V))),
      V\<lparr>admin_sessions := filter (\<lambda>s. a_hash s \<noteq> h) (admin_sessions V)\<rparr>)"

text \<open>The guards of the three routers: \<open>admin_session\<close>, \<open>admin_signed_in\<close>, \<open>admin_recently_verified\<close>.\<close>

definition admin_session_guard ::
  "crypto \<Rightarrow> instant \<Rightarrow> string option \<Rightarrow> identity \<Rightarrow> admin_view result \<times> identity" where
  "admin_session_guard C clock cookie V =
     (case cookie of
        None \<Rightarrow> (Inl (ApiError 401 ''unauthenticated''), V)
      | Some token \<Rightarrow>
          if token = [] then (Inl (ApiError 401 ''unauthenticated''), V)
          else (case resolve_admin_session clock (sha256 C token) V of
            (None, V1) \<Rightarrow> (Inl (ApiError 401 ''unauthenticated''), V1)
          | (Some w, V1) \<Rightarrow> (Inr w, V1)))"

definition admin_signed_in :: "admin_view result \<Rightarrow> admin_view result" where
  "admin_signed_in r = (case r of
     Inl e \<Rightarrow> Inl e
   | Inr w \<Rightarrow> if \<not> factor_passed w then Inl (ApiError 403 ''second_factor_required'') else Inr w)"

definition admin_recently_verified :: "admin_view result \<Rightarrow> admin_view result" where
  "admin_recently_verified r = (case admin_signed_in r of
     Inl e \<Rightarrow> Inl e
   | Inr w \<Rightarrow> if \<not> factor_fresh w then Inl (ApiError 403 ''second_factor_stale'') else Inr w)"

section \<open>Counting an attempt before its code is looked at\<close>

definition CHARGE_LIFE :: int where "CHARGE_LIFE = 2 * minute_us"
definition LEAK :: int where "LEAK = 8 * hour_us"
definition LOCK_AT :: int where "LOCK_AT = 10"

datatype charged = Charged | Locked | No_factor

definition put_factor :: "uuid \<Rightarrow> factor \<Rightarrow> identity \<Rightarrow> identity" where
  "put_factor u f V = V\<lparr>factors := (factors V)(u \<mapsto> f)\<rparr>"

definition factor_at :: "instant \<Rightarrow> bytes \<Rightarrow> identity \<Rightarrow> (uuid \<times> factor) option" where
  "factor_at clock h V = (case live_admin_user clock h V of
     None \<Rightarrow> None
   | Some u \<Rightarrow> map_option (\<lambda>f. (u, f)) (factors V u))"

definition confirmed_factor :: "instant \<Rightarrow> bytes \<Rightarrow> identity \<Rightarrow> (uuid \<times> factor) option" where
  "confirmed_factor clock h V = (case factor_at clock h V of
     None \<Rightarrow> None | Some (u, f) \<Rightarrow> if confirmed_at f \<noteq> None then Some (u, f) else None)"

definition pending_factor :: "instant \<Rightarrow> bytes \<Rightarrow> identity \<Rightarrow> (uuid \<times> factor) option" where
  "pending_factor clock h V = (case factor_at clock h V of
     None \<Rightarrow> None
   | Some (u, f) \<Rightarrow>
       if confirmed_at f = None \<and> secret_ct f \<noteq> None \<and>
          (case ticket_expires_at f of None \<Rightarrow> False | Some t \<Rightarrow> clock < t)
       then Some (u, f) else None)"

definition live_charge :: "instant \<Rightarrow> attempt_id \<Rightarrow> bool" where
  "live_charge clock c \<longleftrightarrow> clock - CHARGE_LIFE < fst c"

text \<open>The failures that leaked away since the anchor, and the row a charge writes.\<close>

definition leaked :: "instant \<Rightarrow> factor \<Rightarrow> int" where
  "leaked clock f = (case failures_leaked_at f of
     None \<Rightarrow> 0 | Some anchor \<Rightarrow> max ((clock - anchor) div LEAK) 0)"

definition charge_factor :: "instant \<Rightarrow> attempt_id \<Rightarrow> factor \<Rightarrow> factor" where
  "charge_factor clock c f =
     (let anchor = (case failures_leaked_at f of None \<Rightarrow> clock | Some a \<Rightarrow> a);
          level = failed_attempts f - min (leaked clock f) (failed_attempts f)
      in f\<lparr>failed_attempts := level + 1,
           failures_leaked_at := Some (if level = 0 then clock else anchor + leaked clock f * LEAK),
           failures_since_pass := failures_since_pass f + 1,
           charges := filter (live_charge clock) (charges f) @ [c]\<rparr>)"

definition charge_second_factor ::
  "instant \<Rightarrow> bytes \<Rightarrow> attempt_id \<Rightarrow> identity \<Rightarrow> (charged \<times> int \<times> attempt_id option) \<times> identity" where
  "charge_second_factor clock h c V =
     (case confirmed_factor clock h V of
        None \<Rightarrow> ((No_factor, 0, None), V)
      | Some (u, f) \<Rightarrow>
          if LOCK_AT \<le> failed_attempts f then ((Locked, failed_attempts f, None), V)
          else let f' = charge_factor clock c f
               in ((Charged, failed_attempts f', Some c), put_factor u f' V))"

datatype verdict = Passed | Failed | Void

definition pass_session :: "instant \<Rightarrow> bytes \<Rightarrow> identity \<Rightarrow> identity" where
  "pass_session clock h V = V\<lparr>admin_sessions := update_where (\<lambda>s. a_hash s = h)
     (\<lambda>s. s\<lparr>a_second_factor_at := Some clock\<rparr>) (admin_sessions V)\<rparr>"

definition holds_charge :: "instant \<Rightarrow> attempt_id option \<Rightarrow> factor \<Rightarrow> bool" where
  "holds_charge clock c f = (case c of
     None \<Rightarrow> False | Some c \<Rightarrow> c \<in> set (charges f) \<and> live_charge clock c)"

definition in_step_window :: "instant \<Rightarrow> int \<Rightarrow> bool" where
  "in_step_window clock step \<longleftrightarrow> step_at clock - 1 \<le> step \<and> step \<le> step_at clock + 1"

definition use_charge :: "attempt_id option \<Rightarrow> factor \<Rightarrow> factor" where
  "use_charge c f = f\<lparr>charges := filter (\<lambda>x. Some x \<noteq> c) (charges f)\<rparr>"

definition right_code :: "crypto \<Rightarrow> instant \<Rightarrow> bytes \<Rightarrow> int option \<Rightarrow> factor \<Rightarrow> bool" where
  "right_code C clock p step f = (case step of
     None \<Rightarrow> False
   | Some k \<Rightarrow> proof_hash f = Some (sha256 C p) \<and> last_step f < k \<and> in_step_window clock k)"

definition check_second_factor ::
  "crypto \<Rightarrow> instant \<Rightarrow> bytes \<Rightarrow> attempt_id option \<Rightarrow> bytes \<Rightarrow> int option \<Rightarrow> identity \<Rightarrow>
   (verdict \<times> int) \<times> identity" where
  "check_second_factor C clock h c p step V =
     (case confirmed_factor clock h V of
        None \<Rightarrow> ((Void, 0), V)
      | Some (u, f) \<Rightarrow>
          if \<not> holds_charge clock c f then ((Void, 0), V)
          else if right_code C clock p step f
          then ((Passed, max (failures_since_pass f - 1) 0),
                pass_session clock h (put_factor u ((use_charge c f)\<lparr>last_step := the step,
                  failures_since_pass := 0, failed_attempts := max (failed_attempts f - 1) 0\<rparr>) V))
          else ((Failed, failed_attempts f), put_factor u (use_charge c f) V))"

definition use_recovery_code ::
  "crypto \<Rightarrow> instant \<Rightarrow> bytes \<Rightarrow> bytes \<Rightarrow> identity \<Rightarrow> (nat \<times> bool) option \<times> identity" where
  "use_recovery_code C clock h p V =
     (case confirmed_factor clock h V of
        None \<Rightarrow> (None, V)
      | Some (u, f) \<Rightarrow>
          if sha256 C p \<notin> set (recovery_code_hashes f) then (None, V)
          else let lock = LOCK_AT \<le> failed_attempts f;
                   codes = filter (\<lambda>x. x \<noteq> sha256 C p) (recovery_code_hashes f)
               in (Some (length codes, lock),
                   pass_session clock h (put_factor u (f\<lparr>recovery_code_hashes := codes,
                     failed_attempts := min (failed_attempts f) 9,
                     failures_leaked_at := (if lock then Some clock else failures_leaked_at f),
                     failures_since_pass := 0,
                     charges := (if lock then [] else charges f)\<rparr>) V)))"

section \<open>Enrolment\<close>

datatype begun = Begun | Invalid_ticket | Already_enrolled

definition begin_totp_enrolment ::
  "crypto \<Rightarrow> instant \<Rightarrow> bytes \<Rightarrow> bytes \<Rightarrow> bytes \<Rightarrow> bytes \<Rightarrow> identity \<Rightarrow> begun \<times> identity" where
  "begin_totp_enrolment C clock h ticket ct p V =
     (case factor_at clock h V of
        None \<Rightarrow> (Invalid_ticket, V)
      | Some (u, f) \<Rightarrow>
          if confirmed_at f \<noteq> None then (Already_enrolled, V)
          else if ticket_hash f = Some (sha256 C ticket) \<and>
                  (case ticket_expires_at f of None \<Rightarrow> False | Some t \<Rightarrow> clock < t) \<and>
                  failed_attempts f < LOCK_AT
          then (Begun, put_factor u (f\<lparr>secret_ct := Some ct, proof_hash := Some (sha256 C p),
                  last_step := 0, charges := []\<rparr>) V)
          else (Invalid_ticket, V))"

definition charge_totp_enrolment ::
  "instant \<Rightarrow> bytes \<Rightarrow> attempt_id \<Rightarrow> identity \<Rightarrow> (charged \<times> int \<times> attempt_id option) \<times> identity" where
  "charge_totp_enrolment clock h c V =
     (case pending_factor clock h V of
        None \<Rightarrow> ((No_factor, 0, None), V)
      | Some (u, f) \<Rightarrow>
          if LOCK_AT \<le> failed_attempts f then ((Locked, failed_attempts f, None), V)
          else ((Charged, failed_attempts f + 1, Some c),
                put_factor u (f\<lparr>failed_attempts := failed_attempts f + 1,
                  charges := filter (live_charge clock) (charges f) @ [c]\<rparr>) V))"

definition check_totp_enrolment ::
  "crypto \<Rightarrow> instant \<Rightarrow> bytes \<Rightarrow> attempt_id option \<Rightarrow> bytes \<Rightarrow> int option \<Rightarrow> bytes list \<Rightarrow> identity \<Rightarrow>
   ((verdict \<times> int) \<times> identity) result" where
  "check_totp_enrolment C clock h c p step codes V =
     (if length codes \<noteq> 10 then Inl (Uncaught ''ten recovery codes'')
      else case pending_factor clock h V of
        None \<Rightarrow> Inr ((Void, 0), V)
      | Some (u, f) \<Rightarrow>
          if \<not> holds_charge clock c f then Inr ((Void, 0), V)
          else if proof_hash f = Some (sha256 C p) \<and>
                  (case step of None \<Rightarrow> False | Some k \<Rightarrow> in_step_window clock k)
          then Inr ((Passed, 0), pass_session clock h
            ((put_factor u (f\<lparr>confirmed_at := Some clock, last_step := the step, failed_attempts := 0,
                failures_leaked_at := None, failures_since_pass := 0, charges := [],
                ticket_hash := None, ticket_expires_at := None,
                recovery_code_hashes := map (sha256 C) codes\<rparr>) V)
             \<lparr>admin_sessions := filter (\<lambda>s. a_user s \<noteq> u \<or> a_hash s = h) (admin_sessions V)\<rparr>))
          else Inr ((Failed, failed_attempts f), put_factor u (use_charge c f) V))"

section \<open>The transactions of the routes\<close>

text \<open>
  Each is one \<open>with SessionLocal.begin()\<close>: the function it calls and the audit events it writes. An
  \<open>Inl\<close> of a transaction that returns a \<open>result\<close> rolled it back; where the answer stands beside the
  new state, the error is raised after the commit.
\<close>

definition unauthenticated :: api_error where "unauthenticated = ApiError 401 ''unauthenticated''"
definition factor_locked :: api_error where "factor_locked = ApiError 403 ''second_factor_locked''"
definition no_pending :: api_error where "no_pending = ApiError 409 ''no_pending_enrolment''"

definition secret_of :: "crypto \<Rightarrow> instant \<Rightarrow> bytes \<Rightarrow> uuid \<Rightarrow> identity \<Rightarrow> bytes option result" where
  "secret_of C clock h u V =
     (case factor_at clock h V of
        None \<Rightarrow> Inr None
      | Some (_, f) \<Rightarrow> (case secret_ct f of
          None \<Rightarrow> Inr None
        | Some blob \<Rightarrow> (case decrypt C blob u of
            None \<Rightarrow> Inl (ApiError 503 ''second_factor_unavailable'')
          | Some s \<Rightarrow> Inr (Some s))))"

text \<open>\<open>pass_second_factor\<close>, the charge: the secret, the outcome, the count and the charge.\<close>

definition charge_attempt ::
  "crypto \<Rightarrow> instant \<Rightarrow> bytes \<Rightarrow> uuid \<Rightarrow> attempt_id \<Rightarrow> identity \<Rightarrow>
   ((bytes \<times> charged \<times> int \<times> attempt_id option) \<times> identity) result" where
  "charge_attempt C clock h u c V =
     (case secret_of C clock h u V of
        Inl e \<Rightarrow> Inl e
      | Inr None \<Rightarrow> Inl unauthenticated
      | Inr (Some s) \<Rightarrow>
          (case charge_second_factor clock h c V of ((outcome, failures, held), V1) \<Rightarrow>
             Inr ((s, outcome, failures, held),
               case outcome of
                 Locked \<Rightarrow> add_event clock Second_factor_failed (Some u) None (Some (Totp_locked failures)) V1
               | Charged \<Rightarrow> add_event clock Second_factor_attempted (Some u) None (Some (Totp_count failures)) V1
               | No_factor \<Rightarrow> V1)))"

text \<open>\<open>pass_second_factor\<close>, the check.\<close>

definition resolved :: "instant \<Rightarrow> bytes \<Rightarrow> identity \<Rightarrow> admin_view result \<times> identity" where
  "resolved clock h V = (case resolve_admin_session clock h V of
     (None, V1) \<Rightarrow> (Inl unauthenticated, V1) | (Some w, V1) \<Rightarrow> (Inr w, V1))"

definition check_attempt ::
  "crypto \<Rightarrow> instant \<Rightarrow> bytes \<Rightarrow> uuid \<Rightarrow> int \<Rightarrow> attempt_id option \<Rightarrow> bytes \<Rightarrow> int option \<Rightarrow> identity \<Rightarrow>
   admin_view result \<times> identity" where
  "check_attempt C clock h u failures c s step V =
     (case check_second_factor C clock h c (totp_proof C s) step V of
        ((Passed, reported), V1) \<Rightarrow>
          resolved clock h (add_event clock Second_factor_passed (Some u) None (Some (Totp_passed reported)) V1)
      | ((Failed, reported), V1) \<Rightarrow>
          let V2 = add_event clock Second_factor_failed (Some u) None (Some (Totp_count failures)) V1
          in if 10 \<le> failures \<and> 10 \<le> reported
             then (Inl factor_locked, add_event clock Second_factor_locked (Some u) None (Some (Count failures)) V2)
             else (Inl (ApiError 401 ''invalid_code''), V2)
      | ((Void, _), V1) \<Rightarrow> (Inl unauthenticated, V1))"

text \<open>\<open>pass_second_factor\<close>, a recovery code.\<close>

definition recovery_attempt ::
  "crypto \<Rightarrow> instant \<Rightarrow> bytes \<Rightarrow> uuid \<Rightarrow> string \<Rightarrow> identity \<Rightarrow> admin_view result \<times> identity" where
  "recovery_attempt C clock h u typed V =
     (case use_recovery_code C clock h (totp_proof C typed) V of
        (Some (left, lock), V1) \<Rightarrow>
          let V2 = add_event clock Recovery_code_used (Some u) None (Some (Codes_left left)) V1
          in resolved clock h (if lock then add_event clock Second_factor_unlocked (Some u) None None V2 else V2)
      | (None, V1) \<Rightarrow>
          (Inl (ApiError 401 ''invalid_code''),
           add_event clock Second_factor_failed (Some u) None (Some With_recovery_code) V1))"

text \<open>\<open>begin_enrolment\<close>: \<open>s\<close> is the new secret, \<open>nonce\<close> what its encryption drew.\<close>

definition begin_attempt ::
  "crypto \<Rightarrow> instant \<Rightarrow> bytes \<Rightarrow> uuid \<Rightarrow> string \<Rightarrow> bytes \<Rightarrow> bytes \<Rightarrow> identity \<Rightarrow> bytes result \<times> identity" where
  "begin_attempt C clock h u ticket s nonce V =
     (case begin_totp_enrolment C clock h (totp_proof C (normalise ticket)) (encrypt C nonce s u) (totp_proof C s) V of
        (Begun, V1) \<Rightarrow> (Inr s, V1)
      | (Already_enrolled, V1) \<Rightarrow> (Inl (ApiError 409 ''already_enrolled''), V1)
      | (Invalid_ticket, V1) \<Rightarrow>
          (Inl (ApiError 401 ''invalid_ticket''), add_event clock Totp_enrolment_failed (Some u) None None V1))"

text \<open>\<open>confirm_enrolment\<close>, the charge and the check.\<close>

definition charge_confirm ::
  "crypto \<Rightarrow> instant \<Rightarrow> bytes \<Rightarrow> uuid \<Rightarrow> attempt_id \<Rightarrow> identity \<Rightarrow>
   ((bytes \<times> charged \<times> int \<times> attempt_id option) \<times> identity) result" where
  "charge_confirm C clock h u c V =
     (case secret_of C clock h u V of
        Inl e \<Rightarrow> Inl e
      | Inr None \<Rightarrow> Inl no_pending
      | Inr (Some s) \<Rightarrow>
          (case charge_totp_enrolment clock h c V of ((outcome, failures, held), V1) \<Rightarrow>
             Inr ((s, outcome, failures, held),
               if outcome = Charged
               then add_event clock Totp_enrolment_attempted (Some u) None (Some (Count failures)) V1 else V1)))"

definition check_confirm ::
  "crypto \<Rightarrow> instant \<Rightarrow> bytes \<Rightarrow> uuid \<Rightarrow> int \<Rightarrow> attempt_id option \<Rightarrow> bytes \<Rightarrow> int option \<Rightarrow> string list \<Rightarrow> identity \<Rightarrow>
   (string list result \<times> identity) result" where
  "check_confirm C clock h u failures c s step codes V =
     (case check_totp_enrolment C clock h c (totp_proof C s) step (map (\<lambda>k. totp_proof C (normalise k)) codes) V of
        Inl e \<Rightarrow> Inl e
      | Inr ((Passed, _), V1) \<Rightarrow> Inr (Inr codes, add_event clock Totp_enrolled (Some u) None None V1)
      | Inr ((Failed, _), V1) \<Rightarrow>
          Inr (Inl (if 10 \<le> failures then factor_locked else ApiError 401 ''invalid_code''),
               add_event clock Totp_enrolment_failed (Some u) None (Some (Count failures)) V1)
      | Inr ((Void, _), V1) \<Rightarrow> Inr (Inl no_pending, V1))"

text \<open>\<open>sign_in\<close>, the session and its event, and the answer; \<open>old\<close> is the cookie the browser sent.\<close>

definition admin_start ::
  "crypto \<Rightarrow> instant \<Rightarrow> (admin_session \<Rightarrow> bool) \<Rightarrow> uuid option \<Rightarrow> string option \<Rightarrow> bytes \<Rightarrow> string option \<Rightarrow>
   identity \<Rightarrow> (admin_view option \<times> identity) result" where
  "admin_start C clock kept user hash id_hash old V =
     (case start_admin_session clock kept user hash id_hash V of
        Inl e \<Rightarrow> Inl e
      | Inr (False, V1) \<Rightarrow>
          Inr (None, add_event clock Admin_sign_in_failed None (map_option Of_user user) None V1)
      | Inr (True, V1) \<Rightarrow>
          let V2 = (case old of
                      None \<Rightarrow> V1
                    | Some k \<Rightarrow> if k = [] then V1 else snd (end_admin_session (sha256 C k) V1));
              V3 = add_event clock Admin_signed_in user None None V2
          in (case resolve_admin_session clock id_hash V3 of
                (None, _) \<Rightarrow> Inl (Uncaught ''NoResultFound'')
              | (Some w, W4) \<Rightarrow> Inr (Some w, W4)))"

definition admin_sign_out :: "instant \<Rightarrow> bytes \<Rightarrow> identity \<Rightarrow> identity" where
  "admin_sign_out clock h V =
     (case end_admin_session h V of
        (None, V1) \<Rightarrow> V1
      | (Some u, V1) \<Rightarrow> add_event clock Admin_signed_out (Some u) None None V1)"

text \<open>\<open>business\<close>: the read of one business, recorded before it runs.\<close>

definition business ::
  "instant \<Rightarrow> uuid list \<Rightarrow> uuid \<Rightarrow> uuid \<Rightarrow> string \<Rightarrow> identity \<Rightarrow> identity result" where
  "business clock tenants u t target V =
     (if t \<notin> set tenants then Inl (ApiError 404 ''not_found'')
      else Inr (V\<lparr>platform_events := \<lparr>v_at = clock, v_actor = Some u, v_action = Business_read,
             v_tenant = Some t, v_target = Some (Of_business target), v_reason = None,
             v_details = None\<rparr> # platform_events V\<rparr>))"

section \<open>The commands\<close>

text \<open>\<open>ISSUE_TICKET\<close> and \<open>_enrol\<close>; with no terminal the transaction rolls back and the command exits 2.\<close>

definition ISSUE_TICKET :: "crypto \<Rightarrow> instant \<Rightarrow> uuid \<Rightarrow> bytes \<Rightarrow> identity \<Rightarrow> identity" where
  "ISSUE_TICKET C clock u p V =
     put_factor u ((case factors V u of None \<Rightarrow> new_factor | Some f \<Rightarrow> f)
       \<lparr>ticket_hash := Some (sha256 C p), ticket_expires_at := Some (clock + hour_us), secret_ct := None,
        proof_hash := None, confirmed_at := None, last_step := 0, failed_attempts := 0,
        recovery_code_hashes := [], charges := []\<rparr>) V"

definition cli_reason :: "string \<Rightarrow> bool" where
  "cli_reason reason \<longleftrightarrow> strip reason \<noteq> [] \<and> length reason \<le> 500"

definition enrol ::
  "crypto \<Rightarrow> instant \<Rightarrow> bool \<Rightarrow> string \<Rightarrow> string \<Rightarrow> string \<Rightarrow> identity \<Rightarrow> (nat \<times> identity) result" where
  "enrol C clock terminal email reason ticket V =
     (if \<not> cli_reason reason then Inr (2, V)
      else case accounts V email of
        None \<Rightarrow> Inr (1, V)
      | Some u \<Rightarrow>
          if u \<notin> set (admins V) then Inr (1, V)
          else let V1 = ISSUE_TICKET C clock u (totp_proof C (normalise ticket)) V;
                   V2 = V1\<lparr>admin_sessions := filter (\<lambda>s. a_user s \<noteq> u) (admin_sessions V1)\<rparr>
               in (case add_command clock Totp_enrolment_issued u reason V2 of
                     Inl e \<Rightarrow> Inl e
                   | Inr V3 \<Rightarrow> if \<not> terminal then Inr (2, V) else Inr (0, V3)))"

definition grant_admin :: "instant \<Rightarrow> string \<Rightarrow> string \<Rightarrow> identity \<Rightarrow> (nat \<times> identity) result" where
  "grant_admin clock email reason V =
     (if \<not> cli_reason reason then Inr (2, V)
      else case accounts V email of
        None \<Rightarrow> Inr (1, V)
      | Some u \<Rightarrow>
          let V1 = V\<lparr>account_sessions := filter (\<lambda>s. p_user s \<noteq> u) (account_sessions V)\<rparr>
          in if u \<in> set (admins V) then Inr (0, V1)
             else map_sum id (Pair 0)
               (add_command clock Admin_granted u reason (V1\<lparr>admins := admins V @ [u]\<rparr>)))"

text \<open>Revoking takes the admin's sessions with it (ON DELETE CASCADE).\<close>

definition revoke_admin :: "instant \<Rightarrow> string \<Rightarrow> string \<Rightarrow> identity \<Rightarrow> (nat \<times> identity) result" where
  "revoke_admin clock email reason V =
     (if \<not> cli_reason reason then Inr (2, V)
      else case accounts V email of
        None \<Rightarrow> Inr (1, V)
      | Some u \<Rightarrow>
          if u \<notin> set (admins V) then Inr (0, V)
          else map_sum id (Pair 0) (add_command clock Admin_revoked u reason
            (V\<lparr>admins := removeAll u (admins V),
               admin_sessions := filter (\<lambda>s. a_user s \<noteq> u) (admin_sessions V)\<rparr>)))"

section \<open>The routes\<close>

type_synonym 'a admin_route = "'a result \<times> identity \<times> (string \<times> bucket) table"

definition CODE_WINDOW :: int where "CODE_WINDOW = 15 * minute_us"

definition TOTP_CODE :: "string \<Rightarrow> bool" where
  "TOTP_CODE s \<longleftrightarrow> length s = 6 \<and> list_all (\<lambda>c. 48 \<le> (of_char c :: nat) \<and> (of_char c :: nat) \<le> 57) s"

definition limited_by ::
  "instant \<Rightarrow> (string \<times> bucket \<Rightarrow> bool) \<Rightarrow> string \<Rightarrow> ip option \<Rightarrow> int \<Rightarrow> (string \<times> bucket) table \<Rightarrow>
   api_error option \<times> (string \<times> bucket) table" where
  "limited_by clock purged action host limit t =
     (case hit clock purged [(ip_key action host, limit)] CODE_WINDOW t of
        Inl e \<Rightarrow> (Some e, t)
      | Inr (t', over) \<Rightarrow> (if over then Some (ApiError 429 ''rate_limited'') else None, t'))"

definition key_needed :: "crypto \<Rightarrow> api_error option" where
  "key_needed C = (if key_set C then None else Some (ApiError 503 ''second_factor_unavailable''))"

text \<open>
  A request: the cookie's hash, the session the guard resolved, the address, the moments of the
  limit, the charge, the reading of the clock and the check, and the charge the database makes.
\<close>

record admin_request =
  q_hash :: bytes
  q_session :: admin_view
  q_address :: "ip option"
  q_purged :: "string \<times> bucket \<Rightarrow> bool"
  q_limit_at :: instant
  q_charge_at :: instant
  q_read_at :: instant
  q_check_at :: instant
  q_charge :: attempt_id

definition pass_second_factor ::
  "crypto \<Rightarrow> admin_request \<Rightarrow> string \<Rightarrow> identity \<Rightarrow> (string \<times> bucket) table \<Rightarrow> admin_view admin_route" where
  "pass_second_factor C q body V t =
     (let typed = normalise body; u = w_user (q_session q) in
      if \<not> enrolled (q_session q) then (Inl (ApiError 409 ''enrolment_required''), V, t)
      else if TOTP_CODE typed
      then (case limited_by (q_limit_at q) (q_purged q) ''admin_2fa'' (q_address q) 20 t of
              (Some e, t1) \<Rightarrow> (Inl e, V, t1)
            | (None, t1) \<Rightarrow> (case key_needed C of
                Some e \<Rightarrow> (Inl e, V, t1)
              | None \<Rightarrow> (case charge_attempt C (q_charge_at q) (q_hash q) u (q_charge q) V of
                  Inl e \<Rightarrow> (Inl e, V, t1)
                | Inr ((s, Locked, _), V1) \<Rightarrow> (Inl factor_locked, V1, t1)
                | Inr ((s, No_factor, _), V1) \<Rightarrow> (Inl unauthenticated, V1, t1)
                | Inr ((s, Charged, failures, c), V1) \<Rightarrow>
                    (case check_attempt C (q_check_at q) (q_hash q) u failures c s
                            (matching_step C s typed (q_read_at q)) V1 of
                       (r, V2) \<Rightarrow> (r, V2, t1)))))
      else (case limited_by (q_limit_at q) (q_purged q) ''admin_recovery'' (q_address q) 10 t of
              (Some e, t1) \<Rightarrow> (Inl e, V, t1)
            | (None, t1) \<Rightarrow>
                (case recovery_attempt C (q_check_at q) (q_hash q) u typed V of (r, V1) \<Rightarrow> (r, V1, t1))))"

definition begin_enrolment ::
  "crypto \<Rightarrow> admin_request \<Rightarrow> string \<Rightarrow> bytes \<Rightarrow> bytes \<Rightarrow> identity \<Rightarrow> (string \<times> bucket) table \<Rightarrow>
   bytes admin_route" where
  "begin_enrolment C q ticket s nonce V t =
     (case limited_by (q_limit_at q) (q_purged q) ''admin_enrol'' (q_address q) 10 t of
        (Some e, t1) \<Rightarrow> (Inl e, V, t1)
      | (None, t1) \<Rightarrow> (case key_needed C of
          Some e \<Rightarrow> (Inl e, V, t1)
        | None \<Rightarrow> (case begin_attempt C (q_check_at q) (q_hash q) (w_user (q_session q)) ticket s nonce V of
            (r, V1) \<Rightarrow> (r, V1, t1))))"

definition confirm_enrolment ::
  "crypto \<Rightarrow> admin_request \<Rightarrow> string \<Rightarrow> string list \<Rightarrow> identity \<Rightarrow> (string \<times> bucket) table \<Rightarrow>
   string list admin_route" where
  "confirm_enrolment C q body codes V t =
     (let u = w_user (q_session q) in
      case limited_by (q_limit_at q) (q_purged q) ''admin_2fa'' (q_address q) 20 t of
        (Some e, t1) \<Rightarrow> (Inl e, V, t1)
      | (None, t1) \<Rightarrow> (case key_needed C of
          Some e \<Rightarrow> (Inl e, V, t1)
        | None \<Rightarrow> (case charge_confirm C (q_charge_at q) (q_hash q) u (q_charge q) V of
            Inl e \<Rightarrow> (Inl e, V, t1)
          | Inr ((s, Locked, _), V1) \<Rightarrow> (Inl factor_locked, V1, t1)
          | Inr ((s, No_factor, _), V1) \<Rightarrow> (Inl no_pending, V1, t1)
          | Inr ((s, Charged, failures, c), V1) \<Rightarrow>
              (case check_confirm C (q_check_at q) (q_hash q) u failures c s
                      (matching_step C s (normalise body) (q_read_at q)) codes V1 of
                 Inl e \<Rightarrow> (Inl e, V1, t1)
               | Inr (r, V2) \<Rightarrow> (r, V2, t1)))))"

section \<open>Any order of transactions\<close>

text \<open>
  A cookie's hash names one person: \<open>speaks_for\<close>. A check may come with any charge, secret and step,
  and at any moment. \<open>admin_side\<close> is what no other part of the program writes, apart from giving a
  first admin (setup).
\<close>

definition speaks_for :: "bytes \<Rightarrow> uuid \<Rightarrow> identity \<Rightarrow> bool" where
  "speaks_for h u V \<longleftrightarrow> list_all (\<lambda>s. a_hash s = h \<longrightarrow> a_user s = u) (admin_sessions V)"

definition fewer_sessions :: "identity \<Rightarrow> identity \<Rightarrow> bool" where
  "fewer_sessions V W \<longleftrightarrow> factors W = factors V \<and> platform_events W = platform_events V \<and>
     set (admins V) \<subseteq> set (admins W) \<and> set (admin_sessions W) \<subseteq> set (admin_sessions V)"

inductive admin_step :: "crypto \<Rightarrow> identity \<Rightarrow> identity \<Rightarrow> bool" for C where
  charges: "speaks_for h u V \<Longrightarrow> charge_attempt C clock h u c V = Inr (r, W) \<Longrightarrow> admin_step C V W"
| checks: "speaks_for h u V \<Longrightarrow> check_attempt C clock h u n c s step V = (r, W) \<Longrightarrow> admin_step C V W"
| recovers: "speaks_for h u V \<Longrightarrow> recovery_attempt C clock h u typed V = (r, W) \<Longrightarrow> admin_step C V W"
| begins: "speaks_for h u V \<Longrightarrow> begin_attempt C clock h u ticket s nonce V = (r, W) \<Longrightarrow> admin_step C V W"
| charges_confirm: "speaks_for h u V \<Longrightarrow> charge_confirm C clock h u c V = Inr (r, W) \<Longrightarrow> admin_step C V W"
| checks_confirm: "speaks_for h u V \<Longrightarrow> check_confirm C clock h u n c s step codes V = Inr (r, W) \<Longrightarrow>
    admin_step C V W"
| starts: "admin_start C clock kept user hash id_hash old V = Inr (r, W) \<Longrightarrow> admin_step C V W"
| signs_out: "admin_step C V (admin_sign_out clock h V)"
| resolves: "admin_step C V (snd (resolve_admin_session clock h V))"
| reads: "business clock tenants u t target V = Inr W \<Longrightarrow> admin_step C V W"
| enrols: "enrol C clock terminal email reason ticket V = Inr (r, W) \<Longrightarrow> admin_step C V W"
| grants: "grant_admin clock email reason V = Inr (r, W) \<Longrightarrow> admin_step C V W"
| revokes: "revoke_admin clock email reason V = Inr (r, W) \<Longrightarrow> admin_step C V W"
| elsewhere: "fewer_sessions V W \<Longrightarrow> admin_step C V W"

inductive admin_steps :: "crypto \<Rightarrow> identity \<Rightarrow> identity \<Rightarrow> bool" for C where
  none: "admin_steps C V V"
| more: "admin_steps C V W \<Longrightarrow> admin_step C W X \<Longrightarrow> admin_steps C V X"

section \<open>What the audit record says\<close>

definition acted :: "platform_action \<Rightarrow> uuid \<Rightarrow> platform_event \<Rightarrow> bool" where
  "acted a u r \<longleftrightarrow> v_action r = a \<and> v_actor r = Some u"

definition issued_to :: "uuid \<Rightarrow> platform_event \<Rightarrow> bool" where
  "issued_to u r \<longleftrightarrow> v_action r = Totp_enrolment_issued \<and> v_target r = Some (Of_user u)"

text \<open>A code that was looked at and found wrong.\<close>

definition wrong_code :: "uuid \<Rightarrow> platform_event \<Rightarrow> bool" where
  "wrong_code u r \<longleftrightarrow> acted Second_factor_failed u r \<and>
     (case v_details r of Some (Totp_count _) \<Rightarrow> True | _ \<Rightarrow> False)"

definition tally :: "(platform_event \<Rightarrow> bool) \<Rightarrow> platform_event list \<Rightarrow> int" where
  "tally p es = int (length (filter p es))"

text \<open>What a person did since they enrolled, and since their last ticket, the newest first.\<close>

definition since_enrolled :: "uuid \<Rightarrow> platform_event list \<Rightarrow> platform_event list" where
  "since_enrolled u es = filter (\<lambda>r. v_actor r = Some u) (takeWhile (\<lambda>r. \<not> acted Totp_enrolled u r) es)"

definition since_issued :: "uuid \<Rightarrow> platform_event list \<Rightarrow> platform_event list" where
  "since_issued u es = takeWhile (\<lambda>r. \<not> issued_to u r) es"

definition in_order :: "platform_event list \<Rightarrow> bool" where
  "in_order es \<longleftrightarrow> sorted_wrt (\<lambda>a b. v_at b \<le> v_at a) es"

definition span :: "platform_event list \<Rightarrow> int" where
  "span es = (if es = [] then 0 else v_at (hd es) - v_at (es ! (length es - 1)))"

lemma tally_Nil [simp]: "tally p [] = 0"
  by (simp add: tally_def)

lemma tally_Cons [simp]: "tally p (r # es) = (if p r then 1 else 0) + tally p es"
  by (simp add: tally_def)

lemma tally_nonneg [simp]: "0 \<le> tally p es"
  by (simp add: tally_def)

lemma events_in_order_Cons [simp]: "in_order (r # es) \<longleftrightarrow> list_all (\<lambda>x. v_at x \<le> v_at r) es \<and> in_order es"
  by (simp add: in_order_def list_all_iff)

lemma since_enrolled_Cons [simp]:
  "since_enrolled u (r # es) =
     (if acted Totp_enrolled u r then []
      else if v_actor r = Some u then r # since_enrolled u es else since_enrolled u es)"
  by (simp add: since_enrolled_def)

lemma since_issued_Cons [simp]:
  "since_issued u (r # es) = (if issued_to u r then [] else r # since_issued u es)"
  by (simp add: since_issued_def)

section \<open>The accounts balance\<close>

text \<open>
  Of a confirmed factor: the recovery codes used and left are ten at most; the codes looked at and the
  attempts in flight were each counted; and what was counted and not given back is in the count, or
  was lifted by a recovery code, or leaked away, one for every eight hours since the first event.
\<close>

definition leak_paid :: "factor \<Rightarrow> uuid \<Rightarrow> platform_event list \<Rightarrow> int \<Rightarrow> bool" where
  "leak_paid f u es gone \<longleftrightarrow> 0 \<le> gone \<and>
     tally (acted Second_factor_attempted u) es - tally (acted Second_factor_passed u) es
       \<le> failed_attempts f + gone + tally (acted Second_factor_unlocked u) es \<and>
     (case failures_leaked_at f of
        None \<Rightarrow> gone = 0
      | Some a \<Rightarrow> es \<noteq> [] \<and> gone * LEAK \<le> a - v_at (es ! (length es - 1)) \<and> a \<le> v_at (hd es))"

definition balanced :: "factor \<Rightarrow> uuid \<Rightarrow> platform_event list \<Rightarrow> bool" where
  "balanced f u es \<longleftrightarrow>
     tally (acted Recovery_code_used u) es + int (length (recovery_code_hashes f)) \<le> 10 \<and>
     tally (acted Second_factor_unlocked u) es \<le> tally (acted Recovery_code_used u) es \<and>
     tally (wrong_code u) es + tally (acted Second_factor_passed u) es + int (length (charges f))
       \<le> tally (acted Second_factor_attempted u) es \<and>
     (in_order es \<longrightarrow> (\<exists>gone. leak_paid f u es gone))"

definition tries :: "uuid \<Rightarrow> platform_event list \<Rightarrow> int" where
  "tries u E = tally (acted Totp_enrolment_attempted u) (since_issued u E)"

definition accounted :: "(uuid \<Rightarrow> factor option) \<times> platform_event list \<Rightarrow> uuid \<Rightarrow> bool" where
  "accounted L u \<longleftrightarrow> (case L of (F, E) \<Rightarrow> (case F u of
     None \<Rightarrow> tries u E = 0
   | Some f \<Rightarrow> 0 \<le> failed_attempts f \<and> failed_attempts f \<le> 10 \<and> tries u E \<le> 10 \<and>
       (if confirmed_at f = None then tries u E \<le> failed_attempts f
        else balanced f u (since_enrolled u E))))"

lemma accounted_None: "F u = None \<Longrightarrow> accounted (F, E) u \<longleftrightarrow> tries u E = 0"
  by (simp add: accounted_def)

lemma accounted_Some:
  "F u = Some f \<Longrightarrow> accounted (F, E) u \<longleftrightarrow>
     0 \<le> failed_attempts f \<and> failed_attempts f \<le> 10 \<and> tries u E \<le> 10 \<and>
     (if confirmed_at f = None then tries u E \<le> failed_attempts f
      else balanced f u (since_enrolled u E))"
  by (simp add: accounted_def)

text \<open>An event that counts nothing for \<open>u\<close>.\<close>

definition idle_for :: "uuid \<Rightarrow> platform_event \<Rightarrow> bool" where
  "idle_for u r \<longleftrightarrow> \<not> issued_to u r \<and> (v_actor r = Some u \<longrightarrow> v_action r \<notin>
     {Totp_enrolled, Totp_enrolment_attempted, Second_factor_attempted, Second_factor_passed,
      Recovery_code_used, Second_factor_unlocked} \<and> \<not> wrong_code u r)"

lemma idle_acted:
  "idle_for u r \<Longrightarrow> \<not> acted Totp_enrolled u r \<and> \<not> acted Totp_enrolment_attempted u r \<and>
     \<not> acted Second_factor_attempted u r \<and> \<not> acted Second_factor_passed u r \<and>
     \<not> acted Recovery_code_used u r \<and> \<not> acted Second_factor_unlocked u r \<and> \<not> wrong_code u r \<and> \<not> issued_to u r"
  by (auto simp: idle_for_def acted_def wrong_code_def)

lemma last_Cons_nth: "es \<noteq> [] \<Longrightarrow> (r # es) ! (length (r # es) - 1) = es ! (length es - 1)"
  by (cases es) auto

lemma leak_paid_more:
  assumes "leak_paid f u es gone" "in_order (r # es)"
    and "tally (acted Second_factor_attempted u) (r # es) - tally (acted Second_factor_passed u) (r # es)
       \<le> failed_attempts g + gone + tally (acted Second_factor_unlocked u) (r # es)"
    and "failures_leaked_at g = failures_leaked_at f"
  shows "leak_paid g u (r # es) gone"
proof (cases "failures_leaked_at f")
  case None
  then show ?thesis using assms by (simp add: leak_paid_def)
next
  case (Some a)
  then have ne: "es \<noteq> []" and g: "gone * LEAK \<le> a - v_at (es ! (length es - 1))" and le: "a \<le> v_at (hd es)"
    using assms(1) by (auto simp: leak_paid_def)
  have "v_at (hd es) \<le> v_at r"
    using assms(2) ne by (cases es) auto
  then show ?thesis
    using Some assms ne g le last_Cons_nth [OF ne, of r] by (simp add: leak_paid_def)
qed

lemma balanced_idle:
  assumes "balanced f u es" "idle_for u r"
  shows "balanced f u (r # es)"
proof -
  have "\<exists>gone. leak_paid f u (r # es) gone" if o: "in_order (r # es)"
  proof -
    have "in_order es" using o by simp
    then obtain gone where g: "leak_paid f u es gone"
      using assms(1) unfolding balanced_def by blast
    have "leak_paid f u (r # es) gone"
      by (rule leak_paid_more [OF g o]) (use g idle_acted [OF assms(2)] in \<open>simp_all add: leak_paid_def\<close>)
    then show ?thesis by blast
  qed
  then show ?thesis
    using assms(1) idle_acted [OF assms(2)] by (simp add: balanced_def)
qed

lemma leaked_nonneg: "0 \<le> leaked clock f"
  by (simp add: leaked_def split: option.splits)

lemma leak_pos: "0 < LEAK"
  by (simp add: LEAK_def)

lemma leaked_paid:
  assumes "failures_leaked_at f = Some a" "a \<le> clock"
  shows "leaked clock f * LEAK \<le> clock - a"
proof -
  have "leaked clock f = (clock - a) div LEAK"
    using assms pos_imp_zdiv_nonneg_iff [OF leak_pos, of "clock - a"] by (simp add: leaked_def)
  then show ?thesis
    using leak_pos by (simp add: pos_mod_sign minus_mod_eq_div_mult [symmetric])
qed

text \<open>A charge: what leaks away was waited for.\<close>

lemma leak_paid_charge:
  assumes g: "leak_paid f u es gone" and o: "in_order (r # es)"
    and r: "acted Second_factor_attempted u r" "v_at r = clock" and f: "0 \<le> failed_attempts f"
  shows "\<exists>gone. leak_paid (charge_factor clock c f) u (r # es) gone"
proof -
  let ?m = "min (leaked clock f) (failed_attempts f)"
  let ?level = "failed_attempts f - ?m"
  let ?a' = "if ?level = 0 then clock
     else (case failures_leaked_at f of None \<Rightarrow> clock | Some a \<Rightarrow> a) + leaked clock f * LEAK"
  have m: "0 \<le> ?m" using leaked_nonneg f by simp
  have not: "\<not> acted Second_factor_passed u r" "\<not> acted Second_factor_unlocked u r"
    using r(1) by (auto simp: acted_def)
  have fields: "failed_attempts (charge_factor clock c f) = ?level + 1"
    "failures_leaked_at (charge_factor clock c f) = Some ?a'"
    by (simp_all add: charge_factor_def Let_def)
  have bound: "(gone + ?m) * LEAK \<le> ?a' - v_at ((r # es) ! (length (r # es) - 1)) \<and> ?a' \<le> clock"
  proof (cases "failures_leaked_at f")
    case None
    then have z: "gone = 0" "leaked clock f = 0"
      using g by (auto simp: leak_paid_def leaked_def)
    then have "?a' = clock" "?m = 0" using None f by auto
    moreover have "v_at ((r # es) ! (length (r # es) - 1)) \<le> clock"
      using o r(2) by (cases "es = []") (auto simp: nth_Cons list_all_iff split: nat.splits)
    ultimately show ?thesis using z by simp
  next
    case (Some a)
    then have ne: "es \<noteq> []" and p: "gone * LEAK \<le> a - v_at (es ! (length es - 1))" and le: "a \<le> v_at (hd es)"
      using g by (auto simp: leak_paid_def)
    have ac: "a \<le> clock"
      using le o r(2) ne by (cases es) auto
    have lk: "leaked clock f * LEAK \<le> clock - a"
      by (rule leaked_paid [OF Some ac])
    have ml: "?m * LEAK \<le> leaked clock f * LEAK"
      using leak_pos by (simp add: mult_right_mono)
    have "(gone + ?m) * LEAK \<le> ?a' - v_at (es ! (length es - 1)) \<and> ?a' \<le> clock"
    proof (cases "?level = 0")
      case True
      then have "?a' = clock" by simp
      then show ?thesis using p lk ml by (simp only: distrib_right) linarith
    next
      case False
      then have "?a' = a + leaked clock f * LEAK" using Some by (auto simp: min_def)
      then show ?thesis using p lk ml by (simp only: distrib_right) linarith
    qed
    then show ?thesis by (simp only: last_Cons_nth [OF ne])
  qed
  have "leak_paid (charge_factor clock c f) u (r # es) (gone + ?m)"
    unfolding leak_paid_def fields using g m bound not r by (auto simp: leak_paid_def)
  then show ?thesis by blast
qed

lemma length_filter_live: "length (filter p xs) \<le> length xs"
  by (rule length_filter_le)

lemma balanced_charge:
  assumes "balanced f u es" "acted Second_factor_attempted u r" "v_at r = clock" "0 \<le> failed_attempts f"
  shows "balanced (charge_factor clock c f) u (r # es)"
proof -
  have not: "\<not> acted Second_factor_passed u r" "\<not> acted Second_factor_unlocked u r"
    "\<not> acted Recovery_code_used u r" "\<not> wrong_code u r"
    using assms(2) by (auto simp: acted_def wrong_code_def)
  have codes: "recovery_code_hashes (charge_factor clock c f) = recovery_code_hashes f"
    and ch: "int (length (charges (charge_factor clock c f))) \<le> int (length (charges f)) + 1"
    using length_filter_live [of "live_charge clock" "charges f"]
    by (simp_all add: charge_factor_def Let_def)
  have "\<exists>gone. leak_paid (charge_factor clock c f) u (r # es) gone" if o: "in_order (r # es)"
  proof -
    have "in_order es" using o by simp
    then obtain gone where g: "leak_paid f u es gone"
      using assms(1) unfolding balanced_def by blast
    show ?thesis
      by (rule leak_paid_charge [OF g o assms(2,3,4)])
  qed
  then show ?thesis
    using assms(1,2) not codes ch by (simp add: balanced_def)
qed

lemma charge_factor_range:
  assumes "0 \<le> failed_attempts f" "failed_attempts f < 10"
  shows "0 \<le> failed_attempts (charge_factor clock c f) \<and> failed_attempts (charge_factor clock c f) \<le> 10"
  using assms leaked_nonneg [of clock f] by (simp add: charge_factor_def Let_def)

text \<open>A check uses its charge up; a pass gives back what the charge counted.\<close>

lemma use_charge_fewer:
  assumes "holds_charge clock c f"
  shows "int (length (charges (use_charge c f))) + 1 \<le> int (length (charges f))"
proof -
  obtain x where x: "c = Some x" "x \<in> set (charges f)"
    using assms by (auto simp: holds_charge_def split: option.splits)
  have "length (filter (\<lambda>y. Some y \<noteq> c) (charges f)) < length (charges f)"
    using x by (intro length_filter_less [of x]) auto
  then show ?thesis by (simp add: use_charge_def)
qed

lemma balanced_failed:
  assumes "balanced f u es" "holds_charge clock c f" "wrong_code u r"
  shows "balanced (use_charge c f) u (r # es)"
proof -
  have not: "\<not> acted Second_factor_passed u r" "\<not> acted Second_factor_unlocked u r"
    "\<not> acted Recovery_code_used u r" "\<not> acted Second_factor_attempted u r"
    using assms(3) by (auto simp: acted_def wrong_code_def)
  have same: "recovery_code_hashes (use_charge c f) = recovery_code_hashes f"
    "failed_attempts (use_charge c f) = failed_attempts f"
    "failures_leaked_at (use_charge c f) = failures_leaked_at f"
    by (simp_all add: use_charge_def)
  have "\<exists>gone. leak_paid (use_charge c f) u (r # es) gone" if o: "in_order (r # es)"
  proof -
    have "in_order es" using o by simp
    then obtain gone where g: "leak_paid f u es gone"
      using assms(1) unfolding balanced_def by blast
    have "leak_paid (use_charge c f) u (r # es) gone"
      by (rule leak_paid_more [OF g o]) (use g not same in \<open>simp_all add: leak_paid_def\<close>)
    then show ?thesis by blast
  qed
  then show ?thesis
    using assms(1,3) not same use_charge_fewer [OF assms(2)] by (simp add: balanced_def)
qed

lemma balanced_passed:
  assumes "balanced f u es" "holds_charge clock c f" "acted Second_factor_passed u r"
    and f': "f' = (use_charge c f)\<lparr>last_step := k, failures_since_pass := 0,
      failed_attempts := max (failed_attempts f - 1) 0\<rparr>"
  shows "balanced f' u (r # es)"
proof -
  have not: "\<not> wrong_code u r" "\<not> acted Second_factor_unlocked u r"
    "\<not> acted Recovery_code_used u r" "\<not> acted Second_factor_attempted u r"
    using assms(3) by (auto simp: acted_def wrong_code_def)
  have same: "recovery_code_hashes f' = recovery_code_hashes f"
    "failed_attempts f - 1 \<le> failed_attempts f'" "charges f' = charges (use_charge c f)"
    "failures_leaked_at f' = failures_leaked_at f"
    by (simp_all add: f' use_charge_def)
  have "\<exists>gone. leak_paid f' u (r # es) gone" if o: "in_order (r # es)"
  proof -
    have "in_order es" using o by simp
    then obtain gone where g: "leak_paid f u es gone"
      using assms(1) unfolding balanced_def by blast
    have "leak_paid f' u (r # es) gone"
      by (rule leak_paid_more [OF g o]) (use g not same assms(3) in \<open>simp_all add: leak_paid_def\<close>)
    then show ?thesis by blast
  qed
  then show ?thesis
    using assms(1,3) not same use_charge_fewer [OF assms(2)] by (simp add: balanced_def)
qed

text \<open>A recovery code: off a lock the count stays, a lock becomes nine, leaking from now.\<close>

lemma balanced_recovered:
  assumes "balanced f u es" "x \<in> set (recovery_code_hashes f)" "failed_attempts f < 10"
    and "acted Recovery_code_used u r"
    and f': "f' = f\<lparr>recovery_code_hashes := filter (\<lambda>y. y \<noteq> x) (recovery_code_hashes f),
      failed_attempts := min (failed_attempts f) 9, failures_since_pass := 0\<rparr>"
  shows "balanced f' u (r # es)"
proof -
  have not: "\<not> wrong_code u r" "\<not> acted Second_factor_unlocked u r"
    "\<not> acted Second_factor_passed u r" "\<not> acted Second_factor_attempted u r"
    using assms(4) by (auto simp: acted_def wrong_code_def)
  have fewer: "length (filter (\<lambda>y. y \<noteq> x) (recovery_code_hashes f)) < length (recovery_code_hashes f)"
    using assms(2) by (intro length_filter_less [of x]) auto
  have same: "failed_attempts f' = failed_attempts f" "charges f' = charges f"
    "failures_leaked_at f' = failures_leaked_at f"
    using assms(3) by (simp_all add: f')
  have "\<exists>gone. leak_paid f' u (r # es) gone" if o: "in_order (r # es)"
  proof -
    have "in_order es" using o by simp
    then obtain gone where g: "leak_paid f u es gone"
      using assms(1) unfolding balanced_def by blast
    have "leak_paid f' u (r # es) gone"
      by (rule leak_paid_more [OF g o]) (use g not same in \<open>simp_all add: leak_paid_def\<close>)
    then show ?thesis by blast
  qed
  then show ?thesis
    using assms(1,4) not same fewer by (simp add: balanced_def f')
qed

lemma leak_paid_unlock:
  assumes g: "leak_paid f u es gone" and o: "in_order (r2 # r1 # es)" and "failed_attempts f = 10"
    and r: "acted Recovery_code_used u r1" "acted Second_factor_unlocked u r2" "v_at r1 = clock" "v_at r2 = clock"
    and f': "failed_attempts f' = 9" "failures_leaked_at f' = Some clock"
  shows "leak_paid f' u (r2 # r1 # es) gone"
proof -
  have not: "\<not> acted Second_factor_attempted u r1" "\<not> acted Second_factor_attempted u r2"
    "\<not> acted Second_factor_passed u r1" "\<not> acted Second_factor_passed u r2" "\<not> acted Second_factor_unlocked u r1"
    using r by (auto simp: acted_def)
  have "gone * LEAK \<le> clock - v_at ((r2 # r1 # es) ! (length (r2 # r1 # es) - 1))"
  proof (cases "es = []")
    case True
    then have "gone = 0" using g by (auto simp: leak_paid_def split: option.splits)
    then show ?thesis using True r by simp
  next
    case False
    have lst: "(r2 # r1 # es) ! (length (r2 # r1 # es) - 1) = es ! (length es - 1)"
      using False by (cases es) auto
    have "es ! (length es - 1) \<in> set es" using False by simp
    then have le: "v_at (es ! (length es - 1)) \<le> clock"
      using o r by (simp add: list_all_iff)
    show ?thesis
    proof (cases "failures_leaked_at f")
      case None
      then have "gone = 0" using g by (simp add: leak_paid_def)
      then show ?thesis using le lst by simp
    next
      case (Some a)
      then have p: "gone * LEAK \<le> a - v_at (es ! (length es - 1))" and a: "a \<le> v_at (hd es)"
        using g by (auto simp: leak_paid_def)
      have "v_at (hd es) \<le> clock" using False o r by (cases es) auto
      then show ?thesis using p a lst by simp
    qed
  qed
  then show ?thesis
    using g assms(3) f' not r by (simp add: leak_paid_def)
qed

lemma balanced_unlocked:
  assumes "balanced f u es" "x \<in> set (recovery_code_hashes f)" "failed_attempts f = 10"
    and r: "acted Recovery_code_used u r1" "acted Second_factor_unlocked u r2" "v_at r1 = clock" "v_at r2 = clock"
    and f': "f' = f\<lparr>recovery_code_hashes := filter (\<lambda>y. y \<noteq> x) (recovery_code_hashes f),
      failed_attempts := 9, failures_leaked_at := Some clock, failures_since_pass := 0, charges := []\<rparr>"
  shows "balanced f' u (r2 # r1 # es)"
proof -
  have not: "\<not> wrong_code u r1" "\<not> wrong_code u r2" "\<not> acted Second_factor_unlocked u r1"
    "\<not> acted Recovery_code_used u r2" "\<not> acted Second_factor_passed u r1" "\<not> acted Second_factor_passed u r2"
    "\<not> acted Second_factor_attempted u r1" "\<not> acted Second_factor_attempted u r2"
    using r by (auto simp: acted_def wrong_code_def)
  have fewer: "length (filter (\<lambda>y. y \<noteq> x) (recovery_code_hashes f)) < length (recovery_code_hashes f)"
    using assms(2) by (intro length_filter_less [of x]) auto
  have "\<exists>gone. leak_paid f' u (r2 # r1 # es) gone" if o: "in_order (r2 # r1 # es)"
  proof -
    have "in_order es" using o by simp
    then obtain gone where g: "leak_paid f u es gone"
      using assms(1) unfolding balanced_def by blast
    have "leak_paid f' u (r2 # r1 # es) gone"
      by (rule leak_paid_unlock [OF g o assms(3) r]) (simp_all add: f')
    then show ?thesis by blast
  qed
  then show ?thesis
    using assms(1) r not fewer by (simp add: balanced_def f')
qed

lemma balanced_fresh:
  "failures_leaked_at f = None \<Longrightarrow> 0 \<le> failed_attempts f \<Longrightarrow> charges f = [] \<Longrightarrow>
   length (recovery_code_hashes f) = 10 \<Longrightarrow> balanced f u []"
  by (simp add: balanced_def leak_paid_def)

section \<open>The life of a factor\<close>

text \<open>
  The specification of the whole: the factors and the audit record, and the ten ways they move. Every
  transaction is one of them.
\<close>

type_synonym ledger = "(uuid \<Rightarrow> factor option) \<times> platform_event list"

definition own_event :: "instant \<Rightarrow> platform_action \<Rightarrow> uuid \<Rightarrow> platform_details option \<Rightarrow> platform_event" where
  "own_event clock a u det = \<lparr>v_at = clock, v_actor = Some u, v_action = a, v_tenant = None,
     v_target = None, v_reason = None, v_details = det\<rparr>"

definition lifted :: "instant \<Rightarrow> bytes \<Rightarrow> factor \<Rightarrow> factor" where
  "lifted clock x f = f\<lparr>recovery_code_hashes := filter (\<lambda>y. y \<noteq> x) (recovery_code_hashes f),
     failed_attempts := 9, failures_leaked_at := Some clock, failures_since_pass := 0, charges := []\<rparr>"

definition recovered :: "bytes \<Rightarrow> factor \<Rightarrow> factor" where
  "recovered x f = f\<lparr>recovery_code_hashes := filter (\<lambda>y. y \<noteq> x) (recovery_code_hashes f),
     failed_attempts := min (failed_attempts f) 9, failures_since_pass := 0\<rparr>"

definition passed_factor :: "attempt_id option \<Rightarrow> int \<Rightarrow> factor \<Rightarrow> factor" where
  "passed_factor c k f = (use_charge c f)\<lparr>last_step := k, failures_since_pass := 0,
     failed_attempts := max (failed_attempts f - 1) 0\<rparr>"

inductive ledger_step :: "ledger \<Rightarrow> ledger \<Rightarrow> bool" where
  same: "ledger_step (F, E) (F, E)"
| idle: "\<forall>u. idle_for u r \<Longrightarrow> ledger_step (F, E) (F, r # E)"
| issue: "issued_to u r \<Longrightarrow> v_actor r = None \<Longrightarrow> confirmed_at f = None \<Longrightarrow> failed_attempts f = 0 \<Longrightarrow>
    ledger_step (F, E) (F(u \<mapsto> f), r # E)"
| begin_pending: "F u = Some f \<Longrightarrow> confirmed_at f = None \<Longrightarrow>
    ledger_step (F, E) (F(u \<mapsto> f\<lparr>secret_ct := Some ct, proof_hash := Some p, last_step := 0, charges := []\<rparr>), E)"
| tried: "F u = Some f \<Longrightarrow> confirmed_at f = None \<Longrightarrow> failed_attempts f < 10 \<Longrightarrow>
    ledger_step (F, E) (F(u \<mapsto> f\<lparr>failed_attempts := failed_attempts f + 1, charges := cs\<rparr>),
      own_event clock Totp_enrolment_attempted u det # E)"
| refused: "F u = Some f \<Longrightarrow> confirmed_at f = None \<Longrightarrow>
    ledger_step (F, E) (F(u \<mapsto> use_charge c f), own_event clock Totp_enrolment_failed u det # E)"
| confirm: "F u = Some f \<Longrightarrow> confirmed_at f = None \<Longrightarrow> confirmed_at g \<noteq> None \<Longrightarrow> failed_attempts g = 0 \<Longrightarrow>
    failures_leaked_at g = None \<Longrightarrow> charges g = [] \<Longrightarrow> length (recovery_code_hashes g) = 10 \<Longrightarrow>
    ledger_step (F, E) (F(u \<mapsto> g), own_event clock Totp_enrolled u None # E)"
| charge_one: "F u = Some f \<Longrightarrow> confirmed_at f \<noteq> None \<Longrightarrow> failed_attempts f < 10 \<Longrightarrow>
    ledger_step (F, E) (F(u \<mapsto> charge_factor clock c f),
      own_event clock Second_factor_attempted u det # E)"
| wrong: "F u = Some f \<Longrightarrow> confirmed_at f \<noteq> None \<Longrightarrow> holds_charge clock c f \<Longrightarrow>
    ledger_step (F, E) (F(u \<mapsto> use_charge c f),
      own_event clock Second_factor_failed u (Some (Totp_count n)) # E)"
| wrong_locked: "F u = Some f \<Longrightarrow> confirmed_at f \<noteq> None \<Longrightarrow> holds_charge clock c f \<Longrightarrow>
    ledger_step (F, E) (F(u \<mapsto> use_charge c f),
      own_event clock Second_factor_locked u det #
      own_event clock Second_factor_failed u (Some (Totp_count n)) # E)"
| right: "F u = Some f \<Longrightarrow> confirmed_at f \<noteq> None \<Longrightarrow> holds_charge clock c f \<Longrightarrow> last_step f < k \<Longrightarrow>
    ledger_step (F, E) (F(u \<mapsto> passed_factor c k f), own_event clock Second_factor_passed u det # E)"
| recovery: "F u = Some f \<Longrightarrow> confirmed_at f \<noteq> None \<Longrightarrow> x \<in> set (recovery_code_hashes f) \<Longrightarrow>
    failed_attempts f < 10 \<Longrightarrow>
    ledger_step (F, E) (F(u \<mapsto> recovered x f), own_event clock Recovery_code_used u det # E)"
| unlock: "F u = Some f \<Longrightarrow> confirmed_at f \<noteq> None \<Longrightarrow> x \<in> set (recovery_code_hashes f) \<Longrightarrow>
    10 \<le> failed_attempts f \<Longrightarrow>
    ledger_step (F, E) (F(u \<mapsto> lifted clock x f),
      own_event clock Second_factor_unlocked u None # own_event clock Recovery_code_used u det # E)"

definition ledger_of :: "identity \<Rightarrow> ledger" where
  "ledger_of V = (factors V, platform_events V)"

lemma ledger_of_simps [simp]:
  "ledger_of (V\<lparr>admin_sessions := s\<rparr>) = ledger_of V"
  "ledger_of (V\<lparr>admins := us\<rparr>) = ledger_of V"
  "ledger_of (V\<lparr>account_sessions := b\<rparr>) = ledger_of V"
  "ledger_of (pass_session clock h V) = ledger_of V"
  "ledger_of (put_factor u f V) = ((factors V)(u \<mapsto> f), platform_events V)"
  "ledger_of (add_event clock a (Some u) None det V) = (factors V, own_event clock a u det # platform_events V)"
  by (simp_all add: ledger_of_def pass_session_def put_factor_def add_event_def own_event_def)

lemma put_factor_simps [simp]:
  "factors (put_factor u f V) = (factors V)(u \<mapsto> f)"
  "platform_events (put_factor u f V) = platform_events V"
  "admin_sessions (put_factor u f V) = admin_sessions V"
  "admins (put_factor u f V) = admins V"
  by (simp_all add: put_factor_def)

lemma pass_session_simps [simp]:
  "factors (pass_session clock h V) = factors V"
  "platform_events (pass_session clock h V) = platform_events V"
  "admins (pass_session clock h V) = admins V"
  by (simp_all add: pass_session_def)

lemma add_event_simps [simp]:
  "factors (add_event clock a u t det V) = factors V"
  "admin_sessions (add_event clock a u t det V) = admin_sessions V"
  "admins (add_event clock a u t det V) = admins V"
  "platform_events (add_event clock a (Some x) None det V) = own_event clock a x det # platform_events V"
  by (simp_all add: add_event_def own_event_def)

lemma resolve_ledger [simp]: "ledger_of (snd (resolve_admin_session clock h V)) = ledger_of V"
  by (simp add: resolve_admin_session_def ledger_of_def)

lemma resolved_ledger [simp]: "ledger_of (snd (resolved clock h V)) = ledger_of V"
  using resolve_ledger [of clock h V]
  by (cases "resolve_admin_session clock h V") (auto simp: resolved_def split: option.splits)

lemma end_ledger [simp]: "ledger_of (snd (end_admin_session h V)) = ledger_of V"
  by (simp add: end_admin_session_def ledger_of_def)

lemma speaks_live: "speaks_for h u V \<Longrightarrow> live_admin_user clock h V = Some x \<Longrightarrow> x = u"
  by (auto simp: speaks_for_def live_admin_user_def admin_live_def list_all_iff
      dest: first_row_filterD)

lemma factor_at_SomeD:
  "speaks_for h u V \<Longrightarrow> factor_at clock h V = Some (x, f) \<Longrightarrow> x = u \<and> factors V u = Some f"
  by (auto simp: factor_at_def dest: speaks_live split: option.splits)

lemma confirmed_SomeD:
  "speaks_for h u V \<Longrightarrow> confirmed_factor clock h V = Some (x, f) \<Longrightarrow>
   x = u \<and> factors V u = Some f \<and> confirmed_at f \<noteq> None"
  by (auto simp: confirmed_factor_def dest: factor_at_SomeD split: option.splits if_splits)

lemma pending_SomeD:
  "speaks_for h u V \<Longrightarrow> pending_factor clock h V = Some (x, f) \<Longrightarrow>
   x = u \<and> factors V u = Some f \<and> confirmed_at f = None"
  by (auto simp: pending_factor_def dest: factor_at_SomeD split: option.splits if_splits)

lemma idle_own [simp]:
  "idle_for x (own_event clock a u det) \<longleftrightarrow> x \<noteq> u \<or>
     (a \<notin> {Totp_enrolled, Totp_enrolment_attempted, Second_factor_attempted, Second_factor_passed,
       Recovery_code_used, Second_factor_unlocked} \<and>
      \<not> (a = Second_factor_failed \<and> (case det of Some (Totp_count _) \<Rightarrow> True | _ \<Rightarrow> False)))"
  by (auto simp: idle_for_def own_event_def issued_to_def wrong_code_def acted_def)

lemma ledger_same [simp]: "ledger_step L L"
  by (cases L) (simp add: ledger_step.same)

text \<open>The refinement, one transaction at a time.\<close>

lemma ledger_charge:
  assumes s: "speaks_for h u V" and t: "charge_attempt C clock h u c V = Inr (r, W)"
  shows "ledger_step (ledger_of V) (ledger_of W)"
proof -
  obtain sec where sec: "secret_of C clock h u V = Inr (Some sec)"
    using t by (auto simp: charge_attempt_def split: sum.splits option.splits)
  show ?thesis
  proof (cases "confirmed_factor clock h V")
    case None
    then have "W = V"
      using t sec by (simp add: charge_attempt_def charge_second_factor_def)
    then show ?thesis by simp
  next
    case (Some y)
    then obtain f where f: "confirmed_factor clock h V = Some (u, f)" "factors V u = Some f" "confirmed_at f \<noteq> None"
      using confirmed_SomeD [OF s] by (cases y) auto
    show ?thesis
    proof (cases "LOCK_AT \<le> failed_attempts f")
      case True
      then have "ledger_of W = (factors V, own_event clock Second_factor_failed u
          (Some (Totp_locked (failed_attempts f))) # platform_events V)"
        using t sec f by (auto simp: charge_attempt_def charge_second_factor_def)
      then show ?thesis
        unfolding ledger_of_def [of V] by (simp add: ledger_step.idle)
    next
      case False
      then have "ledger_of W = ((factors V)(u \<mapsto> charge_factor clock c f), own_event clock Second_factor_attempted u
          (Some (Totp_count (failed_attempts (charge_factor clock c f)))) # platform_events V)"
        using t sec f by (auto simp: charge_attempt_def charge_second_factor_def Let_def)
      then show ?thesis
        unfolding ledger_of_def [of V] using f False
        by (simp add: ledger_step.charge_one LOCK_AT_def)
    qed
  qed
qed

lemma ledger_check:
  assumes s: "speaks_for h u V" and t: "check_attempt C clock h u n c sec step V = (r, W)"
  shows "ledger_step (ledger_of V) (ledger_of W)"
proof (cases "confirmed_factor clock h V")
  case None
  then have "W = V"
    using t by (auto simp: check_attempt_def check_second_factor_def)
  then show ?thesis by simp
next
  case (Some y)
  then obtain f where f: "confirmed_factor clock h V = Some (u, f)" "factors V u = Some f" "confirmed_at f \<noteq> None"
    using confirmed_SomeD [OF s] by (cases y) auto
  show ?thesis
  proof (cases "holds_charge clock c f")
    case False
    then have "W = V"
      using t f by (auto simp: check_attempt_def check_second_factor_def)
    then show ?thesis by simp
  next
    case held: True
    show ?thesis
    proof (cases "right_code C clock (totp_proof C sec) step f")
      case True
      then have k: "last_step f < the step"
        by (auto simp: right_code_def split: option.splits)
      have "ledger_of W = ledger_of (snd (resolved clock h (add_event clock Second_factor_passed (Some u) None
          (Some (Totp_passed (max (failures_since_pass f - 1) 0)))
          (pass_session clock h (put_factor u (passed_factor c (the step) f) V)))))"
        using t f held True
        by (auto simp: check_attempt_def check_second_factor_def passed_factor_def)
      then show ?thesis
        unfolding ledger_of_def [of V] using f held k
        by (simp add: ledger_step.right)
    next
      case False
      then show ?thesis
        unfolding ledger_of_def [of V] using t f held
        by (auto simp: check_attempt_def check_second_factor_def Let_def ledger_step.wrong
            ledger_step.wrong_locked split: if_splits)
    qed
  qed
qed

lemma ledger_no_recovery:
  assumes "recovery_attempt C clock h u typed V = (r, W)"
    and "use_recovery_code C clock h (totp_proof C typed) V = (None, V)"
  shows "ledger_step (ledger_of V) (ledger_of W)"
proof -
  have "W = add_event clock Second_factor_failed (Some u) None (Some With_recovery_code) V"
    using assms by (simp add: recovery_attempt_def)
  then show ?thesis
    unfolding ledger_of_def [of V] by (simp add: ledger_step.idle)
qed

lemma ledger_recovered:
  assumes f: "confirmed_factor clock h V = Some (u, f)" "factors V u = Some f" "confirmed_at f \<noteq> None"
    and x: "sha256 C (totp_proof C typed) \<in> set (recovery_code_hashes f)"
    and t: "recovery_attempt C clock h u typed V = (r, W)"
  shows "ledger_step (ledger_of V) (ledger_of W)"
proof -
  let ?x = "sha256 C (totp_proof C typed)"
  let ?n = "length (filter (\<lambda>y. y \<noteq> ?x) (recovery_code_hashes f))"
  show ?thesis
  proof (cases "LOCK_AT \<le> failed_attempts f")
    case True
    then have "use_recovery_code C clock h (totp_proof C typed) V =
        (Some (?n, True), pass_session clock h (put_factor u (lifted clock ?x f) V))"
      using f x by (simp add: use_recovery_code_def Let_def lifted_def LOCK_AT_def)
    then have "W = snd (resolved clock h (add_event clock Second_factor_unlocked (Some u) None None
        (add_event clock Recovery_code_used (Some u) None (Some (Codes_left ?n))
          (pass_session clock h (put_factor u (lifted clock ?x f) V)))))"
      using t by (simp add: recovery_attempt_def)
    then show ?thesis
      using f x True by (simp add: ledger_of_def [of V] ledger_step.unlock LOCK_AT_def)
  next
    case False
    then have "use_recovery_code C clock h (totp_proof C typed) V =
        (Some (?n, False), pass_session clock h (put_factor u (recovered ?x f) V))"
      using f x by (simp add: use_recovery_code_def Let_def recovered_def)
    then have "W = snd (resolved clock h (add_event clock Recovery_code_used (Some u) None (Some (Codes_left ?n))
          (pass_session clock h (put_factor u (recovered ?x f) V))))"
      using t by (simp add: recovery_attempt_def)
    then show ?thesis
      using f x False by (simp add: ledger_of_def [of V] ledger_step.recovery LOCK_AT_def)
  qed
qed

lemma ledger_recovery:
  assumes s: "speaks_for h u V" and t: "recovery_attempt C clock h u typed V = (r, W)"
  shows "ledger_step (ledger_of V) (ledger_of W)"
proof (cases "confirmed_factor clock h V")
  case None
  then show ?thesis
    using ledger_no_recovery [OF t] by (simp add: use_recovery_code_def)
next
  case (Some y)
  obtain z f where y: "y = (z, f)" by (cases y)
  have f: "z = u \<and> factors V u = Some f \<and> confirmed_at f \<noteq> None"
    using confirmed_SomeD [OF s] Some y by blast
  show ?thesis
  proof (cases "sha256 C (totp_proof C typed) \<in> set (recovery_code_hashes f)")
    case True
    show ?thesis
      using f by (intro ledger_recovered [OF _ _ _ True t]) (use Some y in simp_all)
  next
    case False
    then show ?thesis
      using ledger_no_recovery [OF t] Some y by (simp add: use_recovery_code_def)
  qed
qed

lemma ledger_begin:
  assumes s: "speaks_for h u V" and t: "begin_attempt C clock h u ticket sec nonce V = (r, W)"
  shows "ledger_step (ledger_of V) (ledger_of W)"
proof -
  have bad: "ledger_step (factors V, platform_events V)
      (factors V, own_event clock Totp_enrolment_failed u None # platform_events V)"
    by (rule ledger_step.idle) simp
  show ?thesis
  proof (cases "factor_at clock h V")
    case None
    then show ?thesis
      using t bad by (auto simp: begin_attempt_def begin_totp_enrolment_def ledger_of_def [of V])
  next
    case (Some y)
    obtain z f where y: "y = (z, f)" by (cases y)
    have f: "z = u \<and> factors V u = Some f"
      using factor_at_SomeD [OF s] Some y by blast
    have new: "confirmed_at f = None \<Longrightarrow> ledger_step (factors V, platform_events V)
        ((factors V)(u \<mapsto> f\<lparr>secret_ct := Some (encrypt C nonce sec u), proof_hash := Some (sha256 C (totp_proof C sec)),
          last_step := 0, charges := []\<rparr>), platform_events V)"
      using f by (intro ledger_step.begin_pending) simp_all
    show ?thesis
      using t Some y f new bad
      by (auto simp: begin_attempt_def begin_totp_enrolment_def ledger_of_def split: if_splits)
  qed
qed

lemma ledger_charge_confirm:
  assumes s: "speaks_for h u V" and t: "charge_confirm C clock h u c V = Inr (r, W)"
  shows "ledger_step (ledger_of V) (ledger_of W)"
proof -
  obtain sec where sec: "secret_of C clock h u V = Inr (Some sec)"
    using t by (auto simp: charge_confirm_def split: sum.splits option.splits)
  show ?thesis
  proof (cases "pending_factor clock h V")
    case None
    then show ?thesis
      using t sec by (simp add: charge_confirm_def charge_totp_enrolment_def ledger_of_def)
  next
    case (Some y)
    obtain z f where y: "y = (z, f)" by (cases y)
    have f: "z = u \<and> factors V u = Some f \<and> confirmed_at f = None"
      using pending_SomeD [OF s] Some y by blast
    show ?thesis
    proof (cases "LOCK_AT \<le> failed_attempts f")
      case True
      then show ?thesis
        using t sec Some y f by (simp add: charge_confirm_def charge_totp_enrolment_def ledger_of_def)
    next
      case False
      have "ledger_step (factors V, platform_events V) ((factors V)(u \<mapsto> f\<lparr>failed_attempts := failed_attempts f + 1,
          charges := filter (live_charge clock) (charges f) @ [c]\<rparr>),
          own_event clock Totp_enrolment_attempted u (Some (Count (failed_attempts f + 1))) # platform_events V)"
        using f False by (intro ledger_step.tried) (simp_all add: LOCK_AT_def)
      then show ?thesis
        using t sec Some y f False
        by (auto simp: charge_confirm_def charge_totp_enrolment_def ledger_of_def [of V])
    qed
  qed
qed

lemma ledger_check_confirm:
  assumes s: "speaks_for h u V" and t: "check_confirm C clock h u n c sec step codes V = Inr (r, W)"
  shows "ledger_step (ledger_of V) (ledger_of W)"
proof -
  let ?hashes = "map (\<lambda>k. totp_proof C (normalise k)) codes"
  have ten: "length codes = 10"
    using t by (auto simp: check_confirm_def check_totp_enrolment_def split: if_splits)
  show ?thesis
  proof (cases "pending_factor clock h V")
    case None
    then show ?thesis
      using t ten by (auto simp: check_confirm_def check_totp_enrolment_def ledger_of_def)
  next
    case (Some y)
    obtain z f where y: "y = (z, f)" by (cases y)
    have f: "z = u \<and> factors V u = Some f \<and> confirmed_at f = None"
      using pending_SomeD [OF s] Some y by blast
    have wrong: "ledger_step (factors V, platform_events V) ((factors V)(u \<mapsto> use_charge c f),
        own_event clock Totp_enrolment_failed u (Some (Count n)) # platform_events V)"
      using f by (intro ledger_step.refused) simp_all
    have right: "ledger_step (factors V, platform_events V) ((factors V)(u \<mapsto> f\<lparr>confirmed_at := Some clock,
          last_step := the step, failed_attempts := 0, failures_leaked_at := None, failures_since_pass := 0,
          charges := [], ticket_hash := None, ticket_expires_at := None,
          recovery_code_hashes := map (sha256 C) ?hashes\<rparr>),
        own_event clock Totp_enrolled u None # platform_events V)"
      by (rule ledger_step.confirm [of _ _ f]) (use f ten in simp_all)
    show ?thesis
    proof (cases "holds_charge clock c f")
      case False
      then show ?thesis
        using t ten Some y f
        by (auto simp: check_confirm_def check_totp_enrolment_def ledger_of_def [of V])
    next
      case held: True
      show ?thesis
      proof (cases "proof_hash f = Some (sha256 C (totp_proof C sec)) \<and>
          (case step of None \<Rightarrow> False | Some k \<Rightarrow> in_step_window clock k)")
        case True
        then show ?thesis
          using t ten right Some y f held
          by (auto simp: check_confirm_def check_totp_enrolment_def ledger_of_def [of V])
      next
        case False
        then have "W = add_event clock Totp_enrolment_failed (Some u) None (Some (Count n))
            (put_factor u (use_charge c f) V)"
          using t ten Some y f held by (auto simp: check_confirm_def check_totp_enrolment_def)
        then show ?thesis
          using wrong by (simp add: ledger_of_def [of V])
      qed
    qed
  qed
qed

lemma idle_actor_None: "v_actor r = None \<Longrightarrow> v_action r \<noteq> Totp_enrolment_issued \<Longrightarrow> idle_for u r"
  by (auto simp: idle_for_def issued_to_def wrong_code_def acted_def)

lemma ledger_start:
  assumes "admin_start C clock kept user hash id_hash old V = Inr (r, W)"
  shows "ledger_step (ledger_of V) (ledger_of W)"
proof -
  obtain began V1 where b: "start_admin_session clock kept user hash id_hash V = Inr (began, V1)"
    using assms by (auto simp: admin_start_def split: sum.splits)
  have l: "ledger_of V1 = ledger_of V" "began \<Longrightarrow> user \<noteq> None"
    using b by (auto simp: start_admin_session_def ledger_of_def split: option.splits if_splits)
  show ?thesis
  proof (cases began)
    case False
    then have "ledger_of W = (factors V, \<lparr>v_at = clock, v_actor = None, v_action = Admin_sign_in_failed,
        v_tenant = None, v_target = map_option Of_user user, v_reason = None, v_details = None\<rparr> # platform_events V)"
      using assms b l(1) by (auto simp: admin_start_def ledger_of_def add_event_def)
    then show ?thesis
      unfolding ledger_of_def [of V] by (auto intro!: ledger_step.idle idle_actor_None)
  next
    case True
    then obtain u where u: "user = Some u" using l by auto
    obtain V2 where v2: "ledger_of V2 = ledger_of V1"
      and w: "(case resolve_admin_session clock id_hash (add_event clock Admin_signed_in user None None V2) of
          (None, x) \<Rightarrow> Inl (Uncaught ''NoResultFound'') | (Some w, y) \<Rightarrow> Inr (Some w, y)) = Inr (r, W)"
    proof -
      let ?V2 = "case old of None \<Rightarrow> V1 | Some k \<Rightarrow> if k = [] then V1 else snd (end_admin_session (sha256 C k) V1)"
      have "ledger_of ?V2 = ledger_of V1" by (simp split: option.splits)
      moreover have "(case resolve_admin_session clock id_hash (add_event clock Admin_signed_in user None None ?V2) of
          (None, x) \<Rightarrow> Inl (Uncaught ''NoResultFound'') | (Some w, y) \<Rightarrow> Inr (Some w, y)) = Inr (r, W)"
        using assms b True by (simp add: admin_start_def Let_def)
      ultimately show thesis by (rule that)
    qed
    have "W = snd (resolve_admin_session clock id_hash (add_event clock Admin_signed_in user None None V2))"
      using w by (auto split: prod.splits option.splits)
    then have "ledger_of W = (factors V2, own_event clock Admin_signed_in u None # platform_events V2)"
      using u by simp
    then show ?thesis
      using v2 l(1) by (simp add: ledger_of_def ledger_step.idle)
  qed
qed

lemma ledger_sign_out: "ledger_step (ledger_of V) (ledger_of (admin_sign_out clock h V))"
proof -
  obtain who V1 where e: "end_admin_session h V = (who, V1)" by (cases "end_admin_session h V")
  have l: "ledger_of V1 = ledger_of V" using end_ledger [of h V] e by simp
  show ?thesis
    using l by (cases who) (auto simp: admin_sign_out_def e ledger_of_def intro: ledger_step.idle)
qed

lemma ledger_read:
  assumes "business clock tenants u t target V = Inr W"
  shows "ledger_step (ledger_of V) (ledger_of W)"
  using assms
  by (auto simp: business_def ledger_of_def idle_for_def issued_to_def wrong_code_def acted_def
      intro!: ledger_step.idle split: if_splits)

lemma add_command_Inr:
  "add_command clock a u reason V = Inr W \<Longrightarrow>
   \<exists>r. ledger_of W = (factors V, r # platform_events V) \<and> v_actor r = None \<and> v_action r = a \<and>
     v_target r = Some (Of_user u) \<and> admins W = admins V \<and> admin_sessions W = admin_sessions V"
  by (auto simp: add_command_def ledger_of_def split: if_splits)

lemma ledger_enrol:
  assumes "enrol C clock terminal email reason ticket V = Inr (r, W)"
  shows "ledger_step (ledger_of V) (ledger_of W)"
proof (cases "W = V")
  case True
  then show ?thesis by simp
next
  case False
  then obtain u where u: "accounts V email = Some u"
    using assms by (auto simp: enrol_def split: if_splits option.splits)
  let ?V1 = "ISSUE_TICKET C clock u (totp_proof C (normalise ticket)) V"
  let ?V2 = "?V1\<lparr>admin_sessions := filter (\<lambda>s. a_user s \<noteq> u) (admin_sessions ?V1)\<rparr>"
  have a: "add_command clock Totp_enrolment_issued u reason ?V2 = Inr W"
    using assms False u by (auto simp: enrol_def Let_def split: if_splits sum.splits)
  obtain e where e: "ledger_of W = (factors ?V2, e # platform_events ?V2)" "v_actor e = None"
    "v_action e = Totp_enrolment_issued" "v_target e = Some (Of_user u)"
    using add_command_Inr [OF a] by blast
  have "issued_to u e" using e by (simp add: issued_to_def)
  then show ?thesis
    using e by (simp add: ISSUE_TICKET_def ledger_of_def [of V] ledger_step.issue)
qed

lemma ledger_command:
  assumes "map_sum id (Pair k) (add_command clock a u reason V) = Inr (r, W)"
    and "a \<noteq> Totp_enrolment_issued"
  shows "ledger_step (ledger_of V) (ledger_of W)"
proof -
  have c: "add_command clock a u reason V = Inr W"
    using assms(1) by (cases "add_command clock a u reason V") auto
  obtain e where e: "ledger_of W = (factors V, e # platform_events V)" "v_actor e = None" "v_action e = a"
    using add_command_Inr [OF c] by blast
  then show ?thesis
    unfolding e(1) ledger_of_def [of V] using assms(2) by (intro ledger_step.idle allI idle_actor_None) simp_all
qed

lemma ledger_grant:
  assumes "grant_admin clock email reason V = Inr (r, W)"
  shows "ledger_step (ledger_of V) (ledger_of W)"
proof (cases "ledger_of W = ledger_of V")
  case True
  then show ?thesis by simp
next
  case False
  then obtain u where u: "accounts V email = Some u"
    using assms by (auto simp: grant_admin_def split: if_splits option.splits)
  let ?X = "V\<lparr>account_sessions := filter (\<lambda>s. p_user s \<noteq> u) (account_sessions V), admins := admins V @ [u]\<rparr>"
  have "map_sum id (Pair 0) (add_command clock Admin_granted u reason ?X) = Inr (r, W)"
    using assms u False by (auto simp: grant_admin_def Let_def split: if_splits)
  then have "ledger_step (ledger_of ?X) (ledger_of W)"
    by (rule ledger_command) simp
  then show ?thesis by simp
qed

lemma ledger_revoke:
  assumes "revoke_admin clock email reason V = Inr (r, W)"
  shows "ledger_step (ledger_of V) (ledger_of W)"
proof (cases "ledger_of W = ledger_of V")
  case True
  then show ?thesis by simp
next
  case False
  then obtain u where u: "accounts V email = Some u"
    using assms by (auto simp: revoke_admin_def split: if_splits option.splits)
  let ?X = "V\<lparr>admins := removeAll u (admins V), admin_sessions := filter (\<lambda>s. a_user s \<noteq> u) (admin_sessions V)\<rparr>"
  have "map_sum id (Pair 0) (add_command clock Admin_revoked u reason ?X) = Inr (r, W)"
    using assms u False by (auto simp: revoke_admin_def split: if_splits)
  then have "ledger_step (ledger_of ?X) (ledger_of W)"
    by (rule ledger_command) simp
  then show ?thesis by simp
qed

lemma admin_step_ledger: "admin_step C V W \<Longrightarrow> ledger_step (ledger_of V) (ledger_of W)"
proof (induction rule: admin_step.induct)
  case (resolves V clock h)
  then show ?case by simp
next
  case (elsewhere V W)
  then show ?case by (simp add: fewer_sessions_def ledger_of_def ledger_step.same)
qed (fact ledger_charge ledger_check ledger_recovery ledger_begin ledger_charge_confirm
    ledger_check_confirm ledger_start ledger_sign_out ledger_read ledger_enrol ledger_grant ledger_revoke)+

section \<open>The accounts stay balanced\<close>

lemma tries_idle [simp]: "idle_for u r \<Longrightarrow> tries u (r # E) = tries u E"
  by (simp add: tries_def idle_acted)

lemma accounted_idle:
  assumes "accounted (F, E) u" "G u = F u" "idle_for u r"
  shows "accounted (G, r # E) u"
proof -
  have "balanced f u (since_enrolled u (r # E))" if "balanced f u (since_enrolled u E)" for f
    using balanced_idle [OF that assms(3)] that idle_acted [OF assms(3)] by simp
  then show ?thesis
    using assms by (auto simp: accounted_def split: option.splits)
qed

lemma tries_own:
  "tries u (own_event clock a u det # E) = (if a = Totp_enrolment_attempted then 1 else 0) + tries u E"
  by (simp add: tries_def issued_to_def own_event_def acted_def)

lemma since_enrolled_own:
  "a \<noteq> Totp_enrolled \<Longrightarrow> since_enrolled u (own_event clock a u det # E) =
     own_event clock a u det # since_enrolled u E"
  by (simp add: acted_def own_event_def)

lemma acted_own [simp]: "acted b u (own_event clock a u det) \<longleftrightarrow> b = a"
  by (auto simp: acted_def own_event_def)

lemma wrong_own [simp]: "wrong_code u (own_event clock Second_factor_failed u (Some (Totp_count n)))"
  by (simp add: wrong_code_def own_event_def acted_def)

lemma own_at [simp]: "v_at (own_event clock a u det) = clock" "v_actor (own_event clock a u det) = Some u"
  "v_action (own_event clock a u det) = a"
  by (simp_all add: own_event_def)

lemma factor_fields [simp]:
  "failed_attempts (use_charge c f) = failed_attempts f"
  "confirmed_at (use_charge c f) = confirmed_at f"
  "confirmed_at (charge_factor clock ch f) = confirmed_at f"
  "confirmed_at (passed_factor c k f) = confirmed_at f"
  "confirmed_at (recovered x f) = confirmed_at f"
  "confirmed_at (lifted clock x f) = confirmed_at f"
  "failed_attempts (passed_factor c k f) = max (failed_attempts f - 1) 0"
  "failed_attempts (recovered x f) = min (failed_attempts f) 9"
  "failed_attempts (lifted clock x f) = 9"
  by (simp_all add: use_charge_def charge_factor_def passed_factor_def recovered_def lifted_def Let_def)

lemma accounted_other: "accounted (F, E) x \<Longrightarrow> x \<noteq> u \<Longrightarrow> accounted (F(u \<mapsto> f), E) x"
  by (simp add: accounted_def)

lemma accounted_other1:
  "accounted (F, E) x \<Longrightarrow> x \<noteq> u \<Longrightarrow> accounted (F(u \<mapsto> f), own_event clock a u det # E) x"
  by (rule accounted_idle) simp_all

lemma accounted_other2:
  "accounted (F, E) x \<Longrightarrow> x \<noteq> u \<Longrightarrow>
   accounted (F(u \<mapsto> f), own_event clock a u det # own_event clock b u det' # E) x"
  by (rule accounted_idle [where F = "F(u \<mapsto> f)"]) (simp_all add: accounted_other1)

lemmas accounted_own = accounted_Some tries_own since_enrolled_own

lemma accounted_charge:
  assumes "F u = Some f" "confirmed_at f \<noteq> None" "failed_attempts f < 10" "accounted (F, E) u"
  shows "accounted (F(u \<mapsto> charge_factor clock c f), own_event clock Second_factor_attempted u det # E) u"
  using assms balanced_charge [of f u "since_enrolled u E" "own_event clock Second_factor_attempted u det" clock c]
    charge_factor_range [of f clock c]
  by (auto simp: accounted_own)

lemma accounted_wrong:
  assumes "F u = Some f" "confirmed_at f \<noteq> None" "holds_charge clock c f" "accounted (F, E) u"
  shows "accounted (F(u \<mapsto> use_charge c f), own_event clock Second_factor_failed u (Some (Totp_count n)) # E) u"
  using assms balanced_failed [of f u "since_enrolled u E" clock c
      "own_event clock Second_factor_failed u (Some (Totp_count n))"]
  by (auto simp: accounted_own)

lemma accounted_right:
  assumes "F u = Some f" "confirmed_at f \<noteq> None" "holds_charge clock c f" "accounted (F, E) u"
  shows "accounted (F(u \<mapsto> passed_factor c k f), own_event clock Second_factor_passed u det # E) u"
  using assms balanced_passed [of f u "since_enrolled u E" clock c
      "own_event clock Second_factor_passed u det" "passed_factor c k f" k]
  by (auto simp: accounted_own passed_factor_def)

lemma accounted_recovery:
  assumes "F u = Some f" "confirmed_at f \<noteq> None" "x \<in> set (recovery_code_hashes f)"
    "failed_attempts f < 10" "accounted (F, E) u"
  shows "accounted (F(u \<mapsto> recovered x f), own_event clock Recovery_code_used u det # E) u"
  using assms balanced_recovered [of f u "since_enrolled u E" x
      "own_event clock Recovery_code_used u det" "recovered x f"]
  by (auto simp: accounted_own recovered_def)

lemma accounted_unlock:
  assumes "F u = Some f" "confirmed_at f \<noteq> None" "x \<in> set (recovery_code_hashes f)"
    "10 \<le> failed_attempts f" "accounted (F, E) u"
  shows "accounted (F(u \<mapsto> lifted clock x f),
    own_event clock Second_factor_unlocked u None # own_event clock Recovery_code_used u det # E) u"
  using assms balanced_unlocked [of f u "since_enrolled u E" x "own_event clock Recovery_code_used u det"
      "own_event clock Second_factor_unlocked u None" clock "lifted clock x f"]
  by (auto simp: accounted_own lifted_def)

lemma ledger_step_accounted:
  assumes "ledger_step L M" "\<And>u. accounted L u"
  shows "accounted M x"
  using assms
proof (induction arbitrary: x rule: ledger_step.induct)
  case (same F E)
  then show ?case by blast
next
  case (idle r F E)
  then show ?case by (intro accounted_idle [where F = F]) simp_all
next
  case (issue u r f F E)
  show ?case
  proof (cases "x = u")
    case True
    then show ?thesis using issue by (simp add: accounted_Some tries_def)
  next
    case False
    then have "idle_for x r"
      using issue by (auto simp: idle_for_def issued_to_def)
    then show ?thesis using issue.prems False by (intro accounted_idle [where F = F]) simp_all
  qed
next
  case (begin_pending F u f E ct p)
  show ?case
    using begin_pending.hyps begin_pending.prems [of u] begin_pending.prems [of x]
    by (cases "x = u") (simp_all add: accounted_Some accounted_other)
next
  case (tried F u f E cs clock det)
  show ?case
    using tried.hyps tried.prems [of u] tried.prems [of x]
    by (cases "x = u") (simp_all add: accounted_own accounted_other1)
next
  case (refused F u f E c clock det)
  show ?case
    using refused.hyps refused.prems [of u] refused.prems [of x]
    by (cases "x = u") (simp_all add: accounted_own accounted_other1)
next
  case (confirm F u f g E clock)
  show ?case
    using confirm.hyps confirm.prems [of u] confirm.prems [of x] balanced_fresh [of g u]
    by (cases "x = u") (auto simp: accounted_Some tries_own accounted_other1)
next
  case (charge_one F u f E clock c det)
  show ?case
    using charge_one.hyps charge_one.prems [of x]
    by (cases "x = u") (simp_all add: accounted_charge accounted_other1)
next
  case (wrong F u f clock c E n)
  show ?case
    using wrong.hyps wrong.prems [of x] by (cases "x = u") (simp_all add: accounted_wrong accounted_other1)
next
  case (wrong_locked F u f clock c E det n)
  show ?case
  proof (cases "x = u")
    case True
    have "accounted (F(u \<mapsto> use_charge c f), own_event clock Second_factor_failed u (Some (Totp_count n)) # E) u"
      using wrong_locked by (intro accounted_wrong) simp_all
    then show ?thesis
      using True by (simp add: accounted_idle [where F = "F(u \<mapsto> use_charge c f)"])
  next
    case False
    then show ?thesis using wrong_locked.prems by (simp add: accounted_other2)
  qed
next
  case (right F u f clock c k E det)
  show ?case
    using right.hyps right.prems [of x] by (cases "x = u") (simp_all add: accounted_right accounted_other1)
next
  case (recovery F u f y E clock det)
  show ?case
    using recovery.hyps recovery.prems [of x] by (cases "x = u") (simp_all add: accounted_recovery accounted_other1)
next
  case (unlock F u f y E clock det)
  show ?case
    using unlock.hyps unlock.prems [of x] by (cases "x = u") (simp_all add: accounted_unlock accounted_other2)
qed

lemma admin_steps_accounted:
  "admin_steps C V W \<Longrightarrow> (\<And>u. accounted (ledger_of V) u) \<Longrightarrow> accounted (ledger_of W) u"
proof (induction arbitrary: u rule: admin_steps.induct)
  case (more V W X)
  then show ?case using ledger_step_accounted [OF admin_step_ledger [OF more.hyps(2)]] by blast
qed blast

text \<open>A database in which nobody has enrolled yet.\<close>

definition unenrolled :: "identity \<Rightarrow> bool" where
  "unenrolled V \<longleftrightarrow> ledger_of V = ((\<lambda>_. None), []) \<and> admin_sessions V = []"

lemma unenrolled_accounted: "unenrolled V \<Longrightarrow> accounted (ledger_of V) u"
  by (simp add: unenrolled_def accounted_def tries_def since_issued_def)

section \<open>What is used up stays used up\<close>

text \<open>
  From one state to a later one with no enrolment between: the steps accepted only go up, a used
  recovery code stays used, and a lock with no attempt in flight stays until a recovery code lifts it.
\<close>

definition onward :: "uuid \<Rightarrow> (uuid \<Rightarrow> factor option) \<times> platform_event list \<Rightarrow>
    (uuid \<Rightarrow> factor option) \<times> platform_event list \<Rightarrow> bool" where
  "onward u L M \<longleftrightarrow>
     tally (acted Totp_enrolled u) (snd L) \<le> tally (acted Totp_enrolled u) (snd M) \<and>
     tally (acted Second_factor_unlocked u) (snd L) \<le> tally (acted Second_factor_unlocked u) (snd M) \<and>
     (\<forall>g. fst M u = Some g \<longrightarrow> confirmed_at g \<noteq> None \<longrightarrow>
        tally (acted Totp_enrolled u) (snd M) = tally (acted Totp_enrolled u) (snd L) \<longrightarrow>
        (\<exists>f. fst L u = Some f \<and> confirmed_at f \<noteq> None \<and> last_step f \<le> last_step g \<and>
           set (recovery_code_hashes g) \<subseteq> set (recovery_code_hashes f) \<and>
           (tally (acted Second_factor_unlocked u) (snd M) = tally (acted Second_factor_unlocked u) (snd L) \<longrightarrow>
            10 \<le> failed_attempts f \<longrightarrow> charges f = [] \<longrightarrow> 10 \<le> failed_attempts g \<and> charges g = [])))"

lemma onward_refl [simp]: "onward u L L"
  by (auto simp: onward_def)

lemma onward_trans:
  assumes a: "onward u L M" and b: "onward u M N"
  shows "onward u L N"
  unfolding onward_def
proof (intro conjI allI impI)
  show "tally (acted Totp_enrolled u) (snd L) \<le> tally (acted Totp_enrolled u) (snd N)"
    "tally (acted Second_factor_unlocked u) (snd L) \<le> tally (acted Second_factor_unlocked u) (snd N)"
    using a b by (auto simp: onward_def)
  fix g assume g: "fst N u = Some g" "confirmed_at g \<noteq> None"
    and e: "tally (acted Totp_enrolled u) (snd N) = tally (acted Totp_enrolled u) (snd L)"
  have le: "tally (acted Totp_enrolled u) (snd L) \<le> tally (acted Totp_enrolled u) (snd M)"
    "tally (acted Totp_enrolled u) (snd M) \<le> tally (acted Totp_enrolled u) (snd N)"
    "tally (acted Second_factor_unlocked u) (snd L) \<le> tally (acted Second_factor_unlocked u) (snd M)"
    "tally (acted Second_factor_unlocked u) (snd M) \<le> tally (acted Second_factor_unlocked u) (snd N)"
    using a b by (simp_all add: onward_def)
  have e2: "tally (acted Totp_enrolled u) (snd N) = tally (acted Totp_enrolled u) (snd M)"
    and e1: "tally (acted Totp_enrolled u) (snd M) = tally (acted Totp_enrolled u) (snd L)"
    using e le by simp_all
  obtain m where m: "fst M u = Some m" "confirmed_at m \<noteq> None" "last_step m \<le> last_step g"
    "set (recovery_code_hashes g) \<subseteq> set (recovery_code_hashes m)"
    "tally (acted Second_factor_unlocked u) (snd N) = tally (acted Second_factor_unlocked u) (snd M) \<longrightarrow>
      10 \<le> failed_attempts m \<longrightarrow> charges m = [] \<longrightarrow> 10 \<le> failed_attempts g \<and> charges g = []"
    using b g e2 unfolding onward_def by blast
  obtain f where f: "fst L u = Some f" "confirmed_at f \<noteq> None" "last_step f \<le> last_step m"
    "set (recovery_code_hashes m) \<subseteq> set (recovery_code_hashes f)"
    "tally (acted Second_factor_unlocked u) (snd M) = tally (acted Second_factor_unlocked u) (snd L) \<longrightarrow>
      10 \<le> failed_attempts f \<longrightarrow> charges f = [] \<longrightarrow> 10 \<le> failed_attempts m \<and> charges m = []"
    using a m(1,2) e1 unfolding onward_def by blast
  show "\<exists>f. fst L u = Some f \<and> confirmed_at f \<noteq> None \<and> last_step f \<le> last_step g \<and>
      set (recovery_code_hashes g) \<subseteq> set (recovery_code_hashes f) \<and>
      (tally (acted Second_factor_unlocked u) (snd N) = tally (acted Second_factor_unlocked u) (snd L) \<longrightarrow>
       10 \<le> failed_attempts f \<longrightarrow> charges f = [] \<longrightarrow> 10 \<le> failed_attempts g \<and> charges g = [])"
    using f m le by (intro exI [of _ f]) auto
qed

lemma onward_idle: "idle_for u r \<Longrightarrow> G u = F u \<Longrightarrow> onward u (F, E) (G, r # E)"
  by (auto simp: onward_def idle_acted)

lemma onward_other: "x \<noteq> u \<Longrightarrow> onward x (F, E) (F(u \<mapsto> f), E)"
  by (simp add: onward_def)

lemma onward_other1: "x \<noteq> u \<Longrightarrow> onward x (F, E) (F(u \<mapsto> f), own_event clock a u det # E)"
  by (rule onward_idle) simp_all

lemma onward_other2: "x \<noteq> u \<Longrightarrow>
    onward x (F, E) (F(u \<mapsto> f), own_event clock a u det # own_event clock b u det' # E)"
  by (rule onward_trans [OF onward_other1 onward_idle]) simp_all

lemma factor_progress [simp]:
  "last_step (use_charge c f) = last_step f"
  "last_step (charge_factor clock ch f) = last_step f"
  "last_step (passed_factor c k f) = k"
  "last_step (recovered x f) = last_step f"
  "last_step (lifted clock x f) = last_step f"
  "recovery_code_hashes (use_charge c f) = recovery_code_hashes f"
  "recovery_code_hashes (charge_factor clock ch f) = recovery_code_hashes f"
  "recovery_code_hashes (passed_factor c k f) = recovery_code_hashes f"
  "recovery_code_hashes (recovered x f) = filter (\<lambda>y. y \<noteq> x) (recovery_code_hashes f)"
  "recovery_code_hashes (lifted clock x f) = filter (\<lambda>y. y \<noteq> x) (recovery_code_hashes f)"
  "charges (use_charge c f) = filter (\<lambda>x. Some x \<noteq> c) (charges f)"
  "charges (passed_factor c k f) = filter (\<lambda>x. Some x \<noteq> c) (charges f)"
  "charges (recovered x f) = charges f"
  by (simp_all add: use_charge_def charge_factor_def passed_factor_def recovered_def lifted_def Let_def)

lemma holds_no_charge: "charges f = [] \<Longrightarrow> \<not> holds_charge clock c f"
  by (auto simp: holds_charge_def split: option.splits)

lemma ledger_step_onward: "ledger_step L M \<Longrightarrow> onward x L M"
proof (induction rule: ledger_step.induct)
  case (same F E)
  then show ?case by simp
next
  case (idle r F E)
  then show ?case by (intro onward_idle) simp_all
next
  case (issue u r f F E)
  then show ?case
  proof (cases "x = u")
    case True
    then show ?thesis using issue by (simp add: onward_def acted_def)
  next
    case False
    then have "idle_for x r" using issue by (auto simp: idle_for_def issued_to_def)
    then show ?thesis using False by (intro onward_idle) simp_all
  qed
next
  case (begin_pending F u f E ct p)
  then show ?case
    by (cases "x = u") (simp_all add: onward_other, simp add: onward_def)
next
  case (tried F u f E cs clock det)
  then show ?case
    by (cases "x = u") (simp_all add: onward_other1, simp add: onward_def)
next
  case (refused F u f E c clock det)
  then show ?case
    by (cases "x = u") (simp_all add: onward_other1, simp add: onward_def)
next
  case (confirm F u f g E clock)
  then show ?case
    by (cases "x = u") (simp_all add: onward_other1, simp add: onward_def)
next
  case (charge_one F u f E clock c det)
  then show ?case
    by (cases "x = u") (simp_all add: onward_other1, simp add: onward_def)
next
  case (wrong F u f clock c E n)
  then show ?case
    by (cases "x = u") (simp_all add: onward_other1, simp add: onward_def)
next
  case (wrong_locked F u f clock c E det n)
  then show ?case
    by (cases "x = u") (simp_all add: onward_other2, simp add: onward_def)
next
  case (right F u f clock c k E det)
  then show ?case
    by (cases "x = u") (simp_all add: onward_other1, auto simp: onward_def holds_no_charge)
next
  case (recovery F u f y E clock det)
  then show ?case
    by (cases "x = u") (simp_all add: onward_other1, auto simp: onward_def)
next
  case (unlock F u f y E clock det)
  then show ?case
    by (cases "x = u") (simp_all add: onward_other2, auto simp: onward_def)
qed

lemma admin_steps_onward: "admin_steps C V W \<Longrightarrow> onward u (ledger_of V) (ledger_of W)"
proof (induction rule: admin_steps.induct)
  case (more V W X)
  then show ?case using onward_trans ledger_step_onward [OF admin_step_ledger] by blast
qed simp

lemma onward_confirmed:
  assumes "onward u (ledger_of V) (ledger_of W)" "factors W u = Some g" "confirmed_at g \<noteq> None"
    and "tally (acted Totp_enrolled u) (platform_events W) = tally (acted Totp_enrolled u) (platform_events V)"
  shows "\<exists>f. factors V u = Some f \<and> confirmed_at f \<noteq> None \<and> last_step f \<le> last_step g \<and>
    set (recovery_code_hashes g) \<subseteq> set (recovery_code_hashes f) \<and>
    (tally (acted Second_factor_unlocked u) (platform_events W) =
       tally (acted Second_factor_unlocked u) (platform_events V) \<longrightarrow>
     10 \<le> failed_attempts f \<longrightarrow> charges f = [] \<longrightarrow> 10 \<le> failed_attempts g \<and> charges g = [])"
  using assms unfolding onward_def ledger_of_def fst_conv snd_conv by blast

section \<open>Only a recorded pass opens a session\<close>

definition opened_by :: "uuid \<Rightarrow> platform_event \<Rightarrow> bool" where
  "opened_by u r \<longleftrightarrow> v_actor r = Some u \<and>
     v_action r \<in> {Second_factor_passed, Recovery_code_used, Totp_enrolled}"

definition recorded_in :: "platform_event list \<Rightarrow> admin_session \<Rightarrow> bool" where
  "recorded_in E s \<longleftrightarrow> (case a_second_factor_at s of
     None \<Rightarrow> True
   | Some t \<Rightarrow> list_ex (\<lambda>r. opened_by (a_user s) r \<and> v_at r = t) (since_issued (a_user s) E))"

definition all_recorded :: "identity \<Rightarrow> bool" where
  "all_recorded V \<longleftrightarrow> list_all (\<lambda>s. a_user s \<in> set (admins V) \<and> recorded_in (platform_events V) s)
     (admin_sessions V)"

lemma recorded_more: "recorded_in E s \<Longrightarrow> \<not> issued_to (a_user s) r \<Longrightarrow> recorded_in (r # E) s"
  by (auto simp: recorded_in_def split: option.splits)

lemma all_recorded_sub:
  "all_recorded V \<Longrightarrow> platform_events W = platform_events V \<Longrightarrow> set (admins V) \<subseteq> set (admins W) \<Longrightarrow>
   set (admin_sessions W) \<subseteq> set (admin_sessions V) \<Longrightarrow> all_recorded W"
  by (auto simp: all_recorded_def list_all_iff)

lemma all_recorded_put [simp]: "all_recorded (put_factor u f V) \<longleftrightarrow> all_recorded V"
  by (simp add: all_recorded_def)

lemma not_issued_own [simp]: "\<not> issued_to x (own_event clock a u det)"
  by (simp add: issued_to_def own_event_def)

lemma all_recorded_event:
  "all_recorded V \<Longrightarrow> all_recorded (add_event clock a (Some u) None det V)"
  by (auto simp: all_recorded_def list_all_iff intro: recorded_more)

lemma recorded_touch [simp]: "recorded_in E (s\<lparr>a_last_seen_at := t\<rparr>) \<longleftrightarrow> recorded_in E s"
  by (simp add: recorded_in_def split: option.splits)

lemma recorded_now:
  "a \<in> {Second_factor_passed, Recovery_code_used, Totp_enrolled} \<Longrightarrow> a_user s = u \<Longrightarrow>
   recorded_in (own_event clock a u det # E) (s\<lparr>a_second_factor_at := Some clock\<rparr>)"
  by (auto simp: recorded_in_def opened_by_def)

lemma all_recorded_resolve:
  assumes "all_recorded V"
  shows "all_recorded (snd (resolve_admin_session clock h V))"
  using assms by (auto simp: all_recorded_def list_all_iff resolve_admin_session_def)

lemma all_recorded_resolved: "all_recorded V \<Longrightarrow> all_recorded (snd (resolved clock h V))"
  using all_recorded_resolve [of V clock h]
  by (cases "resolve_admin_session clock h V") (auto simp: resolved_def split: option.splits)

lemma all_recorded_pass:
  assumes v: "all_recorded V" and h: "speaks_for h u V"
    and a: "a \<in> {Second_factor_passed, Recovery_code_used, Totp_enrolled}"
  shows "all_recorded (add_event clock a (Some u) None det (pass_session clock h V))"
  unfolding all_recorded_def list_all_iff
proof
  fix s assume "s \<in> set (admin_sessions (add_event clock a (Some u) None det (pass_session clock h V)))"
  then obtain s0 where s0: "s0 \<in> set (admin_sessions V)"
    and s: "s = (if a_hash s0 = h then s0\<lparr>a_second_factor_at := Some clock\<rparr> else s0)"
    by (auto simp: pass_session_def)
  have old: "a_user s0 \<in> set (admins V)" "recorded_in (platform_events V) s0"
    using v s0 by (auto simp: all_recorded_def list_all_iff)
  have "a_hash s0 = h \<Longrightarrow> a_user s0 = u"
    using h s0 by (auto simp: speaks_for_def list_all_iff)
  then show "a_user s \<in> set (admins (add_event clock a (Some u) None det (pass_session clock h V))) \<and>
      recorded_in (platform_events (add_event clock a (Some u) None det (pass_session clock h V))) s"
    using s old recorded_more [OF old(2) not_issued_own] recorded_now [OF a] by auto
qed

lemma speaks_for_put [simp]: "speaks_for h u (put_factor x f V) \<longleftrightarrow> speaks_for h u V"
  by (simp add: speaks_for_def)

lemma all_recorded_charge:
  "charge_attempt C clock h u c V = Inr (r, W) \<Longrightarrow> all_recorded V \<Longrightarrow> all_recorded W"
  by (auto simp: charge_attempt_def charge_second_factor_def Let_def all_recorded_event
      split: sum.splits option.splits prod.splits if_splits)

lemma all_recorded_check:
  assumes "speaks_for h u V" "check_attempt C clock h u n c sec step V = (r, W)" "all_recorded V"
  shows "all_recorded W"
proof -
  obtain o' n' V1 where k: "check_second_factor C clock h c (totp_proof C sec) step V = ((o', n'), V1)"
    by (metis prod.exhaust_sel)
  show ?thesis
  proof (cases o')
    case Passed
    then obtain u' f' where V1: "V1 = pass_session clock h (put_factor u' f' V)"
      using k by (auto simp: check_second_factor_def split: option.splits prod.splits if_splits)
    have "W = snd (resolved clock h (add_event clock Second_factor_passed (Some u) None (Some (Totp_passed n')) V1))"
      using assms(2) k Passed by (simp add: check_attempt_def)
    then show ?thesis
      unfolding V1 using assms by (simp add: all_recorded_resolved all_recorded_pass)
  next
    case Failed
    then have "all_recorded V1"
      using k assms(3) by (auto simp: check_second_factor_def split: option.splits prod.splits if_splits)
    then show ?thesis
      using assms(2) k Failed by (auto simp: check_attempt_def Let_def all_recorded_event split: if_splits)
  next
    case Void
    then have "V1 = V"
      using k by (auto simp: check_second_factor_def split: option.splits prod.splits if_splits)
    then show ?thesis
      using assms k Void by (auto simp: check_attempt_def)
  qed
qed

lemma all_recorded_recovery:
  assumes "speaks_for h u V" "recovery_attempt C clock h u typed V = (r, W)" "all_recorded V"
  shows "all_recorded W"
proof (cases "use_recovery_code C clock h (totp_proof C typed) V")
  case (Pair got V1)
  show ?thesis
  proof (cases got)
    case None
    then have "V1 = V"
      using Pair by (auto simp: use_recovery_code_def Let_def split: option.splits prod.splits if_splits)
    then show ?thesis
      using assms Pair None by (auto simp: recovery_attempt_def all_recorded_event)
  next
    case (Some y)
    obtain k lock where y: "y = (k, lock)" by (cases y)
    obtain u' f' where V1: "V1 = pass_session clock h (put_factor u' f' V)"
      using Pair Some by (auto simp: use_recovery_code_def Let_def split: option.splits prod.splits if_splits)
    let ?V2 = "add_event clock Recovery_code_used (Some u) None (Some (Codes_left k)) V1"
    have "all_recorded ?V2"
      unfolding V1 using assms by (simp add: all_recorded_pass)
    then have "all_recorded (snd (resolved clock h (if lock
        then add_event clock Second_factor_unlocked (Some u) None None ?V2 else ?V2)))"
      by (simp add: all_recorded_resolved all_recorded_event)
    moreover have "W = snd (resolved clock h (if lock
        then add_event clock Second_factor_unlocked (Some u) None None ?V2 else ?V2))"
      using assms(2) Pair Some y by (simp add: recovery_attempt_def Let_def)
    ultimately show ?thesis by simp
  qed
qed

lemma all_recorded_begin:
  "begin_attempt C clock h u ticket sec nonce V = (r, W) \<Longrightarrow> all_recorded V \<Longrightarrow> all_recorded W"
  by (auto simp: begin_attempt_def begin_totp_enrolment_def all_recorded_event
      split: option.splits prod.splits if_splits)

lemma all_recorded_charge_confirm:
  "charge_confirm C clock h u c V = Inr (r, W) \<Longrightarrow> all_recorded V \<Longrightarrow> all_recorded W"
  by (auto simp: charge_confirm_def charge_totp_enrolment_def all_recorded_event
      split: sum.splits option.splits prod.splits if_splits)

lemma all_recorded_check_confirm:
  assumes "speaks_for h u V" "check_confirm C clock h u n c sec step codes V = Inr (r, W)" "all_recorded V"
  shows "all_recorded W"
proof -
  let ?codes = "map (\<lambda>k. totp_proof C (normalise k)) codes"
  obtain o' n' V1 where k: "check_totp_enrolment C clock h c (totp_proof C sec) step ?codes V = Inr ((o', n'), V1)"
    using assms(2) by (auto simp: check_confirm_def split: sum.splits)
  show ?thesis
  proof (cases o')
    case Passed
    then obtain u' f' where V1: "V1 = pass_session clock h ((put_factor u' f' V)
        \<lparr>admin_sessions := filter (\<lambda>s. a_user s \<noteq> u' \<or> a_hash s = h) (admin_sessions V)\<rparr>)"
      using k by (auto simp: check_totp_enrolment_def split: option.splits prod.splits if_splits)
    let ?X = "(put_factor u' f' V)\<lparr>admin_sessions := filter (\<lambda>s. a_user s \<noteq> u' \<or> a_hash s = h) (admin_sessions V)\<rparr>"
    have "all_recorded ?X"
      using assms(3) by (rule all_recorded_sub) auto
    moreover have "speaks_for h u ?X"
      using assms(1) by (auto simp: speaks_for_def list_all_iff)
    moreover have "W = add_event clock Totp_enrolled (Some u) None None V1"
      using assms(2) k Passed by (simp add: check_confirm_def)
    ultimately show ?thesis
      unfolding V1 by (simp add: all_recorded_pass)
  next
    case Failed
    then have "all_recorded V1"
      using k assms(3) by (auto simp: check_totp_enrolment_def split: option.splits prod.splits if_splits)
    then show ?thesis
      using assms(2) k Failed by (auto simp: check_confirm_def all_recorded_event)
  next
    case Void
    then have "V1 = V"
      using k by (auto simp: check_totp_enrolment_def split: option.splits prod.splits if_splits)
    then show ?thesis
      using assms k Void by (auto simp: check_confirm_def)
  qed
qed

lemma all_recorded_end: "all_recorded V \<Longrightarrow> all_recorded (snd (end_admin_session h V))"
  by (rule all_recorded_sub [of V]) (auto simp: end_admin_session_def)

lemma all_recorded_idle:
  "all_recorded V \<Longrightarrow> (\<And>u. \<not> issued_to u r) \<Longrightarrow> platform_events W = r # platform_events V \<Longrightarrow>
   set (admins V) \<subseteq> set (admins W) \<Longrightarrow> set (admin_sessions W) \<subseteq> set (admin_sessions V) \<Longrightarrow> all_recorded W"
  unfolding all_recorded_def list_all_iff by (metis recorded_more subsetD)

lemma start_admin_session_cases:
  assumes "start_admin_session clock kept user hash id_hash V = Inr (began, W)"
  shows "if began then \<exists>u. user = Some u \<and> u \<in> set (admins V) \<and> platform_events W = platform_events V \<and>
      admins W = admins V \<and> set (admin_sessions W) \<subseteq> insert \<lparr>a_hash = id_hash, a_user = u,
        a_expires_at = clock + ADMIN_ABSOLUTE, a_last_seen_at = clock, a_second_factor_at = None\<rparr> (set (admin_sessions V))
    else W = V"
  using assms by (auto simp: start_admin_session_def split: option.splits if_splits)

lemma all_recorded_start:
  assumes "admin_start C clock kept user hash id_hash old V = Inr (r, W)" "all_recorded V"
  shows "all_recorded W"
proof -
  obtain began V1 where b: "start_admin_session clock kept user hash id_hash V = Inr (began, V1)"
    using assms(1) by (cases "start_admin_session clock kept user hash id_hash V") (auto simp: admin_start_def)
  note c = start_admin_session_cases [OF b]
  show ?thesis
  proof (cases began)
    case False
    have w: "W = add_event clock Admin_sign_in_failed None (map_option Of_user user) None V"
      using assms(1) b c False by (simp add: admin_start_def)
    show ?thesis
      by (rule all_recorded_idle [OF assms(2), where r = "\<lparr>v_at = clock, v_actor = None,
        v_action = Admin_sign_in_failed, v_tenant = None, v_target = map_option Of_user user,
        v_reason = None, v_details = None\<rparr>"]) (simp_all add: w add_event_def issued_to_def)
  next
    case True
    then obtain u where u: "user = Some u" "u \<in> set (admins V)" "platform_events V1 = platform_events V"
      "admins V1 = admins V" "set (admin_sessions V1) \<subseteq> insert \<lparr>a_hash = id_hash, a_user = u,
        a_expires_at = clock + ADMIN_ABSOLUTE, a_last_seen_at = clock, a_second_factor_at = None\<rparr> (set (admin_sessions V))"
      using c by auto
    have one: "all_recorded V1"
      unfolding all_recorded_def list_all_iff
    proof
      fix s assume "s \<in> set (admin_sessions V1)"
      then show "a_user s \<in> set (admins V1) \<and> recorded_in (platform_events V1) s"
        using u assms(2) by (auto simp: all_recorded_def list_all_iff recorded_in_def)
    qed
    define V2 where "V2 = (case old of None \<Rightarrow> V1 | Some k \<Rightarrow>
      if k = [] then V1 else snd (end_admin_session (sha256 C k) V1))"
    have two: "all_recorded V2"
      unfolding V2_def using one by (cases old) (simp_all add: all_recorded_end)
    have "W = snd (resolve_admin_session clock id_hash (add_event clock Admin_signed_in (Some u) None None V2))"
      using assms(1) b True u(1)
      by (cases "resolve_admin_session clock id_hash (add_event clock Admin_signed_in (Some u) None None V2)")
        (auto simp: admin_start_def V2_def [symmetric] split: option.splits)
    then show ?thesis
      using two by (simp only: all_recorded_resolve all_recorded_event)
  qed
qed

lemma all_recorded_enrol:
  assumes "enrol C clock terminal email reason ticket V = Inr (r, W)" "all_recorded V"
  shows "all_recorded W"
proof (cases "W = V")
  case True
  then show ?thesis using assms(2) by simp
next
  case False
  then obtain u where u: "accounts V email = Some u"
    using assms by (auto simp: enrol_def split: if_splits option.splits)
  let ?V1 = "ISSUE_TICKET C clock u (totp_proof C (normalise ticket)) V"
  let ?V2 = "?V1\<lparr>admin_sessions := filter (\<lambda>s. a_user s \<noteq> u) (admin_sessions ?V1)\<rparr>"
  have a: "add_command clock Totp_enrolment_issued u reason ?V2 = Inr W"
    using assms False u by (auto simp: enrol_def Let_def split: if_splits sum.splits)
  obtain e where e: "ledger_of W = (factors ?V2, e # platform_events ?V2)" "v_target e = Some (Of_user u)"
    "admins W = admins ?V2" "admin_sessions W = admin_sessions ?V2"
    using add_command_Inr [OF a] by blast
  have "platform_events W = e # platform_events V" using e by (simp add: ledger_of_def ISSUE_TICKET_def)
  then show ?thesis
    using assms(2) e by (auto simp: all_recorded_def list_all_iff ISSUE_TICKET_def issued_to_def
        intro!: recorded_more)
qed

lemma all_recorded_command:
  assumes "map_sum id (Pair k) (add_command clock a u reason V) = Inr (r, W)"
    and "all_recorded V" "a \<noteq> Totp_enrolment_issued"
  shows "all_recorded W"
proof -
  have c: "add_command clock a u reason V = Inr W"
    using assms(1) by (cases "add_command clock a u reason V") auto
  obtain e where e: "ledger_of W = (factors V, e # platform_events V)" "v_action e = a"
    "admins W = admins V" "admin_sessions W = admin_sessions V"
    using add_command_Inr [OF c] by blast
  show ?thesis
    using assms e by (intro all_recorded_idle [of V e W]) (auto simp: ledger_of_def issued_to_def)
qed

lemma all_recorded_grant:
  assumes "grant_admin clock email reason V = Inr (r, W)" "all_recorded V"
  shows "all_recorded W"
proof (cases "admin_sessions W = admin_sessions V \<and> platform_events W = platform_events V \<and> admins W = admins V")
  case True
  then show ?thesis using assms(2) by (simp add: all_recorded_def)
next
  case False
  then obtain u where u: "accounts V email = Some u"
    using assms by (auto simp: grant_admin_def split: if_splits option.splits)
  let ?X = "V\<lparr>account_sessions := filter (\<lambda>s. p_user s \<noteq> u) (account_sessions V), admins := admins V @ [u]\<rparr>"
  have "map_sum id (Pair 0) (add_command clock Admin_granted u reason ?X) = Inr (r, W)"
    using assms u False by (auto simp: grant_admin_def Let_def split: if_splits)
  moreover have "all_recorded ?X" using assms(2) by (auto simp: all_recorded_def list_all_iff)
  ultimately show ?thesis by (rule all_recorded_command) simp_all
qed

lemma all_recorded_revoke:
  assumes "revoke_admin clock email reason V = Inr (r, W)" "all_recorded V"
  shows "all_recorded W"
proof (cases "W = V")
  case True
  then show ?thesis using assms(2) by simp
next
  case False
  then obtain u where u: "accounts V email = Some u"
    using assms by (auto simp: revoke_admin_def split: if_splits option.splits)
  let ?X = "V\<lparr>admins := removeAll u (admins V), admin_sessions := filter (\<lambda>s. a_user s \<noteq> u) (admin_sessions V)\<rparr>"
  have "map_sum id (Pair 0) (add_command clock Admin_revoked u reason ?X) = Inr (r, W)"
    using assms u False by (auto simp: revoke_admin_def split: if_splits)
  moreover have "all_recorded ?X" using assms(2) by (auto simp: all_recorded_def list_all_iff)
  ultimately show ?thesis by (rule all_recorded_command) simp_all
qed

lemma all_recorded_sign_out: "all_recorded V \<Longrightarrow> all_recorded (admin_sign_out clock h V)"
  using all_recorded_end [of V h]
  by (cases "end_admin_session h V") (auto simp: admin_sign_out_def all_recorded_event split: option.splits)

lemma all_recorded_read:
  "business clock tenants u t target V = Inr W \<Longrightarrow> all_recorded V \<Longrightarrow> all_recorded W"
  by (rule all_recorded_idle [of V "\<lparr>v_at = clock, v_actor = Some u, v_action = Business_read,
    v_tenant = Some t, v_target = Some (Of_business target), v_reason = None, v_details = None\<rparr>"])
    (auto simp: business_def issued_to_def split: if_splits)

lemma admin_step_recorded: "admin_step C V W \<Longrightarrow> all_recorded V \<Longrightarrow> all_recorded W"
proof (induction rule: admin_step.induct)
  case (charges h u V clock c r W)
  then show ?case by (blast intro: all_recorded_charge)
next
  case (checks h u V clock n c s step r W)
  then show ?case by (blast intro: all_recorded_check)
next
  case (recovers h u V clock typed r W)
  then show ?case by (blast intro: all_recorded_recovery)
next
  case (begins h u V clock ticket s nonce r W)
  then show ?case by (blast intro: all_recorded_begin)
next
  case (charges_confirm h u V clock c r W)
  then show ?case by (blast intro: all_recorded_charge_confirm)
next
  case (checks_confirm h u V clock n c s step codes r W)
  then show ?case by (blast intro: all_recorded_check_confirm)
next
  case (resolves V clock h)
  then show ?case by (simp add: all_recorded_resolve)
next
  case (elsewhere V W)
  then show ?case by (auto simp: fewer_sessions_def intro: all_recorded_sub)
qed (blast intro: all_recorded_start all_recorded_sign_out all_recorded_read all_recorded_enrol
    all_recorded_grant all_recorded_revoke)+

lemma admin_steps_recorded: "admin_steps C V W \<Longrightarrow> all_recorded V \<Longrightarrow> all_recorded W"
  by (induction rule: admin_steps.induct) (auto intro: admin_step_recorded)

lemma unenrolled_recorded: "unenrolled V \<Longrightarrow> all_recorded V"
  by (simp add: unenrolled_def all_recorded_def)

lemma resolved_session:
  assumes "resolve_admin_session clock h V = (Some w, W)"
  shows "\<exists>s \<in> set (admin_sessions V). w_user w = a_user s \<and> a_hash s = h \<and> clock < a_expires_at s \<and>
    (factor_passed w \<longleftrightarrow> a_second_factor_at s \<noteq> None) \<and>
    (factor_fresh w \<longrightarrow> (\<exists>t. a_second_factor_at s = Some t \<and> clock - FRESH < t))"
proof -
  obtain s where s: "first_row (filter (admin_live clock h) (admin_sessions V)) = Some s" "w = admin_view_of clock V s"
    using assms by (auto simp: resolve_admin_session_def)
  have m: "s \<in> set (admin_sessions V) \<and> admin_live clock h s"
    using first_row_filterD [OF s(1)] .
  show ?thesis
    by (rule bexI [of _ s]) (use m s(2) in \<open>auto simp: admin_view_of_def admin_live_def split: option.splits\<close>)
qed

section \<open>The right code\<close>

lemma matching_step_Some:
  "matching_step C secret typed clock = Some k \<Longrightarrow>
   code_of C secret k = typed \<and> in_step_window clock k"
  by (auto simp: matching_step_def in_step_window_def split: if_splits dest!: first_row_filterD)

lemma matching_step_None:
  "matching_step C secret typed clock = None \<longleftrightarrow>
   \<not> isascii typed \<or> (\<forall>k. in_step_window clock k \<longrightarrow> code_of C secret k \<noteq> typed)"
proof -
  have "in_step_window clock k \<longleftrightarrow> k \<in> {step_at clock - 1, step_at clock, step_at clock + 1}" for k
    by (auto simp: in_step_window_def)
  then show ?thesis by (auto simp: matching_step_def filter_empty_conv)
qed

text \<open>Six digits, whatever the digest.\<close>

lemma decimal_length: "n < 10 ^ Suc k \<Longrightarrow> length (decimal n) \<le> Suc k"
proof (induction k arbitrary: n)
  case 0
  then show ?case by (simp add: decimal.simps [of n])
next
  case (Suc k)
  then have "n div 10 < 10 ^ Suc k" by (simp add: div_less_iff_less_mult)
  then show ?case using Suc.IH [of "n div 10"] by (subst decimal.simps) simp
qed

lemma decimal_digits: "list_all (\<lambda>c. 48 \<le> (of_char c :: nat) \<and> (of_char c :: nat) \<le> 57) (decimal n)"
proof (induction n rule: decimal.induct)
  case (1 n)
  show ?case
  proof (cases "n < 10")
    case True
    then show ?thesis by (subst decimal.simps) simp
  next
    case False
    have "n mod 10 < 10" by simp
    then have "(48 + n mod 10) mod 256 = 48 + n mod 10" by simp
    then show ?thesis
      using 1 False \<open>n mod 10 < 10\<close> by (subst decimal.simps) simp
  qed
qed

lemma TOTP_CODE_zfill:
  assumes "n < 10 ^ Suc 5"
  shows "TOTP_CODE (zfill 6 (decimal n))"
  using decimal_length [OF assms] decimal_digits [of n]
  by (auto simp: TOTP_CODE_def zfill_def list_all_iff)

lemma TOTP_CODE_code_of: "TOTP_CODE (code_of C secret step)"
  unfolding code_of_def Let_def by (rule TOTP_CODE_zfill) (simp add: nat_less_iff)

text \<open>A ticket or recovery code is read back as the letters it was made of, dashes and all.\<close>

lemma normalise_append [simp]: "normalise (a @ b) = normalise a @ normalise b"
  by (simp add: normalise_def)

lemma normalise_dash [simp]: "normalise (CHR ''-'' # b) = normalise b"
  by (simp add: normalise_def capitals_def)

lemma normalise_letters: "set s \<subseteq> set ALPHABET \<Longrightarrow> normalise s = s"
proof (induction s)
  case (Cons c s)
  have "list_all (\<lambda>c. capitals c = [c] \<and> c \<noteq> CHR '' '' \<and> c \<noteq> CHR ''-'') ALPHABET" by code_simp
  then have "capitals c = [c] \<and> c \<noteq> CHR '' '' \<and> c \<noteq> CHR ''-''"
    using Cons.prems by (auto simp: list_all_iff)
  then show ?case using Cons by (simp add: normalise_def)
qed (simp add: normalise_def)

lemma b32encode_letters: "set (b32encode raw) \<subseteq> set ALPHABET"
proof -
  have "nat (k mod 32) < length ALPHABET" for k by (simp add: ALPHABET_def nat_less_iff)
  then show ?thesis by (auto simp: b32encode_def intro: nth_mem)
qed

lemma normalise_new_code:
  assumes "length raw = 10"
  shows "normalise (new_code raw) = b32encode raw"
proof -
  let ?c = "b32encode raw"
  have n: "length ?c = 16" using assms by (simp add: b32encode_def)
  have piece: "normalise (take 4 (drop i ?c)) = take 4 (drop i ?c)" for i
    by (rule normalise_letters) (use b32encode_letters [of raw] set_take_subset set_drop_subset in fastforce)
  have "normalise (new_code raw) = take 4 ?c @ take 4 (drop 4 ?c) @ take 4 (drop 8 ?c) @ take 4 (drop 12 ?c)"
    using piece [of 0] piece [of 4] piece [of 8] piece [of 12] by (simp add: new_code_def Let_def)
  also have "take 4 (drop 12 ?c) = drop 12 ?c" using n by simp
  also have "take 4 (drop 8 ?c) @ drop 12 ?c = drop 8 ?c"
    using append_take_drop_id [of 4 "drop 8 ?c"] by simp
  also have "take 4 (drop 4 ?c) @ drop 8 ?c = drop 4 ?c"
    using append_take_drop_id [of 4 "drop 4 ?c"] by simp
  finally show ?thesis by simp
qed

text \<open>A sealed secret opens again, for its own user.\<close>

lemma decrypt_encrypt:
  assumes "length nonce = NONCE" "unseal C nonce (seal C nonce secret (user_bytes u)) (user_bytes u) = Some secret"
  shows "decrypt C (encrypt C nonce secret u) u = Some secret"
  using assms by (simp add: decrypt_def encrypt_def VERSION_def)

lemma live_passed_session:
  assumes "live_admin_user clock h V = Some u"
  shows "\<exists>w W. resolve_admin_session clock h (add_event clock' a (Some x) None det
      (pass_session clock h (put_factor u f V))) = (Some w, W) \<and> factor_passed w \<and> factor_fresh w"
proof -
  obtain s where s: "first_row (filter (admin_live clock h) (admin_sessions V)) = Some s"
    using assms by (auto simp: live_admin_user_def)
  have e: "filter (admin_live clock h) (update_where (\<lambda>s. a_hash s = h) (\<lambda>s. s\<lparr>a_second_factor_at := Some clock\<rparr>) xs) =
      map (\<lambda>s. s\<lparr>a_second_factor_at := Some clock\<rparr>) (filter (admin_live clock h) xs)" for xs
    by (induction xs) (auto simp: admin_live_def)
  have m: "first_row (map g xs) = map_option g (first_row xs)" for g :: "admin_session \<Rightarrow> admin_session" and xs
    by (cases xs) auto
  show ?thesis
    using s by (simp add: resolve_admin_session_def pass_session_def e m admin_view_of_def FRESH_def)
qed

lemma confirmed_factorI:
  "live_admin_user clock h V = Some u \<Longrightarrow> factors V u = Some f \<Longrightarrow> confirmed_at f \<noteq> None \<Longrightarrow>
   confirmed_factor clock h V = Some (u, f)"
  by (simp add: confirmed_factor_def factor_at_def)

lemma live_after_charge:
  "live_admin_user clock h (add_event clock' a x t det (put_factor u f V)) = live_admin_user clock h V"
  by (simp add: live_admin_user_def)

section \<open>The properties\<close>

section \<open>A sample admin\<close>

text \<open>Sealing adds nothing, a digest is its text, and the code of a step is the step's last six digits.\<close>

definition sample_crypto :: crypto where
  "sample_crypto = \<lparr>sha256 = (\<lambda>x. x), hmac_sha1 = (\<lambda>s m. drop 4 m @ replicate 16 (CHR 0x00)),
     seal = (\<lambda>n s a. s), unseal = (\<lambda>n c a. Some c), key_set = True\<rparr>"

definition admin0 :: identity where
  "admin0 = new_identity\<lparr>accounts := (\<lambda>e. if e = ''a@b.c'' then Some 7 else None),
     password_of := (\<lambda>u. if u = 7 then Some ''hash'' else None), admins := [7]\<rparr>"

definition state_of :: "(api_error + ('a \<times> identity)) \<Rightarrow> identity" where
  "state_of r = (case r of Inl _ \<Rightarrow> new_identity | Inr (_, W) \<Rightarrow> W)"

lemma step_state:
  "(\<And>r W. x = Inr (r, W) \<Longrightarrow> admin_step C V W) \<Longrightarrow> \<not> isl x \<Longrightarrow> admin_step C V (state_of x)"
  by (cases x) (auto simp: state_of_def)

definition sample_codes :: "string list" where
  "sample_codes = map (\<lambda>i. [CHR ''A'', char_of (66 + i :: nat)]) [0..<10]"

definition admin1 :: identity where
  "admin1 = state_of (enrol sample_crypto 0 True ''a@b.c'' ''new phone'' ''TICK'' admin0)"
definition admin2 :: identity where
  "admin2 = state_of (admin_start sample_crypto minute_us (\<lambda>_. False) (Some 7) (Some ''hash'') ''h'' None admin1)"
definition admin3 :: identity where
  "admin3 = snd (begin_attempt sample_crypto (2 * minute_us) ''h'' 7 ''tick'' ''secret'' ''nonce12bytes'' admin2)"
definition admin4 :: identity where
  "admin4 = state_of (charge_confirm sample_crypto (3 * minute_us) ''h'' 7 (3 * minute_us, 1) admin3)"
definition admin5 :: identity where
  "admin5 = state_of (check_confirm sample_crypto (3 * minute_us) ''h'' 7 1 (Some (3 * minute_us, 1)) ''secret''
     (Some 6) sample_codes admin4)"
definition admin6 :: identity where
  "admin6 = state_of (charge_attempt sample_crypto (4 * minute_us) ''h'' 7 (4 * minute_us, 2) admin5)"
definition admin7 :: identity where
  "admin7 = snd (check_attempt sample_crypto (4 * minute_us) ''h'' 7 1 (Some (4 * minute_us, 2)) ''secret'' None admin6)"

definition admin8 :: identity where
  "admin8 = snd (check_attempt sample_crypto (4 * minute_us) ''h'' 7 1 (Some (4 * minute_us, 2)) ''secret'' (Some 8) admin6)"
definition admin9 :: identity where
  "admin9 = state_of (charge_attempt sample_crypto (4 * minute_us) ''h'' 7 (4 * minute_us, 3) admin8)"
definition admin10 :: identity where
  "admin10 = snd (recovery_attempt sample_crypto (4 * minute_us) ''h'' 7 ''AB'' admin5)"
definition locked_admin :: identity where
  "locked_admin = put_factor 7 ((the (factors admin5 7))\<lparr>failed_attempts := 10\<rparr>) admin5"

lemma unenrolled_admin0: "unenrolled admin0"
  by (simp add: unenrolled_def ledger_of_def admin0_def new_identity_def)

lemma steps_admin3: "admin_steps sample_crypto admin0 admin3"
proof -
  have "admin_step sample_crypto admin0 admin1"
    unfolding admin1_def by (rule step_state, erule admin_step.enrols, code_simp)
  moreover have "admin_step sample_crypto admin1 admin2"
    unfolding admin2_def by (rule step_state, erule admin_step.starts, code_simp)
  moreover have "admin_step sample_crypto admin2 admin3"
    unfolding admin3_def by (rule admin_step.begins [OF _ surjective_pairing]) code_simp
  ultimately show ?thesis by (intro admin_steps.more [OF admin_steps.more [OF admin_steps.more [OF admin_steps.none]]])
qed

lemma steps_admin5: "admin_steps sample_crypto admin0 admin5"
proof -
  have "admin_step sample_crypto admin3 admin4"
    unfolding admin4_def by (rule step_state, erule admin_step.charges_confirm [rotated], code_simp, code_simp)
  moreover have "admin_step sample_crypto admin4 admin5"
    unfolding admin5_def by (rule step_state, erule admin_step.checks_confirm [rotated], code_simp, code_simp)
  ultimately show ?thesis by (intro admin_steps.more [OF admin_steps.more [OF steps_admin3]])
qed

lemma steps_admin7: "admin_steps sample_crypto admin5 admin7"
proof -
  have "admin_step sample_crypto admin5 admin6"
    unfolding admin6_def by (rule step_state, erule admin_step.charges [rotated], code_simp, code_simp)
  moreover have "admin_step sample_crypto admin6 admin7"
    unfolding admin7_def by (rule admin_step.checks [OF _ surjective_pairing]) code_simp
  ultimately show ?thesis by (intro admin_steps.more [OF admin_steps.more [OF admin_steps.none]])
qed

lemma admin_steps_trans: "admin_steps C W X \<Longrightarrow> admin_steps C V W \<Longrightarrow> admin_steps C V X"
  by (induction rule: admin_steps.induct) (auto intro: admin_steps.more)

text \<open>
  Whatever order requests run in and wherever they are cut off, since an admin enrolled the codes
  looked at and found wrong are at most the attempts counted and not given back by a pass, and those
  are at most ten, plus one for every lock a recovery code lifted (ten at most), plus one for every
  eight hours since the first of those events. Of one enrolment ticket, ten codes are tried at most.
\<close>



text \<open>A code from the app opens a session once: no step is accepted again until a new enrolment.\<close>

text \<open>
  C13: A code of the authenticator app opens a session once: in no later history without a new
  enrolment is its step, or an earlier one, accepted again, from any session of the admin.
\<close>

theorem totp_code_opens_once:
  assumes "speaks_for h u V" "check_attempt C clock h u n c s (Some k) V = (Inr w, W)"
    and "admin_steps C W X"
    and "tally (acted Totp_enrolled u) (platform_events X) = tally (acted Totp_enrolled u) (platform_events W)"
    and "speaks_for h' u X" "k' \<le> k"
  shows "isl (fst (check_attempt C clock' h' u n' c' s' (Some k') X))"
proof (rule ccontr)
  assume no: "\<not> isl (fst (check_attempt C clock' h' u n' c' s' (Some k') X))"
  obtain g where g: "confirmed_factor clock' h' X = Some (u, g)" "factors X u = Some g" "confirmed_at g \<noteq> None"
    "last_step g < k'"
  proof (cases "confirmed_factor clock' h' X")
    case None
    then show thesis using no by (simp add: check_attempt_def check_second_factor_def)
  next
    case (Some y)
    obtain z g where y: "y = (z, g)" by (cases y)
    have z: "z = u \<and> factors X u = Some g \<and> confirmed_at g \<noteq> None"
      using confirmed_SomeD [OF assms(5)] Some y by blast
    show thesis
      by (rule that [of g]) (use no Some y z in \<open>auto simp: check_attempt_def check_second_factor_def
        right_code_def Let_def split: if_splits\<close>)
  qed
  obtain f where f: "confirmed_factor clock h V = Some (u, f)" "factors W u = Some (passed_factor c k f)"
  proof (cases "confirmed_factor clock h V")
    case None
    then show thesis using assms(2) by (simp add: check_attempt_def check_second_factor_def)
  next
    case (Some y)
    obtain z f where y: "y = (z, f)" by (cases y)
    have z: "z = u" using confirmed_SomeD [OF assms(1)] Some y by blast
    have r: "holds_charge clock c f \<and> right_code C clock (totp_proof C s) (Some k) f"
      using assms(2) Some y by (auto simp: check_attempt_def check_second_factor_def Let_def split: if_splits)
    have "factors W = factors (snd (resolved clock h (add_event clock Second_factor_passed (Some u) None
        (Some (Totp_passed (max (failures_since_pass f - 1) 0)))
        (pass_session clock h (put_factor u (passed_factor c k f) V)))))"
      using assms(2) Some y z r by (simp add: check_attempt_def check_second_factor_def passed_factor_def)
    also have "\<dots> = (factors V)(u \<mapsto> passed_factor c k f)"
      using resolved_ledger [of clock h "add_event clock Second_factor_passed (Some u) None
        (Some (Totp_passed (max (failures_since_pass f - 1) 0)))
        (pass_session clock h (put_factor u (passed_factor c k f) V))"] by (simp add: ledger_of_def)
    finally show thesis using that Some y z by simp
  qed
  have "last_step (passed_factor c k f) \<le> last_step g"
    using onward_confirmed [OF admin_steps_onward [OF assms(3)] g(2,3) assms(4)] f(2) by auto
  then show False using g(4) assms(6) by simp
qed

theorem totp_code_opens_once_witness:
  "isl (fst (check_attempt sample_crypto (4 * minute_us) ''h'' 7 2 (Some (4 * minute_us, 3)) ''secret'' (Some 8) admin9))"
proof -
  have "admin_step sample_crypto admin8 admin9"
    unfolding admin9_def by (rule step_state, erule admin_step.charges [rotated], code_simp, code_simp)
  then have st: "admin_steps sample_crypto admin8 admin9"
    by (rule admin_steps.more [OF admin_steps.none])
  have ok: "check_attempt sample_crypto (4 * minute_us) ''h'' 7 1 (Some (4 * minute_us, 2)) ''secret'' (Some 8) admin6
      = (Inr \<lparr>w_user = 7, factor_passed = True, factor_fresh = True, enrolled = True\<rparr>, admin8)"
    unfolding admin8_def by (rule prod_eqI) (simp_all, code_simp)
  show ?thesis
    by (rule totp_code_opens_once [OF _ ok st]) code_simp+
qed

text \<open>A recovery code opens a session once, until a new enrolment.\<close>

text \<open>
  A recovery code opens a session once: in no later history without a new enrolment is it
  accepted again.
\<close>

lemma recovery_code_opens_once:
  assumes "speaks_for h u V" "recovery_attempt C clock h u typed V = (Inr w, W)"
    and "admin_steps C W X"
    and "tally (acted Totp_enrolled u) (platform_events X) = tally (acted Totp_enrolled u) (platform_events W)"
    and "speaks_for h' u X"
  shows "recovery_attempt C clock' h' u typed X = (Inl (ApiError 401 ''invalid_code''),
    add_event clock' Second_factor_failed (Some u) None (Some With_recovery_code) X)"
proof (cases "confirmed_factor clock' h' X")
  case None
  then show ?thesis by (simp add: recovery_attempt_def use_recovery_code_def)
next
  case (Some y)
  let ?x = "sha256 C (totp_proof C typed)"
  obtain z g where y: "y = (z, g)" by (cases y)
  have z: "z = u" "factors X u = Some g" "confirmed_at g \<noteq> None"
    using confirmed_SomeD [OF assms(5)] Some y by blast+
  obtain V1 k lock where k: "use_recovery_code C clock h (totp_proof C typed) V = (Some (k, lock), V1)"
    using assms(2) by (cases "use_recovery_code C clock h (totp_proof C typed) V")
      (auto simp: recovery_attempt_def split: option.splits)
  have "W = snd (resolved clock h (if lock then add_event clock Second_factor_unlocked (Some u) None None
      (add_event clock Recovery_code_used (Some u) None (Some (Codes_left k)) V1)
      else add_event clock Recovery_code_used (Some u) None (Some (Codes_left k)) V1))"
    using assms(2) k by (simp add: recovery_attempt_def Let_def)
  moreover have "factors (snd (resolved clock h A)) = factors A" for A
    using resolved_ledger [of clock h A] by (simp add: ledger_of_def)
  ultimately have W: "factors W = factors V1" by simp
  obtain f where f: "factors V1 u = Some f" "?x \<notin> set (recovery_code_hashes f)"
  proof (cases "confirmed_factor clock h V")
    case None
    then show thesis using k by (simp add: use_recovery_code_def)
  next
    case (Some a)
    obtain b f where a: "a = (b, f)" by (cases a)
    have "b = u" using confirmed_SomeD [OF assms(1)] Some a by blast
    then show thesis
      using that k Some a by (auto simp: use_recovery_code_def Let_def split: if_splits)
  qed
  have "?x \<notin> set (recovery_code_hashes g)"
    using onward_confirmed [OF admin_steps_onward [OF assms(3)] z(2,3) assms(4)] f W by auto
  then show ?thesis
    using Some y by (simp add: recovery_attempt_def use_recovery_code_def)
qed

text \<open>
  A lock with no attempt in flight stays, however long, until a recovery code lifts it or a new ticket
  starts over: no further code is looked at.
\<close>

text \<open>
  C16: A lock with no attempt in flight stays through every later history, however long, until
  a recovery code lifts it or a new ticket starts over: no code is counted or looked at.
\<close>

theorem lock_stays:
  assumes "factors V u = Some f" "10 \<le> failed_attempts f" "charges f = []"
    and "admin_steps C V W"
    and "tally (acted Totp_enrolled u) (platform_events W) = tally (acted Totp_enrolled u) (platform_events V)"
    and "tally (acted Second_factor_unlocked u) (platform_events W) =
      tally (acted Second_factor_unlocked u) (platform_events V)"
    and "speaks_for h u W"
  shows "fst (fst (charge_second_factor clock h c W)) \<noteq> Charged \<and>
    fst (fst (check_second_factor C clock h c' p step W)) = Void"
proof (cases "confirmed_factor clock h W")
  case None
  then show ?thesis by (simp add: charge_second_factor_def check_second_factor_def)
next
  case (Some y)
  obtain z g where y: "y = (z, g)" by (cases y)
  have z: "z = u" "factors W u = Some g" "confirmed_at g \<noteq> None"
    using confirmed_SomeD [OF assms(7)] Some y by blast+
  have "10 \<le> failed_attempts g \<and> charges g = []"
    using onward_confirmed [OF admin_steps_onward [OF assms(4)] z(2,3) assms(5)] assms(1,2,3,6) by auto
  then show ?thesis
    using Some y by (simp add: charge_second_factor_def check_second_factor_def LOCK_AT_def holds_no_charge)
qed

theorem lock_stays_witness:
  "fst (fst (charge_second_factor hour_us ''h'' (hour_us, 5) locked_admin)) \<noteq> Charged"
proof -
  have f: "factors locked_admin 7 = Some (the (factors locked_admin 7))" by code_simp
  have "fst (fst (charge_second_factor hour_us ''h'' (hour_us, 5) locked_admin)) \<noteq> Charged \<and>
      fst (fst (check_second_factor sample_crypto hour_us ''h'' None [] None locked_admin)) = Void"
    by (rule lock_stays [OF f _ _ admin_steps.none]) code_simp+
  then show ?thesis by blast
qed

text \<open>
  Whoever passes the guard of the admin reads is an admin, and the audit record holds their pass since
  their last enrolment ticket; where the session counts as fresh, of the last 15 minutes.
\<close>

text \<open>
  C14: Whoever passes the guard of the admin reads is a platform admin, and the audit record
  holds their pass of the second factor since their last enrolment ticket; a session that
  counts as fresh has one of the last 15 minutes.
\<close>

theorem guarded_read_has_a_recorded_pass:
  assumes "unenrolled V" "admin_steps C V W"
    and "admin_signed_in (fst (admin_session_guard C clock cookie W)) = Inr w"
  shows "w_user w \<in> set (admins W) \<and> (\<exists>r \<in> set (since_issued (w_user w) (platform_events W)).
    opened_by (w_user w) r \<and> (factor_fresh w \<longrightarrow> clock - FRESH < v_at r))"
proof -
  obtain token X where t: "cookie = Some token"
    "resolve_admin_session clock (sha256 C token) W = (Some w, X)" "factor_passed w"
    using assms(3) by (auto simp: admin_signed_in_def admin_session_guard_def
        split: option.splits if_splits prod.splits sum.splits)
  obtain s where s: "s \<in> set (admin_sessions W)" "w_user w = a_user s"
    "factor_passed w \<longleftrightarrow> a_second_factor_at s \<noteq> None"
    "factor_fresh w \<longrightarrow> (\<exists>t. a_second_factor_at s = Some t \<and> clock - FRESH < t)"
    using resolved_session [OF t(2)] by blast
  have "all_recorded W"
    using assms(1,2) by (blast intro: admin_steps_recorded unenrolled_recorded)
  then have r: "a_user s \<in> set (admins W)" "recorded_in (platform_events W) s"
    using s(1) by (auto simp: all_recorded_def list_all_iff)
  obtain m where m: "a_second_factor_at s = Some m" using s(3) t(3) by blast
  obtain e where e: "e \<in> set (since_issued (w_user w) (platform_events W))" "opened_by (w_user w) e" "v_at e = m"
    using r(2) m s(2) by (auto simp: recorded_in_def list_ex_iff)
  have "factor_fresh w \<longrightarrow> clock - FRESH < v_at e"
    using s(4) m e(3) by auto
  then show ?thesis using r(1) s(2) e by auto
qed

theorem guarded_read_has_a_recorded_pass_witness:
  "\<exists>r \<in> set (since_issued 7 (platform_events admin5)). opened_by 7 r \<and> 4 * minute_us - FRESH < v_at r"
proof -
  let ?w = "\<lparr>w_user = 7, factor_passed = True, factor_fresh = True, enrolled = True\<rparr> :: admin_view"
  have g: "admin_signed_in (fst (admin_session_guard sample_crypto (4 * minute_us) (Some ''h'') admin5)) = Inr ?w"
    by code_simp
  show ?thesis
    using guarded_read_has_a_recorded_pass [OF unenrolled_admin0 steps_admin5 g] by simp
qed

text \<open>
  The right code is never refused: with the factor unlocked and its step not used yet, typed with
  any spaces and dashes, it opens the session.
\<close>

lemma normalise_blank [simp]: "normalise [] = []"
  by (simp add: normalise_def)


definition sample_request :: admin_request where
  "sample_request = \<lparr>q_hash = ''h'',
     q_session = \<lparr>w_user = 7, factor_passed = True, factor_fresh = True, enrolled = True\<rparr>,
     q_address = None, q_purged = (\<lambda>_. False), q_limit_at = 4 * minute_us, q_charge_at = 4 * minute_us,
     q_read_at = 4 * minute_us, q_check_at = 4 * minute_us, q_charge = (4 * minute_us, 2)\<rparr>"


end
