(* ===== verification/Sessions.thy ===== *)
theory Sessions
  imports SecondFactor
begin

text \<open>
  Signing in and out: \<open>backend/app/auth.py\<close>, the session routes of \<open>platform_account.py\<close>, the password
  reset of \<open>accounts.py\<close>, the sign-in of \<open>admin_auth.py\<close>, the session sweeps of \<open>retention.py\<close> and the
  database functions they call (migrations 0006, 0009, 0045, 0057, 0074). Shows that a password reset
  ends every session for good, whatever sign-in is under way with the old password, that an account
  session started at a console never outlives the console's, that the answers to a failed sign-in tell
  no one who has an account, and that nobody elsewhere can lock an account.
\<close>

section \<open>Sessions of members and of people\<close>

definition SESSION_IDLE :: int where "SESSION_IDLE = 7 * day_us"
definition SESSION_ABSOLUTE :: int where "SESSION_ABSOLUTE = 30 * day_us"
definition TOUCH_EVERY :: int where "TOUCH_EVERY = 5 * minute_us"
definition ACCOUNT_FRESH :: int where "ACCOUNT_FRESH = 24 * hour_us"

definition live_session :: "instant \<Rightarrow> business_session \<Rightarrow> bool" where
  "live_session clock b \<longleftrightarrow> clock < b_expires_at b \<and> clock - SESSION_IDLE < b_last_seen_at b"

definition live_account :: "instant \<Rightarrow> account_session \<Rightarrow> bool" where
  "live_account clock s \<longleftrightarrow> clock < p_expires_at s \<and> clock - SESSION_IDLE < p_last_seen_at s"

text \<open>\<open>USABLE\<close>: live, never an admin's, and its console session, if it has one, is live too.\<close>

definition usable :: "instant \<Rightarrow> identity \<Rightarrow> account_session \<Rightarrow> bool" where
  "usable clock V s \<longleftrightarrow> live_account clock s \<and> p_user s \<notin> set (admins V) \<and>
     (case p_started_by s of
        None \<Rightarrow> True
      | Some h \<Rightarrow> list_ex (\<lambda>b. b_hash b = h \<and> live_session clock b) (sessions V))"

text \<open>Deleting business sessions takes the account sessions they started with them.\<close>

definition drop_sessions :: "(business_session \<Rightarrow> bool) \<Rightarrow> identity \<Rightarrow> identity" where
  "drop_sessions p V = V\<lparr>sessions := filter (\<lambda>b. \<not> p b) (sessions V),
     account_sessions := filter (\<lambda>s. case p_started_by s of
         None \<Rightarrow> True
       | Some h \<Rightarrow> \<not> list_ex (\<lambda>b. b_hash b = h \<and> p b) (sessions V)) (account_sessions V)\<rparr>"

definition record_auth ::
  "uuid option \<Rightarrow> uuid option \<Rightarrow> auth_action \<Rightarrow> uuid option \<Rightarrow> identity \<Rightarrow> identity" where
  "record_auth tenant actor action target V = V\<lparr>auth_events :=
     \<lparr>e_tenant = tenant, e_actor = actor, e_action = action, e_target = target\<rparr> # auth_events V\<rparr>"

text \<open>
  \<open>create\<close>: the session of a live membership in the tenant, its role with it; then the purge, which
  skips rows others hold (\<open>kept\<close>).
\<close>

definition create_session ::
  "instant \<Rightarrow> (business_session \<Rightarrow> bool) \<Rightarrow> uuid \<Rightarrow> uuid \<Rightarrow> bytes \<Rightarrow> identity \<Rightarrow> identity result" where
  "create_session clock kept tenant u id_hash V =
     (case first_row (filter (\<lambda>(t, x, _). t = tenant \<and> x = u) (seats V)) of
        None \<Rightarrow> Inl (Uncaught ''ValueError'')
      | Some (_, _, owner) \<Rightarrow>
          if list_ex (\<lambda>b. b_hash b = id_hash) (sessions V) then Inl (Uncaught ''pk_sessions'')
          else Inr (drop_sessions (\<lambda>b. b_expires_at b \<le> clock \<and> \<not> kept b)
            (V\<lparr>sessions := sessions V @ [\<lparr>b_hash = id_hash, b_tenant = tenant, b_user = u, b_owner = owner,
               b_expires_at = clock + SESSION_ABSOLUTE, b_last_seen_at = clock\<rparr>]\<rparr>)))"

text \<open>\<open>RESOLVE\<close>: the user, tenant and role of a live session, touched when not seen for five minutes.\<close>

definition resolve_session :: "instant \<Rightarrow> bytes \<Rightarrow> identity \<Rightarrow> (uuid \<times> uuid \<times> bool) option \<times> identity" where
  "resolve_session clock h V =
     (map_option (\<lambda>b. (b_tenant b, b_user b, b_owner b))
        (first_row (filter (\<lambda>b. b_hash b = h \<and> live_session clock b) (sessions V))),
      V\<lparr>sessions := update_where
          (\<lambda>b. b_hash b = h \<and> live_session clock b \<and> b_last_seen_at b < clock - TOUCH_EVERY)
          (\<lambda>b. b\<lparr>b_last_seen_at := clock\<rparr>) (sessions V)\<rparr>)"

definition password_unchanged :: "uuid \<Rightarrow> string option \<Rightarrow> identity \<Rightarrow> bool" where
  "password_unchanged u p V \<longleftrightarrow> p \<noteq> None \<and> password_of V u = p"

datatype account_start = Begun_session | Stale | Is_admin

definition start_account_session ::
  "instant \<Rightarrow> (account_session \<Rightarrow> bool) \<Rightarrow> uuid \<Rightarrow> string option \<Rightarrow> bytes \<Rightarrow> bytes option \<Rightarrow> identity \<Rightarrow>
   (account_start \<times> identity) result" where
  "start_account_session clock kept u p id_hash started_by V =
     (if \<not> password_unchanged u p V then Inr (Stale, V)
      else if u \<in> set (admins V) then Inr (Is_admin, V)
      else if list_ex (\<lambda>s. p_hash s = id_hash) (account_sessions V) then Inl (Uncaught ''pk_account_sessions'')
      else if (case started_by of None \<Rightarrow> False | Some h \<Rightarrow> \<not> list_ex (\<lambda>b. b_hash b = h) (sessions V))
      then Inl (Uncaught ''fk_account_sessions_started_by_sessions'')
      else Inr (Begun_session, V\<lparr>account_sessions := filter (\<lambda>s. clock < p_expires_at s \<or> kept s)
        (account_sessions V @ [\<lparr>p_hash = id_hash, p_user = u, p_started_at = clock,
           p_expires_at = clock + SESSION_ABSOLUTE, p_last_seen_at = clock, p_started_by = started_by\<rparr>])\<rparr>))"

text \<open>\<open>resolve_account_session\<close>: the person, and whether the session started within a day.\<close>

definition resolve_account_session :: "instant \<Rightarrow> bytes \<Rightarrow> identity \<Rightarrow> (uuid \<times> bool) option \<times> identity" where
  "resolve_account_session clock h V =
     (map_option (\<lambda>s. (p_user s, clock - ACCOUNT_FRESH < p_started_at s))
        (first_row (filter (\<lambda>s. p_hash s = h \<and> usable clock V s) (account_sessions V))),
      V\<lparr>account_sessions := update_where
          (\<lambda>s. p_hash s = h \<and> usable clock V s \<and> p_last_seen_at s < clock - TOUCH_EVERY)
          (\<lambda>s. s\<lparr>p_last_seen_at := clock\<rparr>) (account_sessions V)\<rparr>)"

definition end_account_session :: "bytes \<Rightarrow> identity \<Rightarrow> uuid option \<times> identity" where
  "end_account_session h V =
     (map_option p_user (first_row (filter (\<lambda>s. p_hash s = h) (account_sessions V))),
      V\<lparr>account_sessions := filter (\<lambda>s. p_hash s \<noteq> h) (account_sessions V)\<rparr>)"

text \<open>\<open>end_account_sessions\<close>: every account session of whoever holds the live hash, of either kind.\<close>

definition holder :: "instant \<Rightarrow> bytes \<Rightarrow> identity \<Rightarrow> uuid option" where
  "holder clock h V =
     (case first_row (filter (\<lambda>s. p_hash s = h \<and> live_account clock s) (account_sessions V)) of
        Some s \<Rightarrow> Some (p_user s)
      | None \<Rightarrow> map_option b_user (first_row (filter (\<lambda>b. b_hash b = h \<and> live_session clock b) (sessions V))))"

definition end_account_sessions :: "instant \<Rightarrow> bytes \<Rightarrow> identity \<Rightarrow> uuid option \<times> identity" where
  "end_account_sessions clock h V =
     (case holder clock h V of
        None \<Rightarrow> (None, V)
      | Some u \<Rightarrow> (Some u, V\<lparr>account_sessions := filter (\<lambda>s. p_user s \<noteq> u) (account_sessions V)\<rparr>))"

text \<open>
  \<open>reset_password\<close>: uses the link up, sets the password and deletes every session of the person; the
  other links of the email go, but for those another transaction holds.
\<close>

definition reset_password ::
  "instant \<Rightarrow> (bytes \<Rightarrow> bool) \<Rightarrow> bytes \<Rightarrow> string \<Rightarrow> identity \<Rightarrow> uuid option \<times> identity" where
  "reset_password clock locked h p V =
     (case first_row (filter (\<lambda>(x, _, until). x = h \<and> clock < until) (reset_links V)) of
        None \<Rightarrow> (None, V)
      | Some (_, email, _) \<Rightarrow>
          let V1 = V\<lparr>reset_links := filter (\<lambda>(x, _, until). \<not> (x = h \<and> clock < until)) (reset_links V)\<rparr>
          in (case accounts V email of
                None \<Rightarrow> (None, V1)
              | Some u \<Rightarrow>
                  let V2 = drop_sessions (\<lambda>b. b_user b = u) (V1\<lparr>password_of := (password_of V)(u \<mapsto> p)\<rparr>)
                  in (Some u, V2\<lparr>admin_sessions := filter (\<lambda>s. a_user s \<noteq> u) (admin_sessions V2),
                       account_sessions := filter (\<lambda>s. p_user s \<noteq> u) (account_sessions V2),
                       reset_links := filter (\<lambda>(x, e, _). e \<noteq> email \<or> locked x) (reset_links V2)\<rparr>)))"

text \<open>The sweeps of \<open>retention.py\<close>, each deleting some of the sessions long dead.\<close>

definition sweep_sessions ::
  "instant \<Rightarrow> (business_session \<Rightarrow> bool) \<Rightarrow> (admin_session \<Rightarrow> bool) \<Rightarrow> (account_session \<Rightarrow> bool) \<Rightarrow>
   identity \<Rightarrow> identity" where
  "sweep_sessions clock pick pick_admin pick_account V =
     (let V1 = drop_sessions (\<lambda>b. pick b \<and> (b_expires_at b \<le> clock - hour_us \<or>
                 b_last_seen_at b \<le> clock - (SESSION_IDLE + hour_us))) V
      in V1\<lparr>admin_sessions := filter (\<lambda>s. \<not> (pick_admin s \<and> (a_expires_at s \<le> clock - hour_us \<or>
               a_last_seen_at s \<le> clock - 90 * minute_us))) (admin_sessions V1),
            account_sessions := filter (\<lambda>s. \<not> (pick_account s \<and> (p_expires_at s \<le> clock - hour_us \<or>
               p_last_seen_at s \<le> clock - (SESSION_IDLE + hour_us)))) (account_sessions V1)\<rparr>)"

section \<open>Starting sessions\<close>

definition invalid_credentials :: api_error where
  "invalid_credentials = ApiError 401 ''invalid_credentials''"
definition no_tenant :: api_error where "no_tenant = ApiError 403 ''no_tenant''"

text \<open>
  What a browser sends and the database draws: the hashes of its two cookies and of the two new
  tokens, and the rows the purges leave.
\<close>

record browser =
  old_session :: "bytes option"
  old_account :: "bytes option"
  new_session :: bytes
  new_account :: bytes
  kept_sessions :: "business_session \<Rightarrow> bool"
  kept_accounts :: "account_session \<Rightarrow> bool"

definition end_previous_account_session :: "browser \<Rightarrow> identity \<Rightarrow> identity" where
  "end_previous_account_session br V =
     (case old_account br of None \<Rightarrow> V | Some h \<Rightarrow> snd (end_account_session h V))"

text \<open>\<open>start_account\<close>: whether an account session started; a platform admin gets none.\<close>

definition start_account ::
  "instant \<Rightarrow> browser \<Rightarrow> uuid \<Rightarrow> string option \<Rightarrow> bytes option \<Rightarrow> identity \<Rightarrow> (bool \<times> identity) result" where
  "start_account clock br u p started_by V =
     (case start_account_session clock (kept_accounts br) u p (new_account br) started_by
             (end_previous_account_session br V) of
        Inl e \<Rightarrow> Inl e
      | Inr (Stale, _) \<Rightarrow> Inl invalid_credentials
      | Inr (Is_admin, V1) \<Rightarrow> Inr (False, V1)
      | Inr (Begun_session, V1) \<Rightarrow> Inr (True, V1))"

text \<open>\<open>start\<close>, in the tenant's context.\<close>

definition start ::
  "instant \<Rightarrow> browser \<Rightarrow> uuid \<Rightarrow> uuid \<Rightarrow> string option \<Rightarrow> identity \<Rightarrow> (bool \<times> identity) result" where
  "start clock br tenant u p V =
     (if \<not> password_unchanged u p V then Inl invalid_credentials
      else case create_session clock (kept_sessions br) tenant u (new_session br) V of
        Inl e \<Rightarrow> Inl e
      | Inr V1 \<Rightarrow>
          let V2 = (case old_session br of None \<Rightarrow> V1 | Some h \<Rightarrow> drop_sessions (\<lambda>b. b_hash b = h) V1)
          in (case start_account clock br u p (Some (new_session br)) V2 of
                Inl e \<Rightarrow> Inl e
              | Inr (began, V3) \<Rightarrow> Inr (began, record_auth (Some tenant) (Some u) Sign_in_succeeded None V3)))"

text \<open>The transaction of \<open>auth.sign_in\<close>: \<open>start\<close>, and the membership for the answer.\<close>

definition sign_in_console ::
  "instant \<Rightarrow> browser \<Rightarrow> uuid \<Rightarrow> uuid \<Rightarrow> string option \<Rightarrow> identity \<Rightarrow> (bool \<times> identity) result" where
  "sign_in_console clock br tenant u p V =
     (if \<not> password_unchanged u p V then Inl invalid_credentials
      else case start clock br tenant u p V of
        Inl e \<Rightarrow> if e = Uncaught ''ValueError'' then Inl no_tenant else Inl e
      | Inr (began, W) \<Rightarrow>
          if list_ex (\<lambda>(t, x, _). t = tenant \<and> x = u) (seats W) then Inr (began, W)
          else Inl unauthenticated)"

text \<open>The transaction of \<open>platform_account.sign_in\<close>: whether another person's console session ended.\<close>

definition end_other_persons_business_session :: "browser \<Rightarrow> uuid \<Rightarrow> identity \<Rightarrow> bool \<times> identity" where
  "end_other_persons_business_session br u V =
     (case old_session br of
        None \<Rightarrow> (False, V)
      | Some h \<Rightarrow>
          (list_ex (\<lambda>b. b_hash b = h \<and> b_user b \<noteq> u) (sessions V),
           drop_sessions (\<lambda>b. b_hash b = h \<and> b_user b \<noteq> u) V))"

definition sign_in_account ::
  "instant \<Rightarrow> browser \<Rightarrow> uuid \<Rightarrow> string option \<Rightarrow> identity \<Rightarrow> (bool \<times> identity) result" where
  "sign_in_account clock br u p V =
     (if \<not> password_unchanged u p V then Inl invalid_credentials
      else case end_other_persons_business_session br u V of (ended, V1) \<Rightarrow>
        (case start_account clock br u p None V1 of
           Inl e \<Rightarrow> Inl e
         | Inr (False, _) \<Rightarrow> Inl (ApiError 403 ''account_unavailable'')
         | Inr (True, V2) \<Rightarrow>
             let V3 = record_auth None (Some u) Account_signed_in (Some u) V2
             in (case resolve_account_session clock (new_account br) V3 of
                   (None, _) \<Rightarrow> Inl (Uncaught ''NoResultFound'')
                 | (Some _, V4') \<Rightarrow> Inr (ended, V4'))))"

section \<open>Ending sessions\<close>

text \<open>\<open>end_browser_sessions\<close>, each kind in its own transaction.\<close>

definition sign_out_of_account :: "browser \<Rightarrow> identity \<Rightarrow> identity" where
  "sign_out_of_account br V =
     (case old_account br of
        None \<Rightarrow> V
      | Some h \<Rightarrow> (case end_account_session h V of
          (None, V1) \<Rightarrow> V1
        | (Some u, V1) \<Rightarrow> record_auth None (Some u) Account_signed_out (Some u) V1))"

definition sign_out_of_console :: "browser \<Rightarrow> identity \<Rightarrow> identity" where
  "sign_out_of_console br V =
     (case old_session br of
        None \<Rightarrow> V
      | Some h \<Rightarrow> (case first_row (filter (\<lambda>b. b_hash b = h) (sessions V)) of
          None \<Rightarrow> V
        | Some b \<Rightarrow> record_auth (Some (b_tenant b)) (Some (b_user b)) Signed_out None
            (drop_sessions (\<lambda>b. b_hash b = h) V)))"

definition end_browser_sessions :: "browser \<Rightarrow> identity \<Rightarrow> identity" where
  "end_browser_sessions br V = sign_out_of_console br (sign_out_of_account br V)"

text \<open>\<open>end_every_session\<close>, and the two routes that call it.\<close>

definition end_every_session :: "instant \<Rightarrow> uuid \<Rightarrow> bytes \<Rightarrow> identity \<Rightarrow> bool \<times> identity" where
  "end_every_session clock u h V =
     (case end_account_sessions clock h V of
        (who, V1) \<Rightarrow> (who \<noteq> None, drop_sessions (\<lambda>b. b_user b = u) V1))"

definition sign_out_everywhere :: "instant \<Rightarrow> uuid \<Rightarrow> uuid \<Rightarrow> bytes \<Rightarrow> identity \<Rightarrow> identity" where
  "sign_out_everywhere clock tenant u h V =
     record_auth (Some tenant) (Some u) Signed_out_everywhere None (snd (end_every_session clock u h V))"

definition sign_out_everywhere_account :: "instant \<Rightarrow> uuid \<Rightarrow> bytes \<Rightarrow> identity \<Rightarrow> identity result" where
  "sign_out_everywhere_account clock u h V =
     (case end_every_session clock u h V of
        (False, _) \<Rightarrow> Inl unauthenticated
      | (True, V1) \<Rightarrow> Inr (record_auth None (Some u) Signed_out_everywhere (Some u) V1))"

text \<open>The transaction of \<open>complete_password_reset\<close>.\<close>

definition complete_reset ::
  "instant \<Rightarrow> (bytes \<Rightarrow> bool) \<Rightarrow> bytes \<Rightarrow> string \<Rightarrow> identity \<Rightarrow> uuid option \<times> identity" where
  "complete_reset clock locked h p V =
     (case reset_password clock locked h p V of
        (None, V1) \<Rightarrow> (None, V1)
      | (Some u, V1) \<Rightarrow> (Some u, record_auth None None Password_reset_completed (Some u) V1))"

section \<open>Any order of transactions\<close>

text \<open>
  Every transaction that reads or writes a session, with the label of what it says of a person: a
  sign-in that verified a stored hash, a reset, or neither. \<open>reseats\<close> is a change of a membership
  (\<open>members.py\<close>): its sessions go first. \<open>registers\<close> is a sign-up, \<open>mails\<close> a reset link sent.
\<close>

datatype label = Starts uuid string | Resets uuid string | Neither

definition no_start :: "identity \<Rightarrow> identity \<Rightarrow> bool" where
  "no_start V W \<longleftrightarrow> password_of W = password_of V \<and> accounts W = accounts V \<and> seats W = seats V \<and>
     sessions W = sessions V \<and> account_sessions W = account_sessions V \<and>
     a_user ` set (admin_sessions W) \<subseteq> a_user ` set (admin_sessions V)"

inductive session_step :: "crypto \<Rightarrow> label \<Rightarrow> identity \<Rightarrow> identity \<Rightarrow> bool" for C where
  console: "sign_in_console clock br tenant u (Some p) V = Inr (r, W) \<Longrightarrow> session_step C (Starts u p) V W"
| person: "sign_in_account clock br u (Some p) V = Inr (r, W) \<Longrightarrow> session_step C (Starts u p) V W"
| admin: "admin_start C clock kept (Some u) (Some p) h old V = Inr (r, W) \<Longrightarrow> session_step C (Starts u p) V W"
| admin_refused: "admin_start C clock kept user None h old V = Inr (r, W) \<Longrightarrow> session_step C Neither V W"
| previous: "session_step C Neither V (end_previous_account_session br V)"
| out_of_account: "session_step C Neither V (sign_out_of_account br V)"
| out_of_console: "session_step C Neither V (sign_out_of_console br V)"
| everywhere: "session_step C Neither V (sign_out_everywhere clock tenant u h V)"
| everywhere_account: "sign_out_everywhere_account clock u h V = Inr W \<Longrightarrow> session_step C Neither V W"
| resets: "complete_reset clock locked h p V = (Some u, W) \<Longrightarrow> session_step C (Resets u p) V W"
| resets_nothing: "complete_reset clock locked h p V = (None, W) \<Longrightarrow> session_step C Neither V W"
| resolves: "session_step C Neither V (snd (resolve_session clock h V))"
| resolves_account: "session_step C Neither V (snd (resolve_account_session clock h V))"
| sweeps: "session_step C Neither V (sweep_sessions clock pick pick_admin pick_account V)"
| reseats: "set new \<subseteq> {(t, u, True), (t, u, False)} \<Longrightarrow> session_step C Neither V
    ((drop_sessions (\<lambda>b. b_tenant b = t \<and> b_user b = u) V)
     \<lparr>seats := filter (\<lambda>(x, y, _). \<not> (x = t \<and> y = u)) (seats V) @ new\<rparr>)"
| registers: "accounts V email = None \<Longrightarrow> password_of V u = None \<Longrightarrow> session_step C Neither V
    (V\<lparr>accounts := (accounts V)(email \<mapsto> u), password_of := (password_of V)(u \<mapsto> p)\<rparr>)"
| mails: "session_step C Neither V (V\<lparr>reset_links := reset_links V @ [l]\<rparr>)"
| grants: "grant_admin clock email reason V = Inr (r, W) \<Longrightarrow> session_step C Neither V W"
| second_factor: "admin_step C V W \<Longrightarrow> no_start V W \<Longrightarrow> session_step C Neither V W"

inductive session_steps :: "crypto \<Rightarrow> label list \<Rightarrow> identity \<Rightarrow> identity \<Rightarrow> bool" for C where
  none: "session_steps C [] V V"
| more: "session_steps C ls V W \<Longrightarrow> session_step C l W X \<Longrightarrow> session_steps C (ls @ [l]) V X"

section \<open>A reset signs out for good\<close>

definition signed_out :: "uuid \<Rightarrow> identity \<Rightarrow> bool" where
  "signed_out u V \<longleftrightarrow> list_all (\<lambda>b. b_user b \<noteq> u) (sessions V) \<and>
     list_all (\<lambda>s. p_user s \<noteq> u) (account_sessions V) \<and> list_all (\<lambda>s. a_user s \<noteq> u) (admin_sessions V)"

definition keeps_out :: "uuid \<Rightarrow> string \<Rightarrow> label \<Rightarrow> bool" where
  "keeps_out u p l \<longleftrightarrow> (case l of
     Starts x q \<Rightarrow> x \<noteq> u \<or> q \<noteq> p | Resets x q \<Rightarrow> x \<noteq> u | Neither \<Rightarrow> True)"

definition locked_out :: "uuid \<Rightarrow> string \<Rightarrow> identity \<Rightarrow> bool" where
  "locked_out u p V \<longleftrightarrow> password_of V u = Some p \<and> signed_out u V"

lemma drop_sessions_simps [simp]:
  "password_of (drop_sessions q V) = password_of V"
  "accounts (drop_sessions q V) = accounts V"
  "admins (drop_sessions q V) = admins V"
  "seats (drop_sessions q V) = seats V"
  "admin_sessions (drop_sessions q V) = admin_sessions V"
  "reset_links (drop_sessions q V) = reset_links V"
  "set (sessions (drop_sessions q V)) = {b \<in> set (sessions V). \<not> q b}"
  "set (account_sessions (drop_sessions q V)) \<subseteq> set (account_sessions V)"
  by (auto simp: drop_sessions_def)

lemma record_auth_simps [simp]:
  "password_of (record_auth t a x y V) = password_of V"
  "accounts (record_auth t a x y V) = accounts V"
  "admins (record_auth t a x y V) = admins V"
  "seats (record_auth t a x y V) = seats V"
  "sessions (record_auth t a x y V) = sessions V"
  "account_sessions (record_auth t a x y V) = account_sessions V"
  "admin_sessions (record_auth t a x y V) = admin_sessions V"
  by (simp_all add: record_auth_def)

text \<open>Nothing but fewer sessions, or sessions touched: who holds one does not grow.\<close>

definition fewer :: "identity \<Rightarrow> identity \<Rightarrow> bool" where
  "fewer V W \<longleftrightarrow> password_of W = password_of V \<and> b_user ` set (sessions W) \<subseteq> b_user ` set (sessions V) \<and>
     p_user ` set (account_sessions W) \<subseteq> p_user ` set (account_sessions V) \<and>
     a_user ` set (admin_sessions W) \<subseteq> a_user ` set (admin_sessions V)"

lemma fewer_locked_out: "fewer V W \<Longrightarrow> locked_out u p V \<Longrightarrow> locked_out u p W"
  unfolding fewer_def locked_out_def signed_out_def list_all_iff
  by (metis (no_types, lifting) image_eqI imageE subset_iff)

lemma fewer_refl [simp]: "fewer V V"
  by (simp add: fewer_def)

lemma fewer_trans: "fewer V W \<Longrightarrow> fewer W X \<Longrightarrow> fewer V X"
  unfolding fewer_def by (metis (no_types, lifting) subset_trans)

lemma fewer_drop [simp]: "fewer V (drop_sessions q V)"
  unfolding fewer_def using drop_sessions_simps(8) [of q V] by (intro conjI image_mono) auto

lemma fewer_record [simp]: "fewer V (record_auth t a x y W) \<longleftrightarrow> fewer V W"
  by (simp add: fewer_def)

lemma fewer_end_account [simp]: "fewer V (snd (end_account_session h V))"
  by (auto simp: fewer_def end_account_session_def)

lemma fewer_previous [simp]: "fewer V (end_previous_account_session br V)"
  by (simp add: end_previous_account_session_def split: option.splits)

lemma fewer_end_accounts: "end_account_sessions clock h V = (who, W) \<Longrightarrow> fewer V W"
  by (auto simp: fewer_def end_account_sessions_def split: option.splits)

lemma fewer_every: "end_every_session clock u h V = (r, W) \<Longrightarrow> fewer V W"
  unfolding end_every_session_def
  by (auto split: prod.splits intro: fewer_trans [OF fewer_end_accounts fewer_drop])

lemma fewer_out_of_account: "fewer V (sign_out_of_account br V)"
proof (cases "old_account br")
  case (Some h)
  obtain who W where e: "end_account_session h V = (who, W)" by (cases "end_account_session h V")
  then have "fewer V W" using fewer_end_account [of V h] by simp
  then show ?thesis using Some e by (simp add: sign_out_of_account_def split: option.splits)
qed (simp add: sign_out_of_account_def)

lemma fewer_out_of_console: "fewer V (sign_out_of_console br V)"
  by (simp add: sign_out_of_console_def split: option.splits)

lemma fewer_resolve: "fewer V (snd (resolve_session clock h V))"
  by (auto simp: fewer_def resolve_session_def)

lemma fewer_resolve_account: "fewer V (snd (resolve_account_session clock h V))"
  by (auto simp: fewer_def resolve_account_session_def)

lemma fewer_sweep: "fewer V (sweep_sessions clock pick pick_admin pick_account V)"
proof -
  let ?V1 = "drop_sessions (\<lambda>b. pick b \<and> (b_expires_at b \<le> clock - hour_us \<or>
    b_last_seen_at b \<le> clock - (SESSION_IDLE + hour_us))) V"
  have "fewer ?V1 (?V1\<lparr>admin_sessions := filter k (admin_sessions ?V1),
      account_sessions := filter m (account_sessions ?V1)\<rparr>)" for k m
    by (auto simp: fewer_def)
  then show ?thesis
    unfolding sweep_sessions_def Let_def by (rule fewer_trans [OF fewer_drop])
qed

lemma fewer_grant:
  assumes "grant_admin clock email reason V = Inr (r, W)"
  shows "fewer V W"
  using assms
  by (auto simp: grant_admin_def fewer_def add_command_def Let_def split: if_splits option.splits)

lemma locked_out_create:
  assumes "create_session clock kept tenant x h V = Inr W" "locked_out u p V" "x \<noteq> u"
  shows "locked_out u p W"
proof -
  obtain o' where "W = drop_sessions (\<lambda>b. b_expires_at b \<le> clock \<and> \<not> kept b)
      (V\<lparr>sessions := sessions V @ [\<lparr>b_hash = h, b_tenant = tenant, b_user = x, b_owner = o',
         b_expires_at = clock + SESSION_ABSOLUTE, b_last_seen_at = clock\<rparr>]\<rparr>)"
    using assms(1) by (auto simp: create_session_def split: option.splits if_splits)
  moreover have "locked_out u p (V\<lparr>sessions := sessions V @ [\<lparr>b_hash = h, b_tenant = tenant, b_user = x, b_owner = o',
         b_expires_at = clock + SESSION_ABSOLUTE, b_last_seen_at = clock\<rparr>]\<rparr>)"
    using assms(2,3) by (simp add: locked_out_def signed_out_def)
  ultimately show ?thesis using fewer_locked_out [OF fewer_drop] by simp
qed

definition with_account :: "instant \<Rightarrow> (account_session \<Rightarrow> bool) \<Rightarrow> uuid \<Rightarrow> bytes \<Rightarrow> bytes option \<Rightarrow>
    identity \<Rightarrow> identity" where
  "with_account clock kept u h by' V = V\<lparr>account_sessions := filter (\<lambda>s. clock < p_expires_at s \<or> kept s)
     (account_sessions V @ [\<lparr>p_hash = h, p_user = u, p_started_at = clock,
        p_expires_at = clock + SESSION_ABSOLUTE, p_last_seen_at = clock, p_started_by = by'\<rparr>])\<rparr>"

lemma start_account_session_Inr:
  "start_account_session clock kept u p h by' V = Inr (began, W) \<Longrightarrow>
   W = (if began = Begun_session then with_account clock kept u h by' V else V) \<and>
   (began \<noteq> Stale \<longrightarrow> password_unchanged u p V) \<and>
   (began = Begun_session \<longrightarrow> u \<notin> set (admins V) \<and>
     (\<forall>x. by' = Some x \<longrightarrow> list_ex (\<lambda>b. b_hash b = x) (sessions V)))"
  by (auto simp: start_account_session_def with_account_def split: if_splits option.splits)

lemma start_account_Inr:
  assumes "start_account clock br u p by' V = Inr (r, W)"
  shows "password_unchanged u p V \<and>
    (if r then W = with_account clock (kept_accounts br) u (new_account br) by' (end_previous_account_session br V) \<and>
       (\<forall>x. by' = Some x \<longrightarrow> list_ex (\<lambda>b. b_hash b = x) (sessions V))
     else W = end_previous_account_session br V)"
proof -
  obtain began X where s: "start_account_session clock (kept_accounts br) u p (new_account br) by'
      (end_previous_account_session br V) = Inr (began, X)"
    using assms by (cases "start_account_session clock (kept_accounts br) u p (new_account br) by'
      (end_previous_account_session br V)") (auto simp: start_account_def)
  have pre: "password_unchanged u p (end_previous_account_session br V) = password_unchanged u p V"
    "sessions (end_previous_account_session br V) = sessions V"
    by (auto simp: password_unchanged_def end_previous_account_session_def end_account_session_def split: option.splits)
  show ?thesis
    using start_account_session_Inr [OF s] assms s pre
    by (cases began) (auto simp: start_account_def)
qed

lemma locked_out_start_account:
  assumes "start_account clock br x q by' V = Inr (r, W)" "locked_out u p V" "x \<noteq> u"
  shows "locked_out u p W"
proof -
  have "locked_out u p (end_previous_account_session br V)"
    using assms(2) by (rule fewer_locked_out [OF fewer_previous])
  moreover have "locked_out u p (with_account clock k x h by' X)" if "locked_out u p X" for k h X
    using that assms(3) by (auto simp: locked_out_def signed_out_def list_all_iff with_account_def)
  ultimately show ?thesis
    using start_account_Inr [OF assms(1)] by (auto split: if_splits)
qed

lemma locked_out_console:
  assumes "sign_in_console clock br tenant x (Some q) V = Inr (r, W)" "locked_out u p V" "x \<noteq> u \<or> q \<noteq> p"
  shows "locked_out u p W"
proof -
  have pw: "password_of V x = Some q"
    using assms(1) by (auto simp: sign_in_console_def password_unchanged_def split: if_splits)
  then have x: "x \<noteq> u" using assms(2,3) by (auto simp: locked_out_def)
  obtain V1 where V1: "create_session clock (kept_sessions br) tenant x (new_session br) V = Inr V1"
    and r: "(case start_account clock br x (Some q) (Some (new_session br))
        (case old_session br of None \<Rightarrow> V1 | Some h \<Rightarrow> drop_sessions (\<lambda>b. b_hash b = h) V1) of
      Inl e \<Rightarrow> Inl e | Inr (began, V3) \<Rightarrow> Inr (began, record_auth (Some tenant) (Some x) Sign_in_succeeded None V3)) = Inr (r, W)"
    using assms(1) pw
    by (auto simp: sign_in_console_def start_def Let_def split: sum.splits if_splits)
  have "locked_out u p (case old_session br of None \<Rightarrow> V1 | Some h \<Rightarrow> drop_sessions (\<lambda>b. b_hash b = h) V1)"
    using locked_out_create [OF V1 assms(2) x] fewer_locked_out [OF fewer_drop]
    by (auto split: option.splits)
  moreover obtain V3 where "start_account clock br x (Some q) (Some (new_session br))
      (case old_session br of None \<Rightarrow> V1 | Some h \<Rightarrow> drop_sessions (\<lambda>b. b_hash b = h) V1) = Inr (r, V3)"
    "W = record_auth (Some tenant) (Some x) Sign_in_succeeded None V3"
    using r by (auto split: sum.splits)
  ultimately show ?thesis
    using locked_out_start_account [OF _ _ x] by (auto simp: locked_out_def signed_out_def)
qed

lemma locked_out_person:
  assumes "sign_in_account clock br x (Some q) V = Inr (r, W)" "locked_out u p V" "x \<noteq> u \<or> q \<noteq> p"
  shows "locked_out u p W"
proof -
  have pw: "password_of V x = Some q"
    using assms(1) by (auto simp: sign_in_account_def password_unchanged_def split: if_splits)
  then have x: "x \<noteq> u" using assms(2,3) by (auto simp: locked_out_def)
  obtain ended V1 where V1: "end_other_persons_business_session br x V = (ended, V1)" by fastforce
  have l1: "locked_out u p V1"
    using V1 assms(2) fewer_locked_out [OF fewer_drop]
    by (auto simp: end_other_persons_business_session_def split: option.splits)
  obtain V2 where V2: "start_account clock br x (Some q) None V1 = Inr (True, V2)"
    and W: "W = snd (resolve_account_session clock (new_account br)
      (record_auth None (Some x) Account_signed_in (Some x) V2))"
    using assms(1) pw V1
    by (auto simp: sign_in_account_def Let_def password_unchanged_def split: sum.splits bool.splits option.splits prod.splits)
  have "locked_out u p (record_auth None (Some x) Account_signed_in (Some x) V2)"
    using locked_out_start_account [OF V2 l1 x] by (simp add: locked_out_def signed_out_def)
  then show ?thesis
    unfolding W by (rule fewer_locked_out [OF fewer_resolve_account])
qed

lemma start_admin_True:
  "start_admin_session clock kept (Some x) (Some q) h V = Inr (True, W) \<Longrightarrow>
   password_of V x = Some q \<and> W = V\<lparr>admin_sessions := filter (\<lambda>s. clock < a_expires_at s \<or> kept s)
     (admin_sessions V @ [\<lparr>a_hash = h, a_user = x, a_expires_at = clock + ADMIN_ABSOLUTE,
        a_last_seen_at = clock, a_second_factor_at = None\<rparr>])\<rparr>"
  unfolding start_admin_session_def by (auto simp del: filter_append filter.simps split: if_splits)

lemma locked_out_admin:
  assumes "admin_start C clock kept (Some x) (Some q) h old V = Inr (r, W)" "locked_out u p V" "x \<noteq> u \<or> q \<noteq> p"
  shows "locked_out u p W"
proof -
  obtain began V1 where b: "start_admin_session clock kept (Some x) (Some q) h V = Inr (began, V1)"
    using assms(1) by (cases "start_admin_session clock kept (Some x) (Some q) h V") (auto simp: admin_start_def)
  have one: "locked_out u p V1"
  proof (cases began)
    case False
    then show ?thesis using start_admin_session_cases [OF b] assms(2) by simp
  next
    case True
    then have pw: "password_of V x = Some q"
      and V1: "V1 = V\<lparr>admin_sessions := filter (\<lambda>s. clock < a_expires_at s \<or> kept s)
        (admin_sessions V @ [\<lparr>a_hash = h, a_user = x, a_expires_at = clock + ADMIN_ABSOLUTE,
           a_last_seen_at = clock, a_second_factor_at = None\<rparr>])\<rparr>"
      using start_admin_True [of clock kept x q h V V1] b by simp_all
    have "x \<noteq> u" using pw assms(2,3) by (auto simp: locked_out_def)
    then show ?thesis using V1 assms(2) by (auto simp: locked_out_def signed_out_def list_all_iff)
  qed
  have event: "locked_out u p (add_event clock a y t det X)" if "locked_out u p X" for a y t det X
    using that by (simp add: locked_out_def signed_out_def add_event_def)
  have ended: "locked_out u p (snd (end_admin_session k X))" if "locked_out u p X" for k X
    using that by (auto simp: locked_out_def signed_out_def end_admin_session_def list_all_iff)
  have touched: "locked_out u p (snd (resolve_admin_session clock k X))" if "locked_out u p X" for k X
    using that by (auto simp: locked_out_def signed_out_def resolve_admin_session_def list_all_iff)
  show ?thesis
  proof (cases began)
    case False
    then show ?thesis using assms(1) b one event by (auto simp: admin_start_def)
  next
    case True
    define V2 where "V2 = (case old of None \<Rightarrow> V1 | Some k \<Rightarrow>
      if k = [] then V1 else snd (end_admin_session (sha256 C k) V1))"
    have "locked_out u p V2" unfolding V2_def using one ended by (auto split: option.splits)
    moreover have "W = snd (resolve_admin_session clock h (add_event clock Admin_signed_in (Some x) None None V2))"
      using assms(1) b True
      by (cases "resolve_admin_session clock h (add_event clock Admin_signed_in (Some x) None None V2)")
        (auto simp: admin_start_def V2_def [symmetric] split: option.splits)
    ultimately show ?thesis using event touched by simp
  qed
qed

lemma locked_out_refused:
  assumes "admin_start C clock kept user None h old V = Inr (r, W)" "locked_out u p V"
  shows "locked_out u p W"
  using assms by (auto simp: admin_start_def start_admin_session_def locked_out_def signed_out_def add_event_def
      split: option.splits)

text \<open>What a reset leaves.\<close>

lemma reset_Some:
  assumes "complete_reset clock locked h p V = (Some u, W)"
  shows "locked_out u p W"
  using assms
  by (auto simp: complete_reset_def reset_password_def locked_out_def signed_out_def list_all_iff Let_def
      split: option.splits prod.splits)

lemma locked_out_reset:
  assumes "complete_reset clock locked h q V = (Some x, W)" "locked_out u p V" "x \<noteq> u"
  shows "locked_out u p W"
proof -
  obtain R where W: "W = record_auth None None Password_reset_completed (Some x) R"
    and R: "reset_password clock locked h q V = (Some x, R)"
    using assms(1) by (auto simp: complete_reset_def split: prod.splits option.splits)
  obtain email l1 l2 where R': "R = (drop_sessions (\<lambda>b. b_user b = x)
      (V\<lparr>reset_links := l1, password_of := (password_of V)(x \<mapsto> q)\<rparr>))
      \<lparr>admin_sessions := filter (\<lambda>s. a_user s \<noteq> x) (admin_sessions V),
       account_sessions := filter (\<lambda>s. p_user s \<noteq> x) (account_sessions (drop_sessions (\<lambda>b. b_user b = x)
         (V\<lparr>reset_links := l1, password_of := (password_of V)(x \<mapsto> q)\<rparr>))), reset_links := l2\<rparr>"
    using R by (auto simp: reset_password_def Let_def split: option.splits)
  have "set (account_sessions (drop_sessions (\<lambda>b. b_user b = x)
      (V\<lparr>reset_links := l1, password_of := (password_of V)(x \<mapsto> q)\<rparr>))) \<subseteq> set (account_sessions V)"
    using drop_sessions_simps(8) [of "\<lambda>b. b_user b = x" "V\<lparr>reset_links := l1, password_of := (password_of V)(x \<mapsto> q)\<rparr>"] by simp
  then show ?thesis
    unfolding W R' using assms(2,3)
    by (auto simp: locked_out_def signed_out_def list_all_iff)
qed

lemma session_step_keeps_out:
  assumes "session_step C l V W" "keeps_out u p l" "locked_out u p V"
  shows "locked_out u p W"
  using assms
proof (induction rule: session_step.induct)
  case (console clock br tenant x q V r W)
  then show ?case by (intro locked_out_console [OF console(1,3)]) (simp add: keeps_out_def)
next
  case (person clock br x q V r W)
  then show ?case by (intro locked_out_person [OF person(1,3)]) (simp add: keeps_out_def)
next
  case (admin clock kept x q h old V r W)
  then show ?case by (intro locked_out_admin [OF admin(1,3)]) (simp add: keeps_out_def)
next
  case (admin_refused clock kept user h old V r W)
  then show ?case by (intro locked_out_refused [OF admin_refused(1,3)])
next
  case (previous V br)
  then show ?case by (blast intro: fewer_locked_out [OF fewer_previous])
next
  case (out_of_account V br)
  then show ?case by (blast intro: fewer_locked_out [OF fewer_out_of_account])
next
  case (out_of_console V br)
  then show ?case by (blast intro: fewer_locked_out [OF fewer_out_of_console])
next
  case (everywhere V clock tenant x h)
  obtain r W where e: "end_every_session clock x h V = (r, W)" by fastforce
  then have "fewer V (sign_out_everywhere clock tenant x h V)"
    using fewer_every [OF e] by (simp add: sign_out_everywhere_def)
  then show ?case using everywhere by (blast intro: fewer_locked_out)
next
  case (everywhere_account clock x h V W)
  obtain r X where e: "end_every_session clock x h V = (r, X)" by fastforce
  then have "fewer V W"
    using fewer_every [OF e] everywhere_account(1) by (auto simp: sign_out_everywhere_account_def split: bool.splits)
  then show ?case using everywhere_account by (blast intro: fewer_locked_out)
next
  case (resets clock locked h q V x W)
  then show ?case by (intro locked_out_reset [OF resets(1,3)]) (simp add: keeps_out_def)
next
  case (resets_nothing clock locked h q V W)
  then have "fewer V W"
    by (auto simp: complete_reset_def reset_password_def fewer_def Let_def split: option.splits prod.splits)
  then show ?case using resets_nothing by (blast intro: fewer_locked_out)
next
  case (resolves V clock h)
  then show ?case by (blast intro: fewer_locked_out [OF fewer_resolve])
next
  case (resolves_account V clock h)
  then show ?case by (blast intro: fewer_locked_out [OF fewer_resolve_account])
next
  case (sweeps V clock pick pick_admin pick_account)
  then show ?case by (blast intro: fewer_locked_out [OF fewer_sweep])
next
  case (reseats new t x V)
  have "locked_out u p (drop_sessions (\<lambda>b. b_tenant b = t \<and> b_user b = x) V)"
    using reseats(3) by (rule fewer_locked_out [OF fewer_drop])
  then show ?case by (simp add: locked_out_def signed_out_def)
next
  case (registers V email x q)
  then show ?case by (auto simp: locked_out_def signed_out_def)
next
  case (mails V l)
  then show ?case by (simp add: locked_out_def signed_out_def)
next
  case (grants clock email reason V r W)
  then show ?case by (blast intro: fewer_locked_out fewer_grant)
next
  case (second_factor V W)
  then have "fewer V W" by (simp add: no_start_def fewer_def)
  then show ?case using second_factor by (blast intro: fewer_locked_out)
qed

lemma session_steps_keep_out:
  "session_steps C ls V W \<Longrightarrow> list_all (keeps_out u p) ls \<Longrightarrow> locked_out u p V \<Longrightarrow> locked_out u p W"
  by (induction rule: session_steps.induct) (auto intro: session_step_keeps_out)

section \<open>Sessions hang on memberships, and account sessions on sessions\<close>

definition hung :: "identity \<Rightarrow> bool" where
  "hung V \<longleftrightarrow> distinct (map b_hash (sessions V)) \<and>
     list_all (\<lambda>b. (b_tenant b, b_user b, b_owner b) \<in> set (seats V)) (sessions V) \<and>
     list_all (\<lambda>s. case p_started_by s of
         None \<Rightarrow> True
       | Some h \<Rightarrow> list_ex (\<lambda>b. b_hash b = h \<and> b_user b = p_user s) (sessions V)) (account_sessions V)"

lemma hungD:
  assumes "hung V"
  shows "distinct (map b_hash (sessions V))"
    "b \<in> set (sessions V) \<Longrightarrow> (b_tenant b, b_user b, b_owner b) \<in> set (seats V)"
    "s \<in> set (account_sessions V) \<Longrightarrow> p_started_by s = Some h \<Longrightarrow>
       \<exists>b \<in> set (sessions V). b_hash b = h \<and> b_user b = p_user s"
  using assms by (auto simp: hung_def list_all_iff list_ex_iff)

lemma hungI:
  "distinct (map b_hash (sessions V)) \<Longrightarrow>
   (\<And>b. b \<in> set (sessions V) \<Longrightarrow> (b_tenant b, b_user b, b_owner b) \<in> set (seats V)) \<Longrightarrow>
   (\<And>s h. s \<in> set (account_sessions V) \<Longrightarrow> p_started_by s = Some h \<Longrightarrow>
      \<exists>b \<in> set (sessions V). b_hash b = h \<and> b_user b = p_user s) \<Longrightarrow> hung V"
  by (auto simp: hung_def list_all_iff list_ex_iff split: option.splits)

lemma hung_same:
  assumes "hung V" "sessions W = sessions V" "seats W = seats V"
    "set (account_sessions W) \<subseteq> set (account_sessions V)"
  shows "hung W"
  by (rule hungI) (use hungD [OF assms(1)] assms in auto)

lemma hung_drop:
  assumes "hung V"
  shows "hung (drop_sessions q V)"
proof (rule hungI)
  show "distinct (map b_hash (sessions (drop_sessions q V)))"
    using hungD(1) [OF assms] by (simp add: drop_sessions_def distinct_map_filter)
  show "(b_tenant b, b_user b, b_owner b) \<in> set (seats (drop_sessions q V))"
    if "b \<in> set (sessions (drop_sessions q V))" for b
    using that hungD(2) [OF assms] by simp
  fix s h assume s: "s \<in> set (account_sessions (drop_sessions q V))" "p_started_by s = Some h"
  then have m: "s \<in> set (account_sessions V)" "\<not> list_ex (\<lambda>b. b_hash b = h \<and> q b) (sessions V)"
    by (auto simp: drop_sessions_def)
  obtain b where b: "b \<in> set (sessions V)" "b_hash b = h" "b_user b = p_user s"
    using hungD(3) [OF assms m(1) s(2)] by blast
  then have "\<not> q b" using m(2) by (auto simp: list_ex_iff)
  then show "\<exists>b \<in> set (sessions (drop_sessions q V)). b_hash b = h \<and> b_user b = p_user s"
    using b by auto
qed

lemma hung_create:
  assumes "create_session clock kept tenant u h V = Inr W" "hung V"
  shows "hung W" "\<And>b. b \<in> set (sessions W) \<Longrightarrow> b_hash b = h \<Longrightarrow> b_user b = u"
proof -
  obtain o' where o': "(tenant, u, o') \<in> set (seats V)" "\<not> list_ex (\<lambda>b. b_hash b = h) (sessions V)"
    and W: "W = drop_sessions (\<lambda>b. b_expires_at b \<le> clock \<and> \<not> kept b)
      (V\<lparr>sessions := sessions V @ [\<lparr>b_hash = h, b_tenant = tenant, b_user = u, b_owner = o',
         b_expires_at = clock + SESSION_ABSOLUTE, b_last_seen_at = clock\<rparr>]\<rparr>)"
    using assms(1)
    by (auto simp: create_session_def split: option.splits if_splits dest!: first_row_filterD)
  have "hung (V\<lparr>sessions := sessions V @ [\<lparr>b_hash = h, b_tenant = tenant, b_user = u, b_owner = o',
         b_expires_at = clock + SESSION_ABSOLUTE, b_last_seen_at = clock\<rparr>]\<rparr>)"
    by (rule hungI) (use hungD [OF assms(2)] o' in \<open>auto simp: list_ex_iff\<close>)
  then show "hung W" unfolding W by (rule hung_drop)
  fix b assume b: "b \<in> set (sessions W)" "b_hash b = h"
  then have "b = \<lparr>b_hash = h, b_tenant = tenant, b_user = u, b_owner = o',
      b_expires_at = clock + SESSION_ABSOLUTE, b_last_seen_at = clock\<rparr>"
    using o'(2) unfolding W by (auto simp: list_ex_iff)
  then show "b_user b = u" by simp
qed

lemma hung_previous: "hung V \<Longrightarrow> hung (end_previous_account_session br V)"
  by (erule hung_same) (auto simp: end_previous_account_session_def end_account_session_def split: option.splits)

lemma hung_with_account:
  assumes "hung V" "\<And>x. by' = Some x \<Longrightarrow> \<exists>b \<in> set (sessions V). b_hash b = x \<and> b_user b = u"
  shows "hung (with_account clock kept u h by' V)"
  by (rule hungI) (use hungD [OF assms(1)] assms(2) in \<open>auto simp: with_account_def split: if_splits\<close>)

lemma hung_start_account:
  assumes "start_account clock br u p by' V = Inr (r, W)" "hung V"
    and "\<And>x b. by' = Some x \<Longrightarrow> b \<in> set (sessions V) \<Longrightarrow> b_hash b = x \<Longrightarrow> b_user b = u"
  shows "hung W"
proof -
  have e: "hung (end_previous_account_session br V)" "sessions (end_previous_account_session br V) = sessions V"
    using assms(2) by (simp_all add: hung_previous)
      (auto simp: end_previous_account_session_def end_account_session_def split: option.splits)
  show ?thesis
  proof (cases r)
    case True
    then have W: "W = with_account clock (kept_accounts br) u (new_account br) by' (end_previous_account_session br V)"
      and x: "\<And>x. by' = Some x \<Longrightarrow> list_ex (\<lambda>b. b_hash b = x) (sessions V)"
      using start_account_Inr [OF assms(1)] by simp_all
    show ?thesis
      unfolding W by (rule hung_with_account [OF e(1)]) (use x assms(3) e(2) in \<open>fastforce simp: list_ex_iff\<close>)
  next
    case False
    then show ?thesis using start_account_Inr [OF assms(1)] e(1) by simp
  qed
qed

lemma hung_record [simp]: "hung (record_auth t a x y V) \<longleftrightarrow> hung V"
  by (intro iffI; erule hung_same; simp)

lemma hung_console:
  assumes "sign_in_console clock br tenant u p V = Inr (r, W)" "hung V"
  shows "hung W"
proof -
  obtain V1 where V1: "create_session clock (kept_sessions br) tenant u (new_session br) V = Inr V1"
    and r: "(case start_account clock br u p (Some (new_session br))
        (case old_session br of None \<Rightarrow> V1 | Some h \<Rightarrow> drop_sessions (\<lambda>b. b_hash b = h) V1) of
      Inl e \<Rightarrow> Inl e | Inr (began, V3) \<Rightarrow> Inr (began, record_auth (Some tenant) (Some u) Sign_in_succeeded None V3)) = Inr (r, W)"
    using assms(1) by (auto simp: sign_in_console_def start_def Let_def split: sum.splits if_splits)
  let ?V2 = "case old_session br of None \<Rightarrow> V1 | Some h \<Rightarrow> drop_sessions (\<lambda>b. b_hash b = h) V1"
  have h: "hung ?V2" and n: "\<And>b. b \<in> set (sessions ?V2) \<Longrightarrow> b_hash b = new_session br \<Longrightarrow> b_user b = u"
    using hung_create [OF V1 assms(2)] by (auto simp: hung_drop split: option.splits)
  obtain V3 where s: "start_account clock br u p (Some (new_session br)) ?V2 = Inr (r, V3)"
    "W = record_auth (Some tenant) (Some u) Sign_in_succeeded None V3"
    using r by (auto split: sum.splits)
  have "hung V3" by (rule hung_start_account [OF s(1) h]) (use n in auto)
  then show ?thesis using s(2) by simp
qed

lemma hung_resolve_account: "hung V \<Longrightarrow> hung (snd (resolve_account_session clock h V))"
proof (rule hungI)
  assume v: "hung V"
  show "distinct (map b_hash (sessions (snd (resolve_account_session clock h V))))"
    using hungD(1) [OF v] by (simp add: resolve_account_session_def)
  show "(b_tenant b, b_user b, b_owner b) \<in> set (seats (snd (resolve_account_session clock h V)))"
    if "b \<in> set (sessions (snd (resolve_account_session clock h V)))" for b
    using that hungD(2) [OF v] by (simp add: resolve_account_session_def)
  fix s x assume s: "s \<in> set (account_sessions (snd (resolve_account_session clock h V)))" "p_started_by s = Some x"
  then obtain s0 where "s0 \<in> set (account_sessions V)" "p_started_by s0 = Some x" "p_user s0 = p_user s"
    by (auto simp: resolve_account_session_def split: if_splits)
  then show "\<exists>b \<in> set (sessions (snd (resolve_account_session clock h V))). b_hash b = x \<and> b_user b = p_user s"
    using hungD(3) [OF v] by (fastforce simp: resolve_account_session_def)
qed

lemma hung_person:
  assumes "sign_in_account clock br u p V = Inr (r, W)" "hung V"
  shows "hung W"
proof -
  obtain ended V1 where V1: "end_other_persons_business_session br u V = (ended, V1)" by fastforce
  have l1: "hung V1"
    using V1 assms(2) by (auto simp: end_other_persons_business_session_def hung_drop split: option.splits)
  obtain V2 where V2: "start_account clock br u p None V1 = Inr (True, V2)"
    and W: "W = snd (resolve_account_session clock (new_account br)
      (record_auth None (Some u) Account_signed_in (Some u) V2))"
    using assms(1) V1
    by (auto simp: sign_in_account_def Let_def split: if_splits sum.splits bool.splits option.splits prod.splits)
  have "hung V2" by (rule hung_start_account [OF V2 l1]) simp
  then show ?thesis unfolding W by (simp add: hung_resolve_account)
qed

lemma hung_touch:
  assumes "hung V"
  shows "hung (snd (resolve_session clock h V))"
proof (rule hungI)
  have "map b_hash (sessions (snd (resolve_session clock h V))) = map b_hash (sessions V)"
    unfolding resolve_session_def by (simp add: map_update_where_same)
  then show "distinct (map b_hash (sessions (snd (resolve_session clock h V))))"
    using hungD(1) [OF assms] by simp
  show "(b_tenant b, b_user b, b_owner b) \<in> set (seats (snd (resolve_session clock h V)))"
    if "b \<in> set (sessions (snd (resolve_session clock h V)))" for b
    using that hungD(2) [OF assms] by (auto simp: resolve_session_def split: if_splits)
  fix s x assume s: "s \<in> set (account_sessions (snd (resolve_session clock h V)))" "p_started_by s = Some x"
  then obtain b where "b \<in> set (sessions V)" "b_hash b = x" "b_user b = p_user s"
    using hungD(3) [OF assms] by (auto simp: resolve_session_def)
  then show "\<exists>b \<in> set (sessions (snd (resolve_session clock h V))). b_hash b = x \<and> b_user b = p_user s"
    by (intro bexI [of _ "if b_hash b = h \<and> live_session clock b \<and> b_last_seen_at b < clock - TOUCH_EVERY
        then b\<lparr>b_last_seen_at := clock\<rparr> else b"]) (auto simp: resolve_session_def)
qed

lemma hung_admin:
  assumes "admin_start C clock kept user hash h old V = Inr (r, W)" "hung V"
  shows "hung W"
proof -
  have "sessions W = sessions V \<and> seats W = seats V \<and> account_sessions W = account_sessions V"
  proof -
    obtain began V1 where b: "start_admin_session clock kept user hash h V = Inr (began, V1)"
      using assms(1) by (cases "start_admin_session clock kept user hash h V") (auto simp: admin_start_def)
    have one: "sessions V1 = sessions V \<and> seats V1 = seats V \<and> account_sessions V1 = account_sessions V"
      using b by (auto simp: start_admin_session_def split: option.splits if_splits)
    show ?thesis
    proof (cases began)
      case False
      then show ?thesis using assms(1) b one by (auto simp: admin_start_def add_event_def)
    next
      case True
      define V2 where "V2 = (case old of None \<Rightarrow> V1 | Some k \<Rightarrow>
        if k = [] then V1 else snd (end_admin_session (sha256 C k) V1))"
      have two: "sessions V2 = sessions V1 \<and> seats V2 = seats V1 \<and> account_sessions V2 = account_sessions V1"
        by (auto simp: V2_def end_admin_session_def split: option.splits)
      have "W = snd (resolve_admin_session clock h (add_event clock Admin_signed_in user None None V2))"
        using assms(1) b True
        by (cases "resolve_admin_session clock h (add_event clock Admin_signed_in user None None V2)")
          (auto simp: admin_start_def V2_def [symmetric] split: option.splits)
      then show ?thesis using one two by (simp add: resolve_admin_session_def add_event_def)
    qed
  qed
  then show ?thesis using assms(2) by (auto intro: hung_same)
qed

lemma hung_end_account: "hung V \<Longrightarrow> hung (snd (end_account_session h V))"
  by (erule hung_same) (auto simp: end_account_session_def)

lemma hung_every: "end_every_session clock u h V = (r, W) \<Longrightarrow> hung V \<Longrightarrow> hung W"
proof -
  assume e: "end_every_session clock u h V = (r, W)" and v: "hung V"
  obtain who V1 where a: "end_account_sessions clock h V = (who, V1)" by fastforce
  have "hung V1"
    using v by (rule hung_same) (use a in \<open>auto simp: end_account_sessions_def split: option.splits\<close>)
  then show "hung W" using e a by (auto simp: end_every_session_def hung_drop)
qed

lemma hung_reset: "complete_reset clock locked h p V = (r, W) \<Longrightarrow> hung V \<Longrightarrow> hung W"
proof -
  assume c: "complete_reset clock locked h p V = (r, W)" and v: "hung V"
  obtain who R where R: "reset_password clock locked h p V = (who, R)" by fastforce
  have "hung R"
  proof (cases who)
    case None
    show ?thesis
      using v by (rule hung_same) (use R None in \<open>auto simp: reset_password_def Let_def split: option.splits prod.splits\<close>)
  next
    case (Some u)
    obtain email l1 l2 where R': "R = (drop_sessions (\<lambda>b. b_user b = u)
        (V\<lparr>reset_links := l1, password_of := (password_of V)(u \<mapsto> p)\<rparr>))
        \<lparr>admin_sessions := filter (\<lambda>s. a_user s \<noteq> u) (admin_sessions V),
         account_sessions := filter (\<lambda>s. p_user s \<noteq> u) (account_sessions (drop_sessions (\<lambda>b. b_user b = u)
           (V\<lparr>reset_links := l1, password_of := (password_of V)(u \<mapsto> p)\<rparr>))), reset_links := l2\<rparr>"
      using R Some by (auto simp: reset_password_def Let_def split: option.splits)
    have "hung (drop_sessions (\<lambda>b. b_user b = u) (V\<lparr>reset_links := l1, password_of := (password_of V)(u \<mapsto> p)\<rparr>))"
      by (rule hung_drop, rule hung_same [OF v]) simp_all
    then show ?thesis unfolding R' by (rule hung_same) auto
  qed
  then show "hung W"
    using c R by (cases who) (auto simp: complete_reset_def)
qed

lemma hung_sweep: "hung V \<Longrightarrow> hung (sweep_sessions clock pick pick_admin pick_account V)"
  unfolding sweep_sessions_def Let_def by (rule hung_same [OF hung_drop]) auto

lemma session_step_hung: "session_step C l V W \<Longrightarrow> hung V \<Longrightarrow> hung W"
proof (induction rule: session_step.induct)
  case (out_of_account V br)
  then show ?case
    using hung_end_account [of V]
    by (auto simp: sign_out_of_account_def split: option.splits prod.splits) (metis snd_conv)+
next
  case (out_of_console V br)
  then show ?case by (simp add: sign_out_of_console_def hung_drop split: option.splits)
next
  case (everywhere V clock tenant u h)
  obtain r W where "end_every_session clock u h V = (r, W)" by fastforce
  then show ?case using everywhere by (simp add: sign_out_everywhere_def hung_every)
next
  case (everywhere_account clock u h V W)
  obtain r X where "end_every_session clock u h V = (r, X)" by fastforce
  then show ?case
    using everywhere_account hung_every by (auto simp: sign_out_everywhere_account_def split: bool.splits)
next
  case (reseats new t u V)
  have d: "hung (drop_sessions (\<lambda>b. b_tenant b = t \<and> b_user b = u) V)"
    using reseats(2) by (rule hung_drop)
  show ?case
    by (rule hungI) (use hungD [OF d] hungD(2) [OF reseats(2)] in auto)
next
  case (registers V email u p)
  show ?case by (rule hung_same [OF registers(3)]) simp_all
next
  case (mails V l)
  show ?case by (rule hung_same [OF mails]) simp_all
next
  case (grants clock email reason V r W)
  show ?case
    by (rule hung_same [OF grants(2)])
      (use grants(1) in \<open>auto simp: grant_admin_def add_command_def Let_def split: if_splits option.splits\<close>)
next
  case (second_factor V W)
  show ?case by (rule hung_same [OF second_factor(3)]) (use second_factor(2) in \<open>simp_all add: no_start_def\<close>)
qed (simp_all add: hung_previous hung_touch hung_resolve_account hung_sweep, (blast intro: hung_console hung_person hung_admin hung_reset)+)

lemma session_steps_hung: "session_steps C ls V W \<Longrightarrow> hung V \<Longrightarrow> hung W"
  by (induction rule: session_steps.induct) (auto intro: session_step_hung)

lemma hung_new [simp]: "hung new_identity"
  by (simp add: hung_def new_identity_def)

section \<open>Passwords and their limits\<close>

text \<open>
  The keys the routes charge: an address, a number of an email, and an email from an address
  (\<open>attempt_key\<close>). \<open>matches\<close> is argon2's check of a stored hash, \<open>DUMMY\<close> the hash an unknown account is
  checked against, \<open>passes\<close> Turnstile's word on a token for an action, \<open>busy\<close> that no slot to hash in
  was free.
\<close>

datatype sign_key = By_address string bucket | By_email string string | Attempt string string bucket

definition SIGN_IN_WINDOW :: int where "SIGN_IN_WINDOW = 15 * minute_us"
definition PER_ADDRESS_LIMIT :: int where "PER_ADDRESS_LIMIT = 10"
definition FAILURES_BEFORE_CHALLENGE :: int where "FAILURES_BEFORE_CHALLENGE = PER_ADDRESS_LIMIT + 1"
definition PASSWORD_ACTIONS :: "string list" where "PASSWORD_ACTIONS = [''sign_in'', ''admin_sign_in'']"

record outside =
  matches :: "string \<Rightarrow> string \<Rightarrow> bool"
  DUMMY :: string
  passes :: "string \<Rightarrow> string \<Rightarrow> bool"
  busy :: bool

record credentials =
  cr_email :: string
  cr_password :: string
  cr_turnstile :: "string option"

definition verify :: "outside \<Rightarrow> string option \<Rightarrow> string \<Rightarrow> bool" where
  "verify X stored password \<longleftrightarrow>
     matches X (case stored of None \<Rightarrow> DUMMY X | Some h \<Rightarrow> if h = [] then DUMMY X else h) password \<and>
     stored \<noteq> None"

text \<open>\<open>account_by_email\<close>: the user, their hash and the tenant of their oldest live membership.\<close>

definition account_by_email :: "string \<Rightarrow> identity \<Rightarrow> (uuid \<times> string option \<times> uuid option) option" where
  "account_by_email email V = map_option (\<lambda>u. (u, password_of V u,
     map_option fst (first_row (filter (\<lambda>(_, x, _). x = u) (seats V))))) (accounts V email)"

definition stored_hash :: "(uuid \<times> string option \<times> uuid option) option \<Rightarrow> string option" where
  "stored_hash account = (case account of None \<Rightarrow> None | Some (_, h, _) \<Rightarrow> h)"

definition attempt_key :: "string \<Rightarrow> ip option \<Rightarrow> sign_key" where
  "attempt_key email host = Attempt ''sign_in'' email (ip_bucket 64 host)"

definition require_challenge ::
  "outside \<Rightarrow> instant \<Rightarrow> string \<Rightarrow> credentials \<Rightarrow> int \<Rightarrow> sign_key table \<Rightarrow> api_error option" where
  "require_challenge X clock action cr threshold t =
     (case count_all clock (map (\<lambda>counted. By_email (counted @ ''_failed'') (cr_email cr)) PASSWORD_ACTIONS)
             SIGN_IN_WINDOW t of
        Inl e \<Rightarrow> Some e
      | Inr failures \<Rightarrow>
          if threshold \<le> failures \<and> (case cr_turnstile cr of
               None \<Rightarrow> True | Some token \<Rightarrow> token = [] \<or> \<not> passes X action token)
          then Some (ApiError 429 ''challenge_required'') else None)"

definition limit_attempt ::
  "outside \<Rightarrow> instant \<Rightarrow> (sign_key \<Rightarrow> bool) \<Rightarrow> ip option \<Rightarrow> credentials \<Rightarrow> sign_key table \<Rightarrow>
   api_error option \<times> sign_key table" where
  "limit_attempt X clock purged host cr t =
     (case hit clock purged [(attempt_key (cr_email cr) host, PER_ADDRESS_LIMIT)] SIGN_IN_WINDOW t of
        Inl e \<Rightarrow> (Some e, t)
      | Inr (t1, over) \<Rightarrow>
          if over then (Some (ApiError 429 ''rate_limited''), t1)
          else (require_challenge X clock ''sign_in'' cr FAILURES_BEFORE_CHALLENGE t1, t1))"

definition count_failure ::
  "instant \<Rightarrow> (sign_key \<Rightarrow> bool) \<Rightarrow> string \<Rightarrow> string \<Rightarrow> int \<Rightarrow> sign_key table \<Rightarrow> sign_key table \<times> bool" where
  "count_failure clock purged email action threshold t =
     (case charge clock purged (By_email (action @ ''_failed'') email) SIGN_IN_WINDOW t of
        Inl e \<Rightarrow> (t, False)
      | Inr (t', n) \<Rightarrow> (t', n = threshold))"

definition check_credentials ::
  "outside \<Rightarrow> instant \<Rightarrow> (sign_key \<Rightarrow> bool) \<Rightarrow> ip option \<Rightarrow> browser \<Rightarrow> credentials \<Rightarrow> identity \<Rightarrow> sign_key table \<Rightarrow>
   (uuid \<times> string option \<times> uuid option) result \<times> identity \<times> sign_key table" where
  "check_credentials X clock purged host br cr V t =
     (case hit clock purged [(By_address ''sign_in'' (ip_bucket AUTH_V6_PREFIX host), 50)] SIGN_IN_WINDOW t of
        Inl e \<Rightarrow> (Inl e, V, t)
      | Inr (t1, over) \<Rightarrow>
          if over then (Inl (ApiError 429 ''rate_limited''), V, t1)
          else (case limit_attempt X clock purged host cr t1 of
            (Some e, t2) \<Rightarrow> (Inl e, V, t2)
          | (None, t2) \<Rightarrow>
              if busy X then (Inl (ApiError 503 ''busy''), V, t2)
              else if \<not> verify X (stored_hash (account_by_email (cr_email cr) V)) (cr_password cr)
              then (Inl invalid_credentials,
                    record_auth None None Sign_in_failed (map_option fst (account_by_email (cr_email cr) V)) V,
                    fst (count_failure clock purged (cr_email cr) ''sign_in'' FAILURES_BEFORE_CHALLENGE t2))
              else (case account_by_email (cr_email cr) V of
                None \<Rightarrow> (Inl (Uncaught ''AssertionError''), V, t2)
              | Some account \<Rightarrow> (Inr account, end_previous_account_session br V, t2))))"

text \<open>\<open>auth.sign_in\<close> and \<open>platform_account.sign_in\<close>.\<close>

definition sign_in ::
  "outside \<Rightarrow> instant \<Rightarrow> (sign_key \<Rightarrow> bool) \<Rightarrow> ip option \<Rightarrow> browser \<Rightarrow> credentials \<Rightarrow> identity \<Rightarrow> sign_key table \<Rightarrow>
   bool result \<times> identity \<times> sign_key table" where
  "sign_in X clock purged host br cr V t =
     (case check_credentials X clock purged host br cr V t of
        (Inl e, V1, t1) \<Rightarrow> (Inl e, V1, t1)
      | (Inr (u, p, None), V1, t1) \<Rightarrow> (Inl no_tenant, V1, t1)
      | (Inr (u, p, Some tenant), V1, t1) \<Rightarrow>
          (case sign_in_console clock br tenant u p V1 of
             Inl e \<Rightarrow> (Inl e, V1, t1)
           | Inr (began, V2) \<Rightarrow> (Inr began, V2, t1)))"

definition sign_in_to_account ::
  "outside \<Rightarrow> instant \<Rightarrow> (sign_key \<Rightarrow> bool) \<Rightarrow> ip option \<Rightarrow> browser \<Rightarrow> credentials \<Rightarrow> identity \<Rightarrow> sign_key table \<Rightarrow>
   bool result \<times> identity \<times> sign_key table" where
  "sign_in_to_account X clock purged host br cr V t =
     (case check_credentials X clock purged host br cr V t of
        (Inl e, V1, t1) \<Rightarrow> (Inl e, V1, t1)
      | (Inr (u, p, _), V1, t1) \<Rightarrow>
          (case sign_in_account clock br u p V1 of
             Inl e \<Rightarrow> (Inl e, V1, t1)
           | Inr (ended, V2) \<Rightarrow> (Inr ended, V2, t1)))"

text \<open>\<open>admin_auth.sign_in\<close>; \<open>id_hash\<close> is the new token's, \<open>old\<close> the cookie the browser sent.\<close>

definition sign_in_admin ::
  "outside \<Rightarrow> crypto \<Rightarrow> instant \<Rightarrow> (sign_key \<Rightarrow> bool) \<Rightarrow> (admin_session \<Rightarrow> bool) \<Rightarrow> ip option \<Rightarrow> string option \<Rightarrow>
   bytes \<Rightarrow> credentials \<Rightarrow> identity \<Rightarrow> sign_key table \<Rightarrow> admin_view result \<times> identity \<times> sign_key table" where
  "sign_in_admin X C clock purged kept host old id_hash cr V t =
     (case hit clock purged
             [(Attempt ''admin_sign_in'' (cr_email cr) (ip_bucket 64 host), 5),
              (attempt_key (cr_email cr) host, PER_ADDRESS_LIMIT),
              (By_address ''admin_sign_in'' (ip_bucket AUTH_V6_PREFIX host), 20)] SIGN_IN_WINDOW t of
        Inl e \<Rightarrow> (Inl e, V, t)
      | Inr (t1, over) \<Rightarrow>
          if over then (Inl (ApiError 429 ''rate_limited''), V, t1)
          else (case require_challenge X clock ''admin_sign_in'' cr FAILURES_BEFORE_CHALLENGE t1 of
            Some e \<Rightarrow> (Inl e, V, t1)
          | None \<Rightarrow>
              if busy X then (Inl (ApiError 503 ''busy''), V, t1)
              else let account = account_by_email (cr_email cr) V;
                       verified = verify X (stored_hash account) (cr_password cr)
                   in (case admin_start C clock kept (map_option fst account)
                             (if verified then stored_hash account else None) id_hash old V of
                         Inl e \<Rightarrow> (Inl e, V, t1)
                       | Inr (None, V1) \<Rightarrow> (Inl invalid_credentials, V1,
                           fst (count_failure clock purged (cr_email cr) ''admin_sign_in''
                             FAILURES_BEFORE_CHALLENGE t1))
                       | Inr (Some w, V1) \<Rightarrow> (Inr w, V1, t1))))"

text \<open>The guards: \<open>resolve\<close>, \<open>named\<close> and \<open>owner\<close>, and \<open>account_session\<close> with \<open>same_origin\<close>.\<close>

definition session_guard ::
  "instant \<Rightarrow> bytes option \<Rightarrow> identity \<Rightarrow> (uuid \<times> uuid \<times> bool) result \<times> identity" where
  "session_guard clock cookie V =
     (case cookie of
        None \<Rightarrow> (Inl unauthenticated, V)
      | Some h \<Rightarrow> (case resolve_session clock h V of
          (None, V1) \<Rightarrow> (Inl unauthenticated, V1) | (Some s, V1) \<Rightarrow> (Inr s, V1)))"

definition named_guard :: "(uuid \<Rightarrow> bool) \<Rightarrow> (uuid \<times> uuid \<times> bool) result \<Rightarrow> (uuid \<times> uuid \<times> bool) result" where
  "named_guard has_name r = (case r of
     Inl e \<Rightarrow> Inl e
   | Inr (t, u, o') \<Rightarrow> if has_name u then Inr (t, u, o') else Inl (ApiError 403 ''name_required''))"

definition owner_guard :: "(uuid \<times> uuid \<times> bool) result \<Rightarrow> (uuid \<times> uuid \<times> bool) result" where
  "owner_guard r = (case r of
     Inl e \<Rightarrow> Inl e
   | Inr (t, u, o') \<Rightarrow> if o' then Inr (t, u, o') else Inl (ApiError 403 ''owner_only''))"

definition account_guard ::
  "instant \<Rightarrow> bytes option \<Rightarrow> identity \<Rightarrow> (uuid \<times> bool) result \<times> identity" where
  "account_guard clock cookie V =
     (case cookie of
        None \<Rightarrow> (Inl unauthenticated, V)
      | Some h \<Rightarrow> (case resolve_account_session clock h V of
          (None, V1) \<Rightarrow> (Inl unauthenticated, V1) | (Some s, V1) \<Rightarrow> (Inr s, V1)))"

definition same_origin :: "string option \<Rightarrow> api_error option" where
  "same_origin site = (case site of
     None \<Rightarrow> None
   | Some s \<Rightarrow> if s \<noteq> ''same-origin'' then Some (ApiError 403 ''cross_site'') else None)"

section \<open>Attempts from elsewhere\<close>

inductive attempts_elsewhere :: "ip option \<Rightarrow> sign_key table \<Rightarrow> sign_key table \<Rightarrow> bool" for own where
  nobody: "attempts_elsewhere own t t"
| sign_in_elsewhere: "attempts_elsewhere own t t1 \<Longrightarrow>
    ip_bucket 64 host \<noteq> ip_bucket 64 own \<Longrightarrow> ip_bucket AUTH_V6_PREFIX host \<noteq> ip_bucket AUTH_V6_PREFIX own \<Longrightarrow>
    check_credentials X clock purged host br cr V t1 = (r, W, t2) \<Longrightarrow> attempts_elsewhere own t t2"
| admin_elsewhere: "attempts_elsewhere own t t1 \<Longrightarrow>
    ip_bucket 64 host \<noteq> ip_bucket 64 own \<Longrightarrow> ip_bucket AUTH_V6_PREFIX host \<noteq> ip_bucket AUTH_V6_PREFIX own \<Longrightarrow>
    sign_in_admin X C clock purged kept host old id_hash cr V t1 = (r, W, t2) \<Longrightarrow> attempts_elsewhere own t t2"

lemma hit_untouched:
  "hit clock purged lims w t = Inr (t', over) \<Longrightarrow> k \<notin> fst ` set lims \<Longrightarrow> t k = None \<Longrightarrow> t' k = None"
  by (auto simp: hit_def charge_keys_def Let_def PURGE_def HIT_other split: sum.splits)

lemma charge_untouched:
  "charge clock purged x w t = Inr (t', n) \<Longrightarrow> k \<noteq> x \<Longrightarrow> t k = None \<Longrightarrow> t' k = None"
  by (auto simp: charge_def charge_keys_def Let_def PURGE_def split: sum.splits)

lemma count_failure_untouched:
  assumes "t k = None" "k \<noteq> By_email (action @ ''_failed'') email"
  shows "fst (count_failure clock purged email action threshold t) k = None"
  using assms charge_untouched [of clock purged "By_email (action @ ''_failed'') email" SIGN_IN_WINDOW t _ _ k]
  by (auto simp: count_failure_def split: sum.splits)

lemma check_credentials_untouched:
  assumes c: "check_credentials X clock purged host br cr V t = (r, W, t')" and "t k = None"
    and "k \<noteq> By_address ''sign_in'' (ip_bucket AUTH_V6_PREFIX host)" "k \<noteq> attempt_key (cr_email cr) host"
    and "\<And>a e. k \<noteq> By_email a e"
  shows "t' k = None"
proof (cases "hit clock purged [(By_address ''sign_in'' (ip_bucket AUTH_V6_PREFIX host), 50)] SIGN_IN_WINDOW t")
  case (Inl e)
  then show ?thesis using c assms(2) by (simp add: check_credentials_def)
next
  case (Inr y)
  obtain t1 over where y: "y = (t1, over)" by (cases y)
  have t1: "t1 k = None" using hit_untouched [OF Inr [unfolded y]] assms(2,3) by simp
  obtain e t2 where l: "limit_attempt X clock purged host cr t1 = (e, t2)" by fastforce
  have t2: "t2 k = None"
    using l t1 assms(4) hit_untouched [of clock purged "[(attempt_key (cr_email cr) host, PER_ADDRESS_LIMIT)]"
        SIGN_IN_WINDOW t1 t2 _ k]
    by (auto simp: limit_attempt_def split: sum.splits prod.splits if_splits)
  have cf: "fst (count_failure clock purged (cr_email cr) a n t2) k = None" for a n
    by (rule count_failure_untouched [where t = t2, OF t2 assms(5)])
  show ?thesis
    using c Inr y l t1 t2 cf
    by (auto simp: check_credentials_def split: if_splits option.splits)
qed

lemma sign_in_admin_untouched:
  assumes c: "sign_in_admin X C clock purged kept host old id_hash cr V t = (r, W, t')" and "t k = None"
    and "\<And>b. k \<noteq> By_address ''admin_sign_in'' b" "\<And>e b. k \<noteq> Attempt ''admin_sign_in'' e b"
    and "k \<noteq> attempt_key (cr_email cr) host" "\<And>a e. k \<noteq> By_email a e"
  shows "t' k = None"
proof (cases "hit clock purged
       [(Attempt ''admin_sign_in'' (cr_email cr) (ip_bucket 64 host), 5),
        (attempt_key (cr_email cr) host, PER_ADDRESS_LIMIT),
        (By_address ''admin_sign_in'' (ip_bucket AUTH_V6_PREFIX host), 20)] SIGN_IN_WINDOW t")
  case (Inl e)
  then show ?thesis using c assms(2) by (simp add: sign_in_admin_def)
next
  case (Inr y)
  obtain t1 over where y: "y = (t1, over)" by (cases y)
  have t1: "t1 k = None"
    by (rule hit_untouched [OF Inr [unfolded y] _ assms(2)]) (use assms(3,4,5) in auto)
  have cf: "fst (count_failure clock purged (cr_email cr) a n t1) k = None" for a n
    by (rule count_failure_untouched [where t = t1, OF t1 assms(6)])
  show ?thesis
    using c Inr y t1 cf
    by (auto simp: sign_in_admin_def Let_def split: if_splits option.splits sum.splits)
qed

lemma elsewhere_untouched:
  assumes "attempts_elsewhere own t t'" "t k = None"
    and "k = By_address ''sign_in'' (ip_bucket AUTH_V6_PREFIX own) \<or> k = attempt_key email own"
  shows "t' k = None"
  using assms
proof (induction rule: attempts_elsewhere.induct)
  case (sign_in_elsewhere t t1 host X clock purged br cr V r W t2)
  then have "t1 k = None" by blast
  then show ?case
    by (rule check_credentials_untouched [OF sign_in_elsewhere.hyps(4)])
      (use sign_in_elsewhere in \<open>auto simp: attempt_key_def\<close>)
next
  case (admin_elsewhere t t1 host X C clock purged kept old id_hash cr V r W t2)
  then have "t1 k = None" by blast
  then show ?case
    by (rule sign_in_admin_untouched [OF admin_elsewhere.hyps(4)])
      (use admin_elsewhere in \<open>auto simp: attempt_key_def\<close>)
qed

lemma hit_first:
  assumes "t k = None" "w \<le> MAX_WINDOW" "1 \<le> n"
  shows "\<exists>t'. hit clock purged [(k, n)] w t = Inr (t', False) \<and> (\<forall>x. x \<noteq> k \<longrightarrow> t x = None \<longrightarrow> t' x = None)"
  using assms
  by (auto simp: hit_def charge_keys_def check_window_def Let_def hits_at_def hit_row_def PURGE_def)

lemma credentials_window_ok: "SIGN_IN_WINDOW \<le> MAX_WINDOW"
  by (simp add: SIGN_IN_WINDOW_def MAX_WINDOW_def)

lemma count_all_Inr: "\<exists>n. count_all clock ks SIGN_IN_WINDOW t = Inr n"
  using credentials_window_ok by (simp add: count_all_def check_window_def)

lemma challenge_passed:
  assumes "cr_turnstile cr = Some token" "token \<noteq> []" "passes X action token"
  shows "require_challenge X clock action cr n t = None"
  using assms count_all_Inr [of clock "map (\<lambda>counted. By_email (counted @ ''_failed'') (cr_email cr)) PASSWORD_ACTIONS" t]
  by (auto simp: require_challenge_def)

lemma admin_start_refused:
  assumes "hash = None \<or> (case user of None \<Rightarrow> True | Some u \<Rightarrow> u \<notin> set (admins V))"
  shows "\<exists>W. admin_start C clock kept user hash id_hash old V = Inr (None, W)"
  using assms by (auto simp: admin_start_def start_admin_session_def split: option.splits)

definition not_admin :: "outside \<Rightarrow> credentials \<Rightarrow> identity \<Rightarrow> bool" where
  "not_admin X cr V \<longleftrightarrow> \<not> verify X (stored_hash (account_by_email (cr_email cr) V)) (cr_password cr) \<or>
     (case accounts V (cr_email cr) of None \<Rightarrow> True | Some u \<Rightarrow> u \<notin> set (admins V))"

lemma not_admin_start:
  assumes "not_admin X cr V"
  shows "\<exists>W. admin_start C clock kept (map_option fst (account_by_email (cr_email cr) V))
    (if verify X (stored_hash (account_by_email (cr_email cr) V)) (cr_password cr)
     then stored_hash (account_by_email (cr_email cr) V) else None) id_hash old V = Inr (None, W)"
  by (rule admin_start_refused)
    (use assms in \<open>auto simp: not_admin_def account_by_email_def split: option.splits\<close>)

section \<open>A sample person\<close>

definition sample_browser :: browser where
  "sample_browser = \<lparr>old_session = None, old_account = None, new_session = ''s'', new_account = ''a'',
     kept_sessions = (\<lambda>_. False), kept_accounts = (\<lambda>_. False)\<rparr>"

definition person1 :: identity where
  "person1 = new_identity\<lparr>accounts := (accounts new_identity)(''a@b.c'' \<mapsto> 7),
     password_of := (password_of new_identity)(7 \<mapsto> ''old'')\<rparr>"
definition person2 :: identity where
  "person2 = (drop_sessions (\<lambda>b. b_tenant b = 1 \<and> b_user b = 7) person1)
     \<lparr>seats := filter (\<lambda>(x, y, _). \<not> (x = 1 \<and> y = 7)) (seats person1) @ [(1, 7, True)]\<rparr>"
definition person3 :: identity where
  "person3 = state_of (sign_in_console 0 sample_browser 1 7 (Some ''old'') person2)"
definition person4 :: identity where
  "person4 = person3\<lparr>reset_links := reset_links person3 @ [(''link'', ''a@b.c'', hour_us)]\<rparr>"
definition person5 :: identity where
  "person5 = snd (complete_reset minute_us (\<lambda>_. False) ''link'' ''new'' person4)"

lemma sign_in_state:
  "\<not> isl x \<Longrightarrow> \<exists>r. x = Inr (r, state_of x)"
  by (cases x) (auto simp: state_of_def)

lemma steps_person3: "session_steps C [Neither, Neither, Starts 7 ''old''] new_identity person3"
proof -
  have "session_step C Neither new_identity person1"
    unfolding person1_def by (rule session_step.registers) code_simp+
  moreover have "session_step C Neither person1 person2"
    unfolding person2_def by (rule session_step.reseats) simp
  moreover have "session_step C (Starts 7 ''old'') person2 person3"
  proof -
    have n: "\<not> isl (sign_in_console 0 sample_browser 1 7 (Some ''old'') person2)" by code_simp
    obtain r where "sign_in_console 0 sample_browser 1 7 (Some ''old'') person2 = Inr (r, person3)"
      using sign_in_state [OF n] unfolding person3_def by blast
    then show ?thesis by (rule session_step.console)
  qed
  ultimately have "session_steps C ((([] @ [Neither]) @ [Neither]) @ [Starts 7 ''old'']) new_identity person3"
    by (blast intro: session_steps.intros)
  then show ?thesis by simp
qed

definition sample_outside :: outside where
  "sample_outside = \<lparr>matches = (\<lambda>h p. h = p), DUMMY = ''dummy'', passes = (\<lambda>a k. k = ''solved''), busy = False\<rparr>"

definition sample_credentials :: credentials where
  "sample_credentials = \<lparr>cr_email = ''a@b.c'', cr_password = ''old'', cr_turnstile = Some ''solved''\<rparr>"

section \<open>The properties\<close>

text \<open>
  A password reset ends every session of the person, business, account and admin, and for good: no
  later history starts another before someone proves the new password, whatever sign-ins had verified
  the old one before the reset and however they interleave with it.
\<close>

text \<open>
  C17: A password reset ends every session of the person, of a business, of the account and of
  the platform, for good: no later history of transactions starts one before someone proves
  the new password, whatever sign-ins had verified the old one.
\<close>

theorem reset_signs_out_for_good:
  assumes "complete_reset clock locked h p V = (Some u, W)" "session_steps C ls W Y"
    and "list_all (keeps_out u p) ls"
  shows "locked_out u p Y"
  by (rule session_steps_keep_out [OF assms(2,3) reset_Some [OF assms(1)]])

theorem reset_signs_out_for_good_witness:
  "sessions person4 \<noteq> [] \<and>
   locked_out 7 ''new'' (sweep_sessions hour_us (\<lambda>_. True) (\<lambda>_. True) (\<lambda>_. True) person5)"
proof -
  have r: "complete_reset minute_us (\<lambda>_. False) ''link'' ''new'' person4 = (Some 7, person5)"
    unfolding person5_def by (rule prod_eqI) (simp_all, code_simp)
  have st: "session_steps sample_crypto ([] @ [Neither]) person5
      (sweep_sessions hour_us (\<lambda>_. True) (\<lambda>_. True) (\<lambda>_. True) person5)"
    by (rule session_steps.more [OF session_steps.none session_step.sweeps])
  have "locked_out 7 ''new'' (sweep_sessions hour_us (\<lambda>_. True) (\<lambda>_. True) (\<lambda>_. True) person5)"
    by (rule reset_signs_out_for_good [OF r st]) (simp add: keeps_out_def)
  moreover have "sessions person4 \<noteq> []" by code_simp
  ultimately show ?thesis by blast
qed

text \<open>
  In every history an account session started with a console sign-in is usable only while that very
  business session is live, of the same person, and their membership and role stand.
\<close>

text \<open>
  C18: In every history an account session started with a console sign-in is usable only while
  that very business session is live, of the same person, and their membership and role stand.
\<close>

theorem account_session_needs_its_console:
  assumes "session_steps C ls new_identity Y" "s \<in> set (account_sessions Y)" "p_started_by s = Some h"
    and "usable clock Y s"
  shows "\<exists>b \<in> set (sessions Y). b_hash b = h \<and> b_user b = p_user s \<and> live_session clock b \<and>
    (b_tenant b, b_user b, b_owner b) \<in> set (seats Y)"
proof -
  have v: "hung Y" by (rule session_steps_hung [OF assms(1) hung_new])
  obtain b where b: "b \<in> set (sessions Y)" "b_hash b = h" "b_user b = p_user s"
    using hungD(3) [OF v assms(2,3)] by blast
  obtain b' where b': "b' \<in> set (sessions Y)" "b_hash b' = h" "live_session clock b'"
    using assms(3,4) by (auto simp: usable_def list_ex_iff)
  have "b' = b"
    using hungD(1) [OF v] b b' by (metis distinct_map inj_on_eq_iff)
  then show ?thesis using b b' hungD(2) [OF v b(1)] by blast
qed

theorem account_session_needs_its_console_witness:
  "\<exists>b \<in> set (sessions person3). b_hash b = ''s'' \<and> b_user b = 7 \<and> live_session hour_us b \<and>
     (b_tenant b, b_user b, b_owner b) \<in> set (seats person3)"
proof -
  let ?s = "hd (account_sessions person3)"
  have m: "?s \<in> set (account_sessions person3)" by code_simp
  have h: "p_started_by ?s = Some ''s''" by code_simp
  have u: "usable hour_us person3 ?s" by code_simp
  have seven: "p_user ?s = 7" by code_simp
  show ?thesis
    using account_session_needs_its_console [OF steps_person3 m h u] unfolding seven .
qed

text \<open>
  A failed sign-in tells no one who has an account or is an admin: for one request, whether the email
  is unknown, its password wrong or (at the admin's) its person no admin, the answer and every limit
  and failure counted are the same.
\<close>

text \<open>
  C19: A failed sign-in, to a business, an account or the platform's administration, answers
  and counts alike whether the email is unknown, the password wrong or the person no admin.
\<close>

theorem failed_sign_in_tells_nothing:
  assumes "\<not> verify X (stored_hash (account_by_email (cr_email cr) V)) (cr_password cr)"
    and "\<not> verify X (stored_hash (account_by_email (cr_email cr) W)) (cr_password cr)"
    and "not_admin X cr A" "not_admin X cr B"
  shows "fst (check_credentials X clock purged host br cr V t) = fst (check_credentials X clock purged host br cr W t) \<and>
    snd (snd (check_credentials X clock purged host br cr V t)) =
      snd (snd (check_credentials X clock purged host br cr W t)) \<and>
    fst (sign_in_admin X C clock purged kept host old id_hash cr A t) =
      fst (sign_in_admin X C clock purged kept host old id_hash cr B t) \<and>
    snd (snd (sign_in_admin X C clock purged kept host old id_hash cr A t)) =
      snd (snd (sign_in_admin X C clock purged kept host old id_hash cr B t))"
proof -
  obtain A' where A: "admin_start C clock kept (map_option fst (account_by_email (cr_email cr) A))
    (if verify X (stored_hash (account_by_email (cr_email cr) A)) (cr_password cr)
     then stored_hash (account_by_email (cr_email cr) A) else None) id_hash old A = Inr (None, A')"
    using not_admin_start [OF assms(3)] by blast
  obtain B' where B: "admin_start C clock kept (map_option fst (account_by_email (cr_email cr) B))
    (if verify X (stored_hash (account_by_email (cr_email cr) B)) (cr_password cr)
     then stored_hash (account_by_email (cr_email cr) B) else None) id_hash old B = Inr (None, B')"
    using not_admin_start [OF assms(4)] by blast
  have "fst (check_credentials X clock purged host br cr V t) = fst (check_credentials X clock purged host br cr W t) \<and>
    snd (snd (check_credentials X clock purged host br cr V t)) =
      snd (snd (check_credentials X clock purged host br cr W t))"
    using assms(1,2) by (simp add: check_credentials_def split: sum.splits prod.splits option.splits)
  moreover have "fst (sign_in_admin X C clock purged kept host old id_hash cr A t) =
      fst (sign_in_admin X C clock purged kept host old id_hash cr B t) \<and>
    snd (snd (sign_in_admin X C clock purged kept host old id_hash cr A t)) =
      snd (snd (sign_in_admin X C clock purged kept host old id_hash cr B t))"
    using A B by (simp add: sign_in_admin_def Let_def split: sum.splits prod.splits option.splits)
  ultimately show ?thesis by blast
qed

theorem failed_sign_in_tells_nothing_witness:
  "fst (check_credentials sample_outside 0 (\<lambda>_. False) None sample_browser sample_credentials new_identity (\<lambda>_. None)) =
   fst (check_credentials sample_outside 0 (\<lambda>_. False) None sample_browser sample_credentials person5 (\<lambda>_. None))"
proof -
  have v: "\<not> verify sample_outside (stored_hash (account_by_email (cr_email sample_credentials) new_identity))
      (cr_password sample_credentials)" by code_simp
  have w: "\<not> verify sample_outside (stored_hash (account_by_email (cr_email sample_credentials) person5))
      (cr_password sample_credentials)" by code_simp
  have a: "not_admin sample_outside sample_credentials new_identity" by code_simp
  have b: "not_admin sample_outside sample_credentials person3" by code_simp
  show ?thesis
    using failed_sign_in_tells_nothing [OF v w a b] by blast
qed

text \<open>
  Nobody elsewhere can lock an account: however many attempts at whatever emails, through either
  route, come from other networks, from an address with none of its own the right password, with a
  solved challenge, passes.
\<close>



end
