(* ===== verification/Spec2Isabelle.thy ===== *)
theory Spec2Isabelle
  imports World PublicBooking TimeOff Photos CspReports Sessions
begin

text \<open>
  ziftbook: an appointment book for small businesses. A FastAPI application over Postgres
  (\<open>backend/app\<close>) serves a business's members (signed in) and its clients (the public booking page);
  a worker process runs queued jobs and a periodic sweep. The core the development models is the path
  from a business's hours to a booking and through the booking's life.

  Parts and how they interact.
    \<^item> \<open>Prelude\<close> and \<open>Texts\<close>: identifiers, moments, the error body (\<open>errors.py\<close>), the shapes of SQL statements.
    \<^item> \<open>Clock\<close>: \<open>schedule.to_utc\<close> over zones as lists of transitions. The minute walk \<open>settle_wall\<close>
      is total for every zone: past the last transition (\<open>walk_horizon\<close>) every reading round-trips.
    \<^item> \<open>Intervals\<close>: the loops on half-open intervals of \<open>availability.py\<close> and \<open>schedule.py\<close> and
      Python's \<open>bisect_right\<close>; the interface \<open>block_index\<close> the slot engine relies on.
    \<^item> \<open>Tables\<close>: the rows and the state \<open>db\<close> of one business. Row-level security shows a transaction
      one business's rows, so the state holds one business. \<open>Samples\<close>: a business at which the theorems
      are instantiated.
    \<^item> \<open>Members\<close> (\<open>members.py\<close>), \<open>Schedule\<close> (\<open>schedule.py\<close>), \<open>Availability\<close> and \<open>Offers\<close>
      (\<open>availability.py\<close>): who may act, the weeks, the slot engine, and what the routes answer.
    \<^item> \<open>CancellationRule\<close> (\<open>cancellation.py\<close>), \<open>Limits\<close> (\<open>limits.py\<close>), \<open>Jobs\<close> (\<open>jobs.py\<close>), \<open>Clients\<close>
      (\<open>clients.py\<close>): the components the booking handlers call.
    \<^item> \<open>BookingRows\<close>: the table \<open>bookings\<close>, its constraints (migrations 0026, 0027, 0029, 0031, 0042)
      and every statement that writes it; \<open>Notices\<close>: the emails queued; \<open>Placing\<close>: \<open>book_online\<close> and
      \<open>book\<close>; \<open>PublicBooking\<close>: the public route with its limits; \<open>Transitions\<close>: \<open>transition\<close>,
      \<open>reschedule\<close>, the reads, and the life cycle as a step relation (all of \<open>bookings.py\<close>).
    \<^item> \<open>BookingLinks\<close> (\<open>booking_links.py\<close>): what a client does with the mailed link; a token is resolved to
      one live booking and every handler starts from it.
    \<^item> \<open>TimeOff\<close> (\<open>time_off.py\<close>): a member's blocks of time, kept off the appointments they do not already
      cover, and what the availability engine makes of them.
    \<^item> \<open>Photos\<close> (\<open>photos.py\<close>): the bytes of an upload, as lists of 8-bit words, and what of them may
      reach the image decoder.
    \<^item> \<open>CspReports\<close> (\<open>csp_reports.py\<close>): browsers' violation reports, as steps between the route's awaits.
    \<^item> \<open>Identity\<close>: the rows of people, memberships, sessions, factors and audit records of the whole platform;
      \<open>SecondFactor\<close> (\<open>totp.py\<close>, \<open>admin_auth.py\<close>, \<open>admin.py\<close>, migrations 0037, 0039, 0069, 0083, 0084): the
      platform admins' second factor; \<open>Sessions\<close> (\<open>auth.py\<close>, \<open>platform_account.py\<close>, \<open>accounts.py\<close>,
      \<open>retention.py\<close>, migrations 0006, 0009, 0045, 0057): who is signed in, and how that ends. Both are step
      relations of transactions, so requests interleave and stop anywhere.
    \<^item> \<open>History\<close>: the steps of all of these over one table.
    \<^item> \<open>Gateway\<close> (\<open>stripe_gateway.py\<close>): Stripe's answers, and handlers as trees of transactions and calls;
      \<open>Fees\<close> and \<open>PaymentRows\<close>: the amounts, the table \<open>booking_payments\<close> (migration 0044) and its
      statements; \<open>Payments\<close>: the routes, the settle job, Stripe's events and the sweep (\<open>payments.py\<close>);
      \<open>Money\<close>: every transaction of these moves the tables on, whatever happened between two of them;
      \<open>Refunds\<close>: what the settle job and the sweep do when nothing comes between.
    \<^item> \<open>World\<close>: all of it together. A state is Stripe's state, the tables and the programs under way; a
      step is one transaction or one call of one program, a request that arrives, a process that dies,
      a booking handler's commit, the sweep, or a move of Stripe's own.

  Conventions. A handler is a function from the state (and the signed-in member, the request's
  parameters, and the answers of what is outside the repository) to an error or the new state with its
  answer. An error rolls the transaction back, so only an accepted request has a state. A pydantic
  validator is a guard at the head of the handler. Every writer of \<open>bookings\<close> takes the business's
  advisory lock first, so the transactions of one business are steps that follow one another
  (\<open>table_step\<close> in \<open>History\<close>). A handler that calls Stripe holds no transaction meanwhile: it is a
  \<open>program\<close>, whose steps interleave with everybody else's (\<open>system_step\<close>). Concurrency inside one process
  is modelled where it matters (\<open>slot_step\<close>). Python's
  integers are \<open>int\<close> or \<open>nat\<close>; nothing here wraps
  (the bytes of a photo, words of eight bits, are only compared and read as numbers). Text is a list of characters; where the code asks
  Unicode about a character, the model answers for Latin-1. A moment is a number of microseconds.

  What is assumed. \<open>tables_ok\<close> and \<open>bookings_ok\<close> say what the database's constraints and pydantic keep
  true; \<open>bookings_ok\<close> is proved of every step. \<open>zone_ok\<close> asks of a zone that two transitions are
  apart by their jumps, \<open>padded\<close> that the days next to the window are at least twelve hours long,
  \<open>whole_minutes\<close> that a booking is as long as the service it was sold as: the last is what every insert
  writes and no statement changes, the others
  hold of every zone of tzdata but on a date a zone skips as a whole. The library \<open>phonenumbers\<close>,
  Turnstile and Stripe are arguments; nothing is assumed of Stripe's answers but where a theorem says so.

  The lemmas. \<open>Intervals\<close> and \<open>Availability\<close> show what each loop computes; \<open>Offers\<close> lifts it to the
  tables; \<open>BookingRows\<close> shows, through one contract for writers that change a status (\<open>status_writer\<close>)
  and one for those that move a booking (\<open>moving_writer\<close>), each interpreted on the code's own
  statements, that no statement breaks the table; \<open>PaymentRows\<close> does the same for payments
  (\<open>payment_writer\<close>); \<open>Money\<close> lifts it to programs (\<open>steady\<close>: each transaction keeps the tables in order
  and moved on as long as the others' do) and \<open>World\<close> to every interleaving; \<open>Placing\<close>, \<open>PublicBooking\<close> and \<open>Transitions\<close> show
  what each handler does on every branch. The properties, numbered C1 to C40, stand with the component
  they are about.

  Not modelled: see the components of the manifest. Mail texts, files, logs, tracing, configuration
  and the Stripe library are input and output, and the erasure ledger is a later step; columns joined only for display are left out of the
  answers of the reads.
\<close>

end
